(* ===== verification/Prelude.thy ===== *)
theory Prelude
  imports Main "HOL-Library.AList" "HOL-Library.Multiset"
begin

text \<open>
  What every component shares: the results a Go call can have, 64-bit integers as wrapped
  mathematical integers, Go maps as association lists with distinct keys, slices with their
  bounds checks, and the two interfaces (an order-free accumulator, a keyed store) that several
  components provide.
\<close>

named_theorems go_simps
named_theorems go_splits

section \<open>Results of a call\<close>

text \<open>The run-time panics the modelled code can raise.\<close>

datatype go_panic = IndexOutOfRange | SliceBounds | NilDereference | MakeChan | MakeSlice | BadTypeAssertion | InvalidMetric
  | AlreadyRegistered | InvalidPattern

text \<open>
  A call returns a value, panics, or blocks for ever (a channel operation no goroutine will
  ever complete). A Go function that returns \<open>(value, error)\<close> returns the pair: the
  code hands out partial values beside an error, so a sum would lose them.
\<close>

datatype 'a outcome = Returns 'a | Panics go_panic | Blocks

fun bind_outcome :: "'a outcome \<Rightarrow> ('a \<Rightarrow> 'b outcome) \<Rightarrow> 'b outcome" where
  "bind_outcome (Returns x) f = f x"
| "bind_outcome (Panics p) f = Panics p"
| "bind_outcome Blocks f = Blocks"

lemma bind_outcome_Returns_iff:
  "bind_outcome m f = Returns y \<longleftrightarrow> (\<exists>x. m = Returns x \<and> f x = Returns y)"
  by (cases m) auto

section \<open>64-bit integers\<close>

text \<open>
  Go's \<open>int\<close> and \<open>int64\<close> (both 64 bits on the supported platforms) are HOL
  integers; wherever the code computes a value that can leave the range, the model wraps it
  with \<open>i64\<close>, and a conversion \<open>int(x)\<close> is \<open>i64 x\<close> too.
\<close>

definition i64 :: "int \<Rightarrow> int" where
  "i64 x = (x + 2 ^ 63) mod 2 ^ 64 - 2 ^ 63"

definition is_i64 :: "int \<Rightarrow> bool" where
  "is_i64 x \<longleftrightarrow> - (2 ^ 63) \<le> x \<and> x < 2 ^ 63"

lemma i64_id [simp]: "is_i64 x \<Longrightarrow> i64 x = x"
  by (simp add: i64_def is_i64_def)

lemma i64_range: "is_i64 (i64 x)"
  by (simp add: i64_def is_i64_def)

lemma i64_upper: "i64 x < 9223372036854775808"
  using i64_range [of x] by (simp add: is_i64_def)

lemma i64_lower: "- 9223372036854775808 \<le> i64 x"
  using i64_range [of x] by (simp add: is_i64_def)

lemma i64_nonneg_less:
  assumes "0 \<le> x" "x < 2 ^ 64"
  shows "i64 x = (if x < 2 ^ 63 then x else x - 2 ^ 64)"
proof (cases "x < 2 ^ 63")
  case True
  with assms show ?thesis by (simp add: is_i64_def)
next
  case False
  have "(x + 2 ^ 63) mod 2 ^ 64 = (x + 2 ^ 63 - 2 ^ 64) mod 2 ^ 64"
    by (rule minus_mod_self2 [symmetric])
  also have "\<dots> = x + 2 ^ 63 - 2 ^ 64"
    using False assms by (intro mod_pos_pos_trivial) auto
  finally show ?thesis using False by (simp add: i64_def)
qed

section \<open>Slices\<close>

text \<open>\<open>xs[lo:hi]\<close> panics unless \<open>0 <= lo <= hi <= len(xs)\<close>.\<close>

definition go_slice :: "'a list \<Rightarrow> int \<Rightarrow> int \<Rightarrow> go_panic + 'a list" where
  "go_slice xs lo hi =
     (if 0 \<le> lo \<and> lo \<le> hi \<and> hi \<le> int (length xs)
      then Inr (take (nat (hi - lo)) (drop (nat lo) xs))
      else Inl SliceBounds)"

lemma go_slice_Inr:
  "go_slice xs lo hi = Inr ys \<longleftrightarrow>
     0 \<le> lo \<and> lo \<le> hi \<and> hi \<le> int (length xs) \<and> ys = take (nat (hi - lo)) (drop (nat lo) xs)"
  by (auto simp: go_slice_def)

lemma length_go_slice: "go_slice xs lo hi = Inr ys \<Longrightarrow> int (length ys) = hi - lo"
  by (auto simp: go_slice_Inr)

lemma sum_list_update_less:
  "i < length xs \<Longrightarrow> f x < f (xs ! i) \<Longrightarrow> sum_list (map f (xs[i := x])) < (sum_list (map f xs) :: nat)"
proof (induction xs arbitrary: i)
  case (Cons y ys)
  then show ?case by (cases i) auto
qed simp

section \<open>Maps\<close>

text \<open>
  A Go map is an association list with distinct keys. The list order stands for the
  iteration order, which Go leaves unspecified: theorems about a map speak of \<open>map_of\<close>,
  or hold for every order. \<open>m[k] = v\<close> is \<open>AList.update k v m\<close>, \<open>delete(m, k)\<close> is
  \<open>AList.delete k m\<close> and \<open>len(m)\<close> is the list's length.
\<close>

type_synonym ('k, 'v) gomap = "('k \<times> 'v) list"

definition wf_map :: "('k, 'v) gomap \<Rightarrow> bool" where
  "wf_map m \<longleftrightarrow> distinct (map fst m)"

lemma wf_map_Nil [simp, intro]: "wf_map []"
  by (simp add: wf_map_def)

lemma wf_map_update [simp, intro]: "wf_map m \<Longrightarrow> wf_map (AList.update k v m)"
  by (simp add: wf_map_def distinct_update)

lemma wf_map_delete [simp, intro]: "wf_map m \<Longrightarrow> wf_map (AList.delete k m)"
  by (simp add: wf_map_def distinct_delete)

lemma wf_map_Cons: "wf_map ((k, v) # m) \<longleftrightarrow> k \<notin> fst ` set m \<and> wf_map m"
  by (simp add: wf_map_def)

lemma map_of_update [simp]: "map_of (AList.update k v m) = (map_of m)(k \<mapsto> v)"
  by (rule update_conv')

lemma map_of_delete [simp]: "map_of (AList.delete k m) = (map_of m)(k := None)"
  by (rule delete_conv')

lemma update_all_values:
  "\<forall>e \<in> set m. P (snd e) \<Longrightarrow> P v \<Longrightarrow> \<forall>e \<in> set (AList.update k v m). P (snd e)"
  by (induction m) auto

text \<open>Storing every entry of one map into another, as a \<open>for k, v := range\<close> loop does.\<close>

fun map_store_all :: "('k, 'v) gomap \<Rightarrow> ('k, 'v) gomap \<Rightarrow> ('k, 'v) gomap" where
  "map_store_all acc [] = acc"
| "map_store_all acc ((k, v) # m) = map_store_all (AList.update k v acc) m"

lemma wf_map_store_all [simp, intro]: "wf_map acc \<Longrightarrow> wf_map (map_store_all acc m)"
  by (induction acc m rule: map_store_all.induct) auto

lemma map_store_all_eq_Nil [simp]: "map_store_all acc m = [] \<longleftrightarrow> acc = [] \<and> m = []"
proof (induction m arbitrary: acc)
  case (Cons e m)
  have "AList.update k v acc \<noteq> []" for k v by (cases acc) auto
  with Cons show ?case by (cases e) auto
qed simp

lemma map_of_store_all:
  "wf_map m \<Longrightarrow> map_of (map_store_all acc m) = map_of acc ++ map_of m"
proof (induction acc m rule: map_store_all.induct)
  case (1 acc)
  show ?case by simp
next
  case (2 acc k v m)
  then have "k \<notin> dom (map_of m)" and "wf_map m"
    by (auto simp: wf_map_Cons dom_map_of_conv_image_fst)
  with "2.IH" show ?case
    by (auto simp: map_add_def fun_eq_iff domIff split: option.splits)
qed

lemma map_of_map_snd:
  "map_of (map (\<lambda>(k, v). (k, f v)) m) k = map_option f (map_of m k)"
  by (induction m) auto

lemma wf_map_filter [simp, intro]: "wf_map m \<Longrightarrow> wf_map (filter P m)"
  by (simp add: wf_map_def distinct_map_filter)

lemma map_of_filter_kv:
  "wf_map m \<Longrightarrow> map_of (filter P m) k =
     (case map_of m k of None \<Rightarrow> None | Some v \<Rightarrow> if P (k, v) then Some v else None)"
proof (induction m)
  case Nil
  show ?case by simp
next
  case (Cons e m)
  obtain k' v' where e: "e = (k', v')" by (cases e)
  with Cons.prems have "map_of m k' = None" and wf: "wf_map m"
    by (auto simp: wf_map_Cons map_of_eq_None_iff)
  then have "map_of (filter P m) k' = None"
    using Cons.IH [OF wf] by (auto simp: map_of_eq_None_iff)
  with \<open>map_of m k' = None\<close> show ?case
    using Cons.IH [OF wf] by (auto simp: e)
qed

lemma in_set_map_of:
  "wf_map m \<Longrightarrow> (k, v) \<in> set m \<longleftrightarrow> map_of m k = Some v"
  by (simp add: wf_map_def)

lemma card_dom_map_of: "wf_map m \<Longrightarrow> card (dom (map_of m)) = length m"
  unfolding wf_map_def by (metis distinct_card dom_map_of_conv_image_fst length_map list.set_map)

text \<open>A well-formed map is its multiset of entries.\<close>

lemma map_of_mset:
  assumes "mset m = mset m'" "wf_map m"
  shows "wf_map m' \<and> map_of m' = map_of m"
proof -
  have "mset (map fst m') = mset (map fst m)" using assms(1) by simp
  then have "wf_map m'"
    using assms(2) mset_eq_imp_distinct_iff unfolding wf_map_def by blast
  moreover have "set m' = set m" using assms(1) by (metis mset_eq_setD)
  ultimately show ?thesis
    using assms(2) unfolding wf_map_def by (simp add: map_of_inject_set)
qed

lemma map_of_append_distinct:
  assumes "wf_map (xs @ ys)"
  shows "map_of (xs @ ys) = map_of xs ++ map_of ys"
proof -
  have "dom (map_of xs) \<inter> dom (map_of ys) = {}"
    using assms by (auto simp: wf_map_def dom_map_of_conv_image_fst)
  then show ?thesis by (metis map_add_comm map_of_append)
qed

section \<open>Sorting by an index\<close>

text \<open>
  \<open>sort.Slice\<close> is not stable, but every slice the code sorts by a numeric index has
  pairwise different indices, for which the sorted order is unique.
\<close>

lemma sort_key_map_upt:
  assumes "mset xs = mset [0..<n]"
  shows "sort_key fst (map (\<lambda>i. (i, f i)) xs) = map (\<lambda>i. (i, f i)) [0..<n]"
proof -
  let ?ys = "sort_key fst (map (\<lambda>i. (i, f i)) xs)"
  have "map (\<lambda>p. (fst p, f (fst p))) ?ys = ?ys"
    by (rule map_idI) auto
  then have ys: "?ys = map (\<lambda>i. (i, f i)) (map fst ?ys)"
    by (simp add: comp_def)
  have "mset (map fst ?ys) = mset [0..<n]"
    using assms by (simp add: image_mset.compositionality comp_def)
  then have "map fst ?ys = [0..<n]"
    by (metis properties_for_sort sorted_sort_key sorted_upt)
  with ys show ?thesis by simp
qed

section \<open>Order-free accumulation\<close>

text \<open>
  Several operations fold a step over items in an order the scheduler picks (batches in the
  order they complete, metrics in the order they are recorded). The contract: the step on the
  concrete state refines a step on an abstract state, and abstract steps of compatible items
  commute. Then the abstract result is the same for every order.
\<close>

locale order_free =
  fixes step :: "'e \<Rightarrow> 's \<Rightarrow> 's"
    and abs :: "'s \<Rightarrow> 'a"
    and astep :: "'e \<Rightarrow> 'a \<Rightarrow> 'a"
    and ok :: "'e \<Rightarrow> bool"
    and compat :: "'e \<Rightarrow> 'e \<Rightarrow> bool"
  assumes step_refines: "ok e \<Longrightarrow> abs (step e s) = astep e (abs s)"
    and astep_commute: "compat d e \<Longrightarrow> astep d (astep e a) = astep e (astep d a)"
begin

lemma fold_refines: "\<forall>e \<in> set es. ok e \<Longrightarrow> abs (fold step es s) = fold astep es (abs s)"
  by (induction es arbitrary: s) (auto simp: step_refines)

lemma any_order:
  assumes "mset ds = mset es" and "\<forall>e \<in> set es. ok e"
    and "\<And>d e. d \<in> set es \<Longrightarrow> e \<in> set es \<Longrightarrow> d \<noteq> e \<Longrightarrow> compat d e"
  shows "abs (fold step ds s) = abs (fold step es s)"
proof -
  have set_eq: "set ds = set es" using assms(1) by (rule mset_eq_setD)
  have "fold astep ds = fold astep es"
  proof (rule fold_multiset_equiv)
    fix d e
    assume "d \<in> set ds" "e \<in> set ds"
    then show "astep d \<circ> astep e = astep e \<circ> astep d"
      using assms(3) set_eq by (cases "d = e") (auto simp: fun_eq_iff astep_commute)
  qed (rule assms(1))
  then show ?thesis
    using assms(2) set_eq by (simp add: fold_refines)
qed

end

section \<open>Filters of map entries\<close>

text \<open>
  Both collectors drop entries of a map by key and value. The contract: lookups in the result
  are the lookups that pass; then the result depends on the map's contents only (not on the
  iteration order) and filtering twice changes nothing.
\<close>

locale entry_filter =
  fixes flt :: "('k, 'v) gomap \<Rightarrow> ('k, 'v) gomap"
    and keep :: "'k \<Rightarrow> 'v \<Rightarrow> bool"
  assumes flt_lookup: "wf_map m \<Longrightarrow> map_of (flt m) k =
      (case map_of m k of None \<Rightarrow> None | Some v \<Rightarrow> if keep k v then Some v else None)"
    and flt_wf: "wf_map m \<Longrightarrow> wf_map (flt m)"
begin

lemma flt_contents:
  assumes "wf_map m" "wf_map m'" "map_of m = map_of m'"
  shows "map_of (flt m) = map_of (flt m')"
  using assms by (simp add: fun_eq_iff flt_lookup)

lemma flt_idem: "wf_map m \<Longrightarrow> map_of (flt (flt m)) = map_of (flt m)"
  by (auto simp: fun_eq_iff flt_lookup flt_wf split: option.splits)

lemma flt_sub: "wf_map m \<Longrightarrow> map_of (flt m) \<subseteq>\<^sub>m map_of m"
  by (auto simp: map_le_def flt_lookup split: option.splits if_splits)

end

section \<open>Keyed stores\<close>

text \<open>What a client relies on when it keeps values under keys: the map laws.\<close>

locale keyed_store =
  fixes lookup :: "'s \<Rightarrow> 'k \<Rightarrow> 'v option"
    and put :: "'k \<Rightarrow> 'v \<Rightarrow> 's \<Rightarrow> 's"
    and del :: "'k \<Rightarrow> 's \<Rightarrow> 's"
    and inv :: "'s \<Rightarrow> bool"
  assumes lookup_put: "inv s \<Longrightarrow> lookup (put k v s) = (lookup s)(k \<mapsto> v)"
    and lookup_del: "inv s \<Longrightarrow> lookup (del k s) = (lookup s)(k := None)"
    and inv_put: "inv s \<Longrightarrow> inv (put k v s)"
    and inv_del: "inv s \<Longrightarrow> inv (del k s)"
begin

lemma put_same: "inv s \<Longrightarrow> lookup (put k v s) k = Some v"
  by (simp add: lookup_put)

lemma put_other: "inv s \<Longrightarrow> k' \<noteq> k \<Longrightarrow> lookup (put k v s) k' = lookup s k'"
  by (simp add: lookup_put)

lemma put_put: "inv s \<Longrightarrow> lookup (put k v (put k w s)) = lookup (put k v s)"
  by (simp add: lookup_put inv_put)

lemma del_put: "inv s \<Longrightarrow> lookup (del k (put k v s)) k = None"
  by (simp add: lookup_del inv_put)

end

interpretation go_map: keyed_store map_of AList.update AList.delete wf_map
  by unfold_locales auto

end
