(* ===== verification/GoStrings.thy ===== *)
theory GoStrings
  imports Prelude "HOL-Library.Char_ord" "HOL-Library.List_Lexorder"
begin

text \<open>
  The parts of Go's \<open>strconv\<close>, \<open>strings\<close> and \<open>net/url\<close> the exporter calls, on strings
  as lists of bytes, with the facts the components need about them.
\<close>

section \<open>Decimal integers (strconv)\<close>

fun decimal :: "nat \<Rightarrow> string" where
  "decimal n =
     (if n < 10 then [''0123456789'' ! n] else decimal (n div 10) @ [''0123456789'' ! (n mod 10)])"

declare decimal.simps [simp del]

definition FormatInt :: "int \<Rightarrow> string" where
  "FormatInt n = (if n < 0 then ''-'' @ decimal (nat (- n)) else decimal (nat n))"

definition is_digit :: "char \<Rightarrow> bool" where
  "is_digit c \<longleftrightarrow> 48 \<le> (of_char c :: nat) \<and> (of_char c :: nat) \<le> 57"

definition digit_val :: "char \<Rightarrow> nat" where
  "digit_val c = of_char c - 48"

fun digits_val :: "nat \<Rightarrow> string \<Rightarrow> nat option" where
  "digits_val acc [] = Some acc"
| "digits_val acc (c # cs) =
     (if is_digit c then digits_val (10 * acc + digit_val c) cs else None)"

text \<open>
  \<open>strconv.Atoi\<close>: an optional sign and at least one digit; a value outside 64 bits is a
  range error. \<open>None\<close> is any error.
\<close>

definition Atoi_unsigned :: "string \<Rightarrow> nat option" where
  "Atoi_unsigned s = (if s = [] then None else digits_val 0 s)"

definition Atoi :: "string \<Rightarrow> int option" where
  "Atoi s =
     (case s of
        [] \<Rightarrow> None
      | c # cs \<Rightarrow>
          (let v = (if c = CHR ''-'' then map_option (\<lambda>n. - int n) (Atoi_unsigned cs)
                    else if c = CHR ''+'' then map_option int (Atoi_unsigned cs)
                    else map_option int (Atoi_unsigned s))
           in case v of None \<Rightarrow> None | Some n \<Rightarrow> if is_i64 n then Some n else None))"

lemma digit_less_10:
  assumes "n < 10"
  shows "is_digit (''0123456789'' ! n)" and "digit_val (''0123456789'' ! n) = n"
proof -
  have "n = 0 \<or> n = 1 \<or> n = 2 \<or> n = 3 \<or> n = 4 \<or> n = 5 \<or> n = 6 \<or> n = 7 \<or> n = 8 \<or> n = 9"
    using assms by arith
  then show "is_digit (''0123456789'' ! n)" and "digit_val (''0123456789'' ! n) = n"
    by (auto simp: is_digit_def digit_val_def)
qed

lemma decimal_nonempty [simp]: "decimal n \<noteq> []"
  by (subst decimal.simps) simp

lemma decimal_digits: "\<forall>c \<in> set (decimal n). is_digit c"
proof (induction n rule: decimal.induct)
  case (1 n)
  show ?case
  proof (cases "n < 10")
    case True
    then show ?thesis by (subst decimal.simps) (simp add: digit_less_10 del: nth_Cons_numeral)
  next
    case False
    with 1 show ?thesis
      by (subst decimal.simps) (auto simp: digit_less_10 simp del: nth_Cons_numeral)
  qed
qed

lemma digits_val_append:
  "digits_val acc (xs @ ys) = (case digits_val acc xs of None \<Rightarrow> None | Some a \<Rightarrow> digits_val a ys)"
  by (induction acc xs rule: digits_val.induct) auto

lemma digits_val_decimal: "digits_val 0 (decimal n) = Some n"
proof (induction n rule: decimal.induct)
  case (1 n)
  show ?case
  proof (cases "n < 10")
    case True
    then show ?thesis by (subst decimal.simps) (simp add: digit_less_10 del: nth_Cons_numeral)
  next
    case False
    then have "digits_val 0 (decimal n)
        = digits_val 0 (decimal (n div 10) @ [''0123456789'' ! (n mod 10)])"
      by (subst decimal.simps) simp
    also have "\<dots> = Some (10 * (n div 10) + n mod 10)"
      using 1 [OF False] by (simp add: digits_val_append digit_less_10 del: nth_Cons_numeral)
    finally show ?thesis by simp
  qed
qed

lemma hd_decimal_digit: "decimal n = c # cs \<Longrightarrow> is_digit c"
  using decimal_digits [of n] by simp

lemma not_digit_sign [simp]: "\<not> is_digit (CHR ''-'')" "\<not> is_digit (CHR ''+'')"
  by (simp_all add: is_digit_def)

lemma Atoi_FormatInt:
  assumes "is_i64 n"
  shows "Atoi (FormatInt n) = Some n"
proof (cases "n < 0")
  case True
  then show ?thesis
    using assms by (simp add: FormatInt_def Atoi_def Atoi_unsigned_def digits_val_decimal)
next
  case False
  obtain c cs where d: "decimal (nat n) = c # cs"
    using decimal_nonempty [of "nat n"] by (cases "decimal (nat n)") auto
  then have "c \<noteq> CHR ''-''" and "c \<noteq> CHR ''+''"
    using hd_decimal_digit [OF d] by auto
  with False assms d digits_val_decimal [of "nat n"] show ?thesis
    by (simp add: FormatInt_def Atoi_def Atoi_unsigned_def)
qed

section \<open>strings\<close>

fun strings_Join :: "string list \<Rightarrow> string \<Rightarrow> string" where
  "strings_Join [] sep = []"
| "strings_Join [s] sep = s"
| "strings_Join (s # t # ss) sep = s @ sep @ strings_Join (t # ss) sep"

definition strings_ContainsAny :: "string \<Rightarrow> string \<Rightarrow> bool" where
  "strings_ContainsAny s chars = list_ex (\<lambda>c. List.member chars c) s"

lemma strings_ContainsAny_iff: "strings_ContainsAny s chars \<longleftrightarrow> set s \<inter> set chars \<noteq> {}"
  by (auto simp: strings_ContainsAny_def list_ex_iff)

lemma strings_Join_Cons: "ss \<noteq> [] \<Longrightarrow> strings_Join (s # ss) sep = s @ sep @ strings_Join ss sep"
  by (cases ss) auto

section \<open>Query escaping (net/url)\<close>

definition unreserved :: "char \<Rightarrow> bool" where
  "unreserved c \<longleftrightarrow>
     (let n = (of_char c :: nat) in
      (65 \<le> n \<and> n \<le> 90) \<or> (97 \<le> n \<and> n \<le> 122) \<or> (48 \<le> n \<and> n \<le> 57)
      \<or> n = 45 \<or> n = 95 \<or> n = 46 \<or> n = 126)"

definition escape_byte :: "char \<Rightarrow> string" where
  "escape_byte c =
     (if c = CHR '' '' then ''+''
      else if unreserved c then [c]
      else [CHR ''%'', ''0123456789ABCDEF'' ! (of_char c div 16), ''0123456789ABCDEF'' ! (of_char c mod 16)])"

definition QueryEscape :: "string \<Rightarrow> string" where
  "QueryEscape s = concat (map escape_byte s)"

lemma QueryEscape_append [simp]: "QueryEscape (s @ t) = QueryEscape s @ QueryEscape t"
  by (simp add: QueryEscape_def)

lemma length_QueryEscape: "length s \<le> length (QueryEscape s)"
  by (induction s) (auto simp: QueryEscape_def escape_byte_def)

text \<open>\<open>url.Values.Encode\<close> for parameters with one value each: sorted by key.\<close>

definition Values_Encode :: "(string \<times> string) list \<Rightarrow> string" where
  "Values_Encode params =
     strings_Join (map (\<lambda>(k, v). QueryEscape k @ ''='' @ QueryEscape v) (sort_key fst params)) ''&''"

section \<open>Splitting and trimming\<close>

text \<open>\<open>strings.Split\<close> at a separator of one byte.\<close>

fun strings_Split :: "string \<Rightarrow> char \<Rightarrow> string list" where
  "strings_Split [] sep = [[]]"
| "strings_Split (c # cs) sep =
     (if c = sep then [] # strings_Split cs sep
      else case strings_Split cs sep of [] \<Rightarrow> [[c]] | p # ps \<Rightarrow> (c # p) # ps)"

lemma strings_Split_nonempty [simp]: "strings_Split s sep \<noteq> []"
  by (cases s) (auto split: list.splits)

lemma strings_Split_single: "sep \<notin> set s \<Longrightarrow> strings_Split s sep = [s]"
  by (induction s) auto

lemma strings_Split_append: "strings_Split (s @ sep # t) sep = strings_Split s sep @ strings_Split t sep"
proof (induction s)
  case (Cons c s)
  then show ?case by (cases "strings_Split s sep") auto
qed simp

lemma strings_Join_Split: "strings_Join (strings_Split s sep) [sep] = s"
proof (induction s)
  case (Cons c s)
  then show ?case
    by (cases "strings_Split s sep"; cases "tl (strings_Split s sep)") (auto simp: strings_Join_Cons)
qed simp

lemma strings_Split_Join:
  "ss \<noteq> [] \<Longrightarrow> strings_Split (strings_Join ss [sep]) sep = concat (map (\<lambda>s. strings_Split s sep) ss)"
  by (induction ss "[sep]" rule: strings_Join.induct) (simp_all add: strings_Split_append)

lemma strings_Split_parts: "p \<in> set (strings_Split s sep) \<Longrightarrow> sep \<notin> set p"
proof (induction s arbitrary: p)
  case (Cons c s)
  then show ?case by (cases "strings_Split s sep") (auto split: if_splits)
qed simp

text \<open>
  \<open>strings.TrimSpace\<close>: the white space of Unicode, in UTF-8. No encoding is a suffix of
  another, so bytes that end with one end with that character.
\<close>

definition white_space :: "string list" where
  "white_space = map (map char_of)
     ([[9], [10], [11], [12], [13], [32], [194, 133], [194, 160], [225, 154, 128]]
      @ map (\<lambda>b. [226, 128, b]) [128, 129, 130, 131, 132, 133, 134, 135, 136, 137, 138, 168, 169, 175]
      @ [[226, 129, 159], [227, 128, 128 :: nat]])"

function trim_prefix :: "string list \<Rightarrow> string \<Rightarrow> string" where
  "trim_prefix ps s =
     (case find (\<lambda>p. p \<noteq> [] \<and> take (length p) s = p) ps of
        None \<Rightarrow> s
      | Some p \<Rightarrow> trim_prefix ps (drop (length p) s))"
  by auto

termination trim_prefix
proof (relation "measure (\<lambda>(_, s). length s)")
  fix ps s p
  assume "find (\<lambda>p. p \<noteq> [] \<and> take (length p) s = p) ps = Some p"
  then have "p \<noteq> []" "take (length p) s = p" by (auto simp: find_Some_iff)
  then have "0 < length p" "s \<noteq> []" by auto
  then show "((ps, drop (length p) s), (ps, s)) \<in> measure (\<lambda>(_, s). length s)" by simp
qed simp

declare trim_prefix.simps [simp del]

definition strings_TrimSpace :: "string \<Rightarrow> string" where
  "strings_TrimSpace s =
     rev (trim_prefix (map rev white_space) (rev (trim_prefix white_space s)))"

lemma trim_prefix_step:
  "find (\<lambda>p. p \<noteq> [] \<and> take (length p) s = p) ps = Some p \<Longrightarrow> trim_prefix ps s = trim_prefix ps (drop (length p) s)"
  "find (\<lambda>p. p \<noteq> [] \<and> take (length p) s = p) ps = None \<Longrightarrow> trim_prefix ps s = s"
  by (subst trim_prefix.simps; simp)+

lemma trim_prefix_unchanged: "\<forall>p \<in> set ps. p \<noteq> [] \<longrightarrow> take (length p) s \<noteq> p \<Longrightarrow> trim_prefix ps s = s"
  by (rule trim_prefix_step) (auto simp: find_None_iff)

lemma trim_prefix_Nil [simp]: "trim_prefix ps [] = []"
  by (rule trim_prefix_unchanged) simp

lemma strings_TrimSpace_Nil [simp]: "strings_TrimSpace [] = []"
  by (simp add: strings_TrimSpace_def)

lemma trim_prefix_suffix: "\<exists>t. s = t @ trim_prefix ps s"
proof (induction ps s rule: trim_prefix.induct)
  case (1 ps s)
  show ?case
  proof (cases "find (\<lambda>p. p \<noteq> [] \<and> take (length p) s = p) ps")
    case None
    then show ?thesis by (simp add: trim_prefix_step(2))
  next
    case (Some p)
    from 1 [OF Some] obtain t where "drop (length p) s = t @ trim_prefix ps s"
      unfolding trim_prefix_step(1) [OF Some] by blast
    then show ?thesis by (metis append.assoc append_take_drop_id)
  qed
qed

lemma trim_prefix_trimmed: "p \<in> set ps \<Longrightarrow> p \<noteq> [] \<Longrightarrow> take (length p) (trim_prefix ps s) \<noteq> p"
proof (induction ps s rule: trim_prefix.induct)
  case (1 ps s)
  show ?case
  proof (cases "find (\<lambda>p. p \<noteq> [] \<and> take (length p) s = p) ps")
    case None
    then show ?thesis using 1(2,3) by (auto simp: trim_prefix_step(2) find_None_iff)
  next
    case (Some q)
    then show ?thesis using 1 by (simp add: trim_prefix_step(1) [OF Some])
  qed
qed

section \<open>Durations\<close>

text \<open>
  \<open>time.Duration.String\<close>, for a number of nanoseconds: the fraction of a unit of \<open>10 ^ prec\<close>
  without trailing zeros, then hours, minutes and seconds, or a smaller unit below one second. The
  micro sign is two bytes.
\<close>

definition fraction :: "nat \<Rightarrow> nat \<Rightarrow> string" where
  "fraction v prec =
     (let ds = decimal (v mod 10 ^ prec);
          ds = replicate (prec - length ds) (CHR ''0'') @ ds;
          ds = rev (dropWhile (\<lambda>c. c = CHR ''0'') (rev ds))
      in if ds = [] \<or> prec = 0 then [] else ''.'' @ ds)"

definition small_duration :: "nat \<Rightarrow> string" where
  "small_duration u =
     (if u = 0 then ''0s''
      else if u < 1000 then decimal u @ ''ns''
      else if u < 1000000 then decimal (u div 1000) @ fraction u 3 @ [char_of (194 :: nat), char_of (181 :: nat)] @ ''s''
      else decimal (u div 1000000) @ fraction u 6 @ ''ms'')"

definition large_duration :: "nat \<Rightarrow> string" where
  "large_duration u =
     (let s = u div 1000000000; m = s div 60; h = m div 60
      in (if m > 0 then (if h > 0 then decimal h @ ''h'' else []) @ decimal (m mod 60) @ ''m'' else [])
         @ decimal (s mod 60) @ fraction u 9 @ ''s'')"

definition Duration_String :: "int \<Rightarrow> string" where
  "Duration_String d =
     (let u = nat \<bar>d\<bar>
      in (if d < 0 then ''-'' else []) @ (if u < 1000000000 then small_duration u else large_duration u))"

lemma Duration_String_examples:
  "Duration_String 3600000000000 = ''1h0m0s''" "Duration_String 500000000 = ''500ms''"
  "Duration_String (- 1500000000) = ''-1.5s''" "Duration_String 0 = ''0s''"
  by (simp_all add: Duration_String_def small_duration_def large_duration_def fraction_def decimal.simps Let_def)

end
