(* ===== verification/ForemanTypes.thy ===== *)
theory ForemanTypes
  imports GoStrings
begin

text \<open>
  The data of package \<open>foreman\<close>: hosts, the two response envelopes, the client's settings
  and what one batch of host ids brings back. Field names are the code's; the envelope of
  \<open>/fact_values\<close> and of \<open>/hosts/:id/facts\<close> carries the prefix \<open>F\<close> because its fields
  have the names of the host envelope's.
\<close>

text \<open>
  The errors. An \<open>error\<close> result is a \<open>go_error option\<close> (\<open>None\<close> is nil) or the left of a
  sum where the code returns nothing else with it. The first four come from the transport and
  from decoding; each of the others is one \<open>fmt.Errorf\<close> of the code, with its arguments.
\<close>

datatype go_error =
    Transport string
  | ReadBody string
  | JsonError
  | ErrorBody string
  | CannotGetHosts go_error
  | CannotGetPage int int go_error
  | ExpectedGot int int
  | IncompleteHosts int int int int
  | BatchesFailedAndTruncated int int int "go_error option" int
  | BatchesFailed int int int "go_error option"
  | BatchesTruncated int int int

text \<open>
  What the code records in its Prometheus collectors, as the calls it makes: the collector's
  variable in the code, its label values, and the value. Elapsed times carry no value.
\<close>

datatype metric =
    Inc string "string list"
  | AddTo string int
  | AddElapsed string
  | Observe string int
  | ObserveRatio string int int
  | ObserveElapsed string "string list"
  | ObserveNanos string "string list" int
  | SetGauge string int
  | SetElapsed string

record Host =
  ID :: int
  Name :: string
  GlobalStatusLabel :: string
  ConfigurationStatusLabel :: string
  BuildStatusLabel :: string
  OrganizationName :: string
  EnvironmentName :: string
  OperatingSystemName :: string
  OwnerName :: string
  LocationName :: string
  ModelName :: string
  HostgroupName :: string

text \<open>\<open>Subtotal\<close> is a pointer: \<open>None\<close> is a foreman that does not report the field.\<close>

record HostResponse =
  Total :: int
  Subtotal :: "int option"
  Page :: int
  PerPage :: int
  Results :: "Host list"

type_synonym facts = "(string, string) gomap"
type_synonym hosts_facts = "(string, facts) gomap"

record HostFactsResponse =
  FTotal :: int
  FPage :: int
  FPerPage :: int
  FResults :: hosts_facts

text \<open>A compiled regular expression, as its match predicate; \<open>None\<close> is a nil pointer.\<close>

type_synonym regex = "(string \<Rightarrow> bool) option"

text \<open>
  The client. The HTTP machinery (\<open>client\<close>, the completion callback, the logger) is the
  transport parameter of the operations. The base URL is its \<open>scheme://host\<close> part: the
  code replaces path and query of its copy before every request.
\<close>

record HTTPClient =
  BaseURL :: string
  Username :: string
  Password :: string
  Concurrency :: int
  Limit :: int
  Search :: string
  SearchHostFact :: string
  IncludeHostFactRegex :: regex
  ExcludeHostFactRegex :: regex
  BulkFacts :: bool
  FactBatchSize :: int
  FactPerPage :: int
  FactMaxPages :: int
  FactNames :: "string list"
  FactInOperator :: string
  MaxURLLength :: int
  HostListPerPage :: int

record BatchFactsResult =
  HostIDs :: "int list"
  Facts :: hosts_facts
  Missing :: "string list"
  Pages :: int
  Truncated :: bool
  Err :: "go_error option"

text \<open>The zero values of the Go types, where the code returns them.\<close>

definition zero_HostResponse :: HostResponse where
  "zero_HostResponse = \<lparr>Total = 0, Subtotal = None, Page = 0, PerPage = 0, Results = []\<rparr>"

definition zero_HostFactsResponse :: HostFactsResponse where
  "zero_HostFactsResponse = \<lparr>FTotal = 0, FPage = 0, FPerPage = 0, FResults = []\<rparr>"

definition zero_Host :: Host where
  "zero_Host = \<lparr>ID = 0, Name = [], GlobalStatusLabel = [], ConfigurationStatusLabel = [],
     BuildStatusLabel = [], OrganizationName = [], EnvironmentName = [], OperatingSystemName = [],
     OwnerName = [], LocationName = [], ModelName = [], HostgroupName = []\<rparr>"

text \<open>The client of an exporter started with the command line's defaults, for examples.\<close>

definition default_client :: HTTPClient where
  "default_client = \<lparr>BaseURL = ''https://foreman'', Username = ''u'', Password = ''p'',
     Concurrency = 4, Limit = 0, Search = [], SearchHostFact = [],
     IncludeHostFactRegex = None, ExcludeHostFactRegex = None, BulkFacts = True,
     FactBatchSize = 20, FactPerPage = 10000, FactMaxPages = 10, FactNames = [],
     FactInOperator = ''^'', MaxURLLength = 6000, HostListPerPage = 5000\<rparr>"

definition example_host :: "int \<Rightarrow> string \<Rightarrow> Host" where
  "example_host i n = zero_Host\<lparr>ID := i, Name := n\<rparr>"

lemma example_host_simps [simp]: "ID (example_host i n) = i" "Name (example_host i n) = n"
  by (simp_all add: example_host_def)

end
