(* ===== verification/Labels.thy ===== *)
theory Labels
  imports ForemanTypes
begin

text \<open>
  The labels of an exported host (host_collector.go, hostfact_collector.go): those of a host's
  status, filtered by the collector's patterns, and those of its facts, whose names are
  turned into label names.
\<close>

type_synonym labels = "(string, string) gomap"

section \<open>The labels of a host's status\<close>

text \<open>
  The JSON round trip through \<open>HostLabels\<close> into a map of strings: a field tagged
  \<open>omitempty\<close> is left out when empty; the id is a number, which cannot be stored in a map of
  strings, and is deleted.
\<close>

definition optional_labels :: "Host \<Rightarrow> labels" where
  "optional_labels h =
     [(''global_status'', GlobalStatusLabel h), (''configuration_status'', ConfigurationStatusLabel h),
      (''build_status'', BuildStatusLabel h), (''organization'', OrganizationName h),
      (''environment'', EnvironmentName h), (''operatingsystem'', OperatingSystemName h),
      (''owner'', OwnerName h), (''location'', LocationName h), (''model'', ModelName h),
      (''hostgroup'', HostgroupName h)]"

definition host_labels :: "Host \<Rightarrow> labels" where
  "host_labels h = (''name'', Name h) # filter (\<lambda>(l, v). v \<noteq> []) (optional_labels h)"

definition drop_label :: "regex \<Rightarrow> regex \<Rightarrow> string \<Rightarrow> labels \<Rightarrow> labels" where
  "drop_label include exclude label acc =
     (if label = ''name'' then acc
      else if (case include of None \<Rightarrow> False | Some matches \<Rightarrow> \<not> matches label) then AList.delete label acc
      else if (case exclude of None \<Rightarrow> False | Some matches \<Rightarrow> matches label) then AList.delete label acc
      else acc)"

definition filter_host_labels :: "regex \<Rightarrow> regex \<Rightarrow> labels \<Rightarrow> labels" where
  "filter_host_labels include exclude labels = fold (drop_label include exclude) (map fst labels) labels"

section \<open>The labels of a host's facts\<close>

text \<open>
  \<open>factNameReplacer\<close>: at each position the pattern that matches there is replaced; no two of
  its patterns start with the same character.
\<close>

definition sanitize_char :: "char \<Rightarrow> char" where
  "sanitize_char c = (if c = CHR ''/'' \<or> c = CHR ''-'' \<or> c = CHR ''.'' then CHR ''_'' else c)"

fun sanitize :: "string \<Rightarrow> string" where
  "sanitize [] = []"
| "sanitize [c] = [sanitize_char c]"
| "sanitize (c # d # cs) =
     (if c = CHR '':'' \<and> d = CHR '':'' then CHR ''_'' # sanitize cs
      else sanitize_char c # sanitize (d # cs))"

definition is_letter :: "char \<Rightarrow> bool" where
  "is_letter c \<longleftrightarrow> (let n = (of_char c :: nat) in 65 \<le> n \<and> n \<le> 90 \<or> 97 \<le> n \<and> n \<le> 122 \<or> n = 95)"

text \<open>\<open>labelNameRegexp\<close>: \<open>^[a-zA-Z_][a-zA-Z0-9_]*$\<close>.\<close>

definition label_name_ok :: "string \<Rightarrow> bool" where
  "label_name_ok l \<longleftrightarrow> l \<noteq> [] \<and> is_letter (hd l) \<and> list_all (\<lambda>c. is_letter c \<or> is_digit c) (tl l)"

definition store_label :: "string \<times> string \<Rightarrow> labels \<Rightarrow> labels" where
  "store_label e acc =
     (let l = sanitize (fst e) in if label_name_ok l then AList.update l (snd e) acc else acc)"

text \<open>The labels, for facts that the range loop visits in the list's order.\<close>

definition fact_labels :: "string \<Rightarrow> facts \<Rightarrow> labels" where
  "fact_labels host facts = fold store_label facts [(''name'', host)]"

section \<open>Filtering host labels\<close>

definition label_kept :: "regex \<Rightarrow> regex \<Rightarrow> string \<Rightarrow> string \<Rightarrow> bool" where
  "label_kept include exclude l v \<longleftrightarrow>
     l = ''name'' \<or> (\<forall>matches. include = Some matches \<longrightarrow> matches l) \<and> (\<forall>matches. exclude = Some matches \<longrightarrow> \<not> matches l)"

lemma drop_label_eq:
  "drop_label inc exc label acc = (if label_kept inc exc label v then acc else AList.delete label acc)"
  by (auto simp: drop_label_def label_kept_def split: option.splits)

lemma fold_drop_label:
  "map_of (fold (drop_label inc exc) ls acc) l
    = (if l \<in> set ls \<and> \<not> label_kept inc exc l v then None else map_of acc l)"
  by (induction ls arbitrary: acc) (auto simp: drop_label_eq [where v = v])

lemma wf_fold_drop_label: "wf_map acc \<Longrightarrow> wf_map (fold (drop_label inc exc) ls acc)"
  by (induction ls arbitrary: acc) (auto simp: drop_label_def)

interpretation host_label_filter: entry_filter "filter_host_labels inc exc" "label_kept inc exc" for inc exc
proof
  fix m :: labels and k
  assume wf: "wf_map m"
  show "map_of (filter_host_labels inc exc m) k =
      (case map_of m k of None \<Rightarrow> None | Some v \<Rightarrow> if label_kept inc exc k v then Some v else None)"
  proof (cases "map_of m k")
    case None
    then show ?thesis by (simp add: filter_host_labels_def fold_drop_label [where v = "[]"])
  next
    case (Some v)
    then have "k \<in> set (map fst m)" by (metis map_of_eq_None_iff option.distinct(1) set_map)
    with Some show ?thesis by (simp add: filter_host_labels_def fold_drop_label [where v = v])
  qed
  show "wf_map (filter_host_labels inc exc m)"
    using wf by (simp add: filter_host_labels_def wf_fold_drop_label)
qed

lemma optional_label_names:
  "map fst (optional_labels h) =
     [''global_status'', ''configuration_status'', ''build_status'', ''organization'', ''environment'',
      ''operatingsystem'', ''owner'', ''location'', ''model'', ''hostgroup'']"
  by (simp add: optional_labels_def)

lemma wf_host_labels: "wf_map (host_labels h)"
proof -
  have "wf_map (optional_labels h)" by (simp add: wf_map_def optional_label_names)
  moreover have "''name'' \<notin> set (map fst (optional_labels h))"
    unfolding optional_label_names by simp
  then have "''name'' \<notin> fst ` set (filter P (optional_labels h))" for P by auto
  ultimately show ?thesis by (simp add: host_labels_def wf_map_Cons)
qed

section \<open>Fact labels\<close>

lemma wf_fact_labels: "wf_map (fact_labels host facts)"
proof -
  have "wf_map (fold store_label facts acc)" if "wf_map acc" for acc
    using that by (induction facts arbitrary: acc) (simp_all add: store_label_def Let_def)
  then show ?thesis by (simp add: fact_labels_def wf_map_def)
qed

lemma name_ok: "label_name_ok ''name''"
  by (simp add: label_name_ok_def is_letter_def is_digit_def)

text \<open>Every label name that facts give is one that Prometheus accepts.\<close>

lemma store_label_names:
  "fst ` set (store_label e acc) =
    (if label_name_ok (sanitize (fst e)) then insert (sanitize (fst e)) (fst ` set acc) else fst ` set acc)"
  by (simp add: store_label_def Let_def dom_update)

lemma fact_labels_snoc: "fact_labels host (facts @ [e]) = store_label e (fact_labels host facts)"
  by (simp add: fact_labels_def)

lemma fact_labels_ok: "l \<in> fst ` set (fact_labels host facts) \<Longrightarrow> label_name_ok l"
proof (induction facts rule: rev_induct)
  case Nil
  then have "l = ''name''" by (simp add: fact_labels_def)
  then show ?case using name_ok by (simp only:)
next
  case (snoc e facts)
  then show ?case unfolding fact_labels_snoc store_label_names by (metis insertE)
qed

section \<open>Properties\<close>

text \<open>The labels of a host's status: the name is always there, whatever the patterns say; another label
  is there if and only if the host has a value for it and the patterns keep it, and its value is the host's.\<close>

theorem host_labels_exported:
  "map_of (filter_host_labels inc exc (host_labels h)) l =
     (case map_of (host_labels h) l of None \<Rightarrow> None
      | Some v \<Rightarrow> if label_kept inc exc l v then Some v else None)
   \<and> map_of (filter_host_labels inc exc (host_labels h)) ''name'' = Some (Name h)
   \<and> wf_map (filter_host_labels inc exc (host_labels h))"
proof -
  have "map_of (host_labels h) ''name'' = Some (Name h)" by (simp add: host_labels_def)
  then show ?thesis
    using host_label_filter.flt_lookup [OF wf_host_labels, of inc exc h "''name''"]
    by (simp add: host_label_filter.flt_lookup wf_host_labels host_label_filter.flt_wf label_kept_def)
qed

text \<open>The facts that give a label, by the label.\<close>

definition labelled :: "facts \<Rightarrow> labels" where
  "labelled facts = map (\<lambda>(k, v). (sanitize k, v)) (filter (\<lambda>(k, v). label_name_ok (sanitize k)) facts)"

lemma labelled_snoc:
  "labelled (facts @ [(k, v)]) = labelled facts @ (if label_name_ok (sanitize k) then [(sanitize k, v)] else [])"
  by (simp add: labelled_def)

lemma fact_labels_labelled:
  assumes "wf_map (labelled facts)"
  shows "map_of (fact_labels host facts) = [''name'' \<mapsto> host] ++ map_of (labelled facts)"
  using assms
proof (induction facts rule: rev_induct)
  case Nil
  show ?case by (simp add: fact_labels_def labelled_def)
next
  case (snoc e facts)
  obtain k v where e: "e = (k, v)" by (cases e)
  have IH: "map_of (fact_labels host facts) = [''name'' \<mapsto> host] ++ map_of (labelled facts)"
    using snoc.prems unfolding e labelled_snoc by (intro snoc.IH) (simp add: wf_map_def)
  show ?case
  proof (cases "label_name_ok (sanitize k)")
    case False
    then have "fact_labels host (facts @ [e]) = fact_labels host facts"
      unfolding fact_labels_snoc by (simp add: e store_label_def Let_def)
    with False IH show ?thesis by (simp only: e labelled_snoc if_False append_Nil2)
  next
    case True
    then have "map_of (labelled (facts @ [e])) = (map_of (labelled facts))(sanitize k \<mapsto> v)"
      using snoc.prems unfolding e labelled_snoc
      by (simp only: if_True map_of_append_distinct map_of.simps map_add_upd map_add_empty fst_conv snd_conv)
    moreover have "map_of (fact_labels host (facts @ [e])) = (map_of (fact_labels host facts))(sanitize k \<mapsto> v)"
      unfolding fact_labels_snoc using True by (simp add: e store_label_def Let_def)
    ultimately show ?thesis by (simp only: IH map_add_upd)
  qed
qed

text \<open>When no two of a host's facts give the same label and none is called \<open>name\<close>, the exported labels are
  the host's name and every fact whose name can be turned into a label, with its value, in
  whatever order Go iterates over the facts.\<close>

theorem fact_labels_exact:
  assumes "wf_map (labelled facts)" "''name'' \<notin> fst ` set (labelled facts)" "mset facts = mset facts'"
  shows "map_of (fact_labels host facts) = (map_of (labelled facts))(''name'' \<mapsto> host)
    \<and> map_of (fact_labels host facts') = map_of (fact_labels host facts)"
proof -
  have "mset (labelled facts') = mset (labelled facts)"
    using assms(3) by (simp add: labelled_def)
  then have "wf_map (labelled facts')" "map_of (labelled facts') = map_of (labelled facts)"
    using map_of_mset [OF _ assms(1)] by metis+
  moreover have "[''name'' \<mapsto> host] ++ map_of (labelled facts) = (map_of (labelled facts))(''name'' \<mapsto> host)"
  proof -
    have "map_of (labelled facts) ''name'' = None" using assms(2) by (simp only: map_of_eq_None_iff) simp
    then show ?thesis by (auto simp: map_add_def fun_eq_iff split: option.splits)
  qed
  ultimately show ?thesis
    using assms(1) by (simp add: fact_labels_labelled)
qed

theorem fact_labels_exact_witness:
  "map_of (fact_labels ''web1'' [(''net::ip'', ''10.0.0.1''), (''os'', ''linux'')]) ''net_ip'' = Some ''10.0.0.1''"
proof -
  let ?facts = "[(''net::ip'', ''10.0.0.1''), (''os'', ''linux'')]"
  have facts: "labelled ?facts = [(''net_ip'', ''10.0.0.1''), (''os'', ''linux'')]"
    by (simp add: labelled_def label_name_ok_def is_letter_def sanitize_char_def)
  have "wf_map (labelled ?facts)" "''name'' \<notin> fst ` set (labelled ?facts)"
    by (simp_all add: facts wf_map_def)
  from fact_labels_exact [OF this refl, of "''web1''"] show ?thesis by (simp add: facts)
qed

text \<open>A fact whose name gives the label \<open>name\<close> replaces the host's own name: the series carries the
  fact's value where every other host carries its name.\<close>

theorem fact_called_name_replaces_host:
  assumes "wf_map (labelled facts)" "(k, v) \<in> set facts" "sanitize k = ''name''"
  shows "map_of (fact_labels host facts) ''name'' = Some v"
proof -
  have "(''name'', v) \<in> set (labelled facts)"
    using assms(2,3) by (force simp: labelled_def name_ok)
  then have "map_of (labelled facts) ''name'' = Some v"
    using assms(1) by (simp add: in_set_map_of)
  then show ?thesis by (simp add: fact_labels_labelled [OF assms(1)])
qed

theorem fact_called_name_replaces_host_witness:
  "map_of (fact_labels ''web1'' [(''name'', ''db7''), (''os'', ''linux'')]) ''name'' = Some ''db7''"
proof (rule fact_called_name_replaces_host [where k = "''name''"])
  show "wf_map (labelled [(''name'', ''db7''), (''os'', ''linux'')])"
    by (simp add: labelled_def label_name_ok_def is_letter_def wf_map_def sanitize_char_def)
qed (simp_all add: sanitize_char_def)

text \<open>When two facts give the same label, the one that Go happens to visit last wins, so two scrapes
  of the same facts can export different values.\<close>

theorem fact_labels_collide:
  assumes "sanitize k = l" "sanitize k' = l" "label_name_ok l"
  shows "map_of (fact_labels host [(k, v), (k', v')]) l = Some v'
    \<and> map_of (fact_labels host [(k', v'), (k, v)]) l = Some v"
  using assms by (simp add: fact_labels_def store_label_def)

theorem fact_labels_collide_witness:
  "map_of (fact_labels ''web1'' [(''a-b'', ''1''), (''a_b'', ''2'')]) ''a_b'' = Some ''2''
    \<and> map_of (fact_labels ''web1'' [(''a_b'', ''2''), (''a-b'', ''1'')]) ''a_b'' = Some ''1''"
  by (rule fact_labels_collide) (simp_all add: label_name_ok_def is_letter_def sanitize_char_def)

end
