(* ===== verification/MemCache.thy ===== *)
theory MemCache
  imports Prelude
begin

text \<open>
  The in-process cache (memcache/memcache.go). The mutex makes every operation one step. A value
  that has expired stays: its reader compares the time, nothing removes it. Times are
  nanoseconds; the argument \<open>now\<close> is the clock.
\<close>

record 'v CacheValue =
  Value :: 'v
  ValueExpiresAt :: int

type_synonym 'v MemCache = "(string, 'v CacheValue) gomap"

definition NewLocalCache :: "'v MemCache" where
  "NewLocalCache = []"

definition Set :: "int \<Rightarrow> string \<Rightarrow> 'v \<Rightarrow> int \<Rightarrow> 'v MemCache \<Rightarrow> 'v MemCache" where
  "Set now key value expiration c =
     AList.update key \<lparr>Value = value, ValueExpiresAt = now + expiration\<rparr> c"

definition Get :: "'v MemCache \<Rightarrow> string \<Rightarrow> 'v CacheValue option" where
  "Get c key = map_of c key"

definition Del :: "string \<Rightarrow> 'v MemCache \<Rightarrow> 'v MemCache" where
  "Del key c = AList.delete key c"

text \<open>
  The cache is a keyed store of values with their expiry: \<open>Set\<close> at the time of the expiry, with
  nothing left to live, stores a given value and expiry.
\<close>

interpretation mem: keyed_store Get "\<lambda>key cv. Set (ValueExpiresAt cv) key (Value cv) 0" Del wf_map
  by unfold_locales (auto simp: Get_def Set_def Del_def)

lemma Set_entry: "Set (now + ttl) key value 0 c = Set now key value ttl c"
  by (simp add: Set_def)

text \<open>What was set last under a key is what is read back, with its expiry, until the key is deleted or
  set again; operations on other keys do not touch it.\<close>

theorem Get_Set:
  assumes "wf_map c"
  shows "Get (Set now key value ttl c) key = Some \<lparr>Value = value, ValueExpiresAt = now + ttl\<rparr>
    \<and> (\<forall>key'. key' \<noteq> key \<longrightarrow> Get (Set now key value ttl c) key' = Get c key' \<and> Get (Del key c) key' = Get c key')
    \<and> Get (Del key (Set now key value ttl c)) key = None
    \<and> wf_map (Set now key value ttl c) \<and> wf_map (Del key c)"
proof -
  let ?cv = "\<lparr>Value = value, ValueExpiresAt = now + ttl\<rparr>"
  note facts = mem.put_same [OF assms, where k = key and v = ?cv] mem.put_other [OF assms, where k = key and v = ?cv]
    mem.del_put [OF assms, where k = key and v = ?cv] mem.inv_put [OF assms, where k = key and v = ?cv]
    mem.inv_del [OF assms, where k = key] mem.lookup_del [OF assms, where k = key]
  show ?thesis using facts by (simp add: Set_entry)
qed

theorem Get_Set_witness:
  "Get (Set 10 ''k'' (3 :: nat) 5 (Set 0 ''j'' 1 5 NewLocalCache)) ''k'' = Some \<lparr>Value = 3, ValueExpiresAt = 15\<rparr>"
  using Get_Set [of "Set 0 ''j'' 1 5 NewLocalCache" 10 "''k''" "3 :: nat" 5]
  by (simp add: Set_def NewLocalCache_def wf_map_def)

end
