(* ===== verification/ClusterCache.thy ===== *)
theory ClusterCache
  imports Prelude "HOL-Library.Word"
begin

text \<open>
  The replicated cache entry of the ring mode (cache.pb.go, cache_codec.go) and how a replica
  merges the entries that others gossip. Timestamps are unix nanoseconds.
\<close>

section \<open>The entry\<close>

type_synonym bytes = "8 word list"

record Cache =
  Content :: bytes
  CreatedAt :: int
  ExpiresAt :: int
  XXX_unrecognized :: bytes

text \<open>
  What \<open>Merge\<close> can be handed: a nil interface, a \<open>*Cache\<close> (which may be nil), or a value of
  another type.
\<close>

datatype mergeable = NilMergeable | ACache "Cache option" | OtherType string

datatype merge_error = ExpectedCache string

text \<open>The local entry afterwards, and the change to pass on, if there is one.\<close>

definition Merge :: "Cache \<Rightarrow> mergeable \<Rightarrow> Cache \<times> (merge_error + Cache option)" where
  "Merge c mergeable =
     (case mergeable of
        NilMergeable \<Rightarrow> (c, Inr None)
      | OtherType t \<Rightarrow> (c, Inl (ExpectedCache t))
      | ACache None \<Rightarrow> (c, Inr None)
      | ACache (Some other) \<Rightarrow>
          (if CreatedAt other < CreatedAt c then (c, Inr None)
           else if CreatedAt other = CreatedAt c then (c, Inr None)
           else (other, Inr (Some other))))"

definition MergeContent :: "Cache \<Rightarrow> bytes list" where
  "MergeContent c = [Content c]"

definition RemoveTombstones :: "Cache \<Rightarrow> int \<Rightarrow> int \<times> int" where
  "RemoveTombstones c t = (0, 0)"

definition Clone :: "Cache \<Rightarrow> Cache" where
  "Clone c = c"

section \<open>Convergence\<close>

text \<open>Taking one gossiped entry in.\<close>

definition receive :: "Cache \<Rightarrow> Cache \<Rightarrow> Cache" where
  "receive other c = fst (Merge c (ACache (Some other)))"

lemma receive_eq: "receive other c = (if CreatedAt c < CreatedAt other then other else c)"
  by (auto simp: receive_def Merge_def)

interpretation gossip: order_free receive "\<lambda>c. c" receive "\<lambda>_. True" "\<lambda>d e. CreatedAt d \<noteq> CreatedAt e"
  by unfold_locales (auto simp: receive_eq)

lemma receive_newest:
  "fold receive us c \<in> insert c (set us) \<and> (\<forall>u \<in> insert c (set us). CreatedAt u \<le> CreatedAt (fold receive us c))"
proof (induction us arbitrary: c)
  case (Cons u us)
  from Cons [of "receive u c"] show ?case by (auto simp: receive_eq split: if_splits)
qed simp

text \<open>Replicas converge: whatever the order and however often the same entries reach a replica, if
  entries that differ have different creation times, it ends with the newest of them all, and an entry
  is passed on only when it replaced an older one, so gossip dies out.\<close>

theorem Merge_converges:
  assumes "mset us = mset vs" "\<forall>u \<in> set us. \<forall>v \<in> set us. u \<noteq> v \<longrightarrow> CreatedAt u \<noteq> CreatedAt v"
  shows "fold receive us c = fold receive vs c
    \<and> fold receive us c \<in> insert c (set us)
    \<and> (\<forall>u \<in> insert c (set us). CreatedAt u \<le> CreatedAt (fold receive us c))
    \<and> fold receive us (fold receive us c) = fold receive us c
    \<and> (\<forall>u \<in> set us. snd (Merge (fold receive us c) (ACache (Some u))) = Inr None)"
proof -
  have same: "fold receive us c = fold receive vs c"
    using assms mset_eq_setD [OF assms(1)] by (intro gossip.any_order) auto
  let ?r = "fold receive us c"
  have newest: "?r \<in> insert c (set us)" "\<forall>u \<in> insert c (set us). CreatedAt u \<le> CreatedAt ?r"
    using receive_newest by blast+
  have "fold receive ws ?r = ?r" if "set ws \<subseteq> set us" for ws
    using that newest(2) by (induction ws) (auto simp: receive_eq)
  then have "fold receive us ?r = ?r" by simp
  moreover have "\<forall>u \<in> set us. snd (Merge ?r (ACache (Some u))) = Inr None"
    using newest(2) by (auto simp: Merge_def)
  ultimately show ?thesis using same newest by blast
qed

theorem Merge_converges_witness:
  "fold receive [\<lparr>Content = [1], CreatedAt = 5, ExpiresAt = 9, XXX_unrecognized = []\<rparr>,
      \<lparr>Content = [2], CreatedAt = 7, ExpiresAt = 9, XXX_unrecognized = []\<rparr>]
      \<lparr>Content = [], CreatedAt = 0, ExpiresAt = 0, XXX_unrecognized = []\<rparr>
    = fold receive [\<lparr>Content = [2], CreatedAt = 7, ExpiresAt = 9, XXX_unrecognized = []\<rparr>,
      \<lparr>Content = [1], CreatedAt = 5, ExpiresAt = 9, XXX_unrecognized = []\<rparr>]
      \<lparr>Content = [], CreatedAt = 0, ExpiresAt = 0, XXX_unrecognized = []\<rparr>"
  using Merge_converges [of "[\<lparr>Content = [1], CreatedAt = 5, ExpiresAt = 9, XXX_unrecognized = []\<rparr>,
      \<lparr>Content = [2], CreatedAt = 7, ExpiresAt = 9, XXX_unrecognized = []\<rparr>]"
      "[\<lparr>Content = [2], CreatedAt = 7, ExpiresAt = 9, XXX_unrecognized = []\<rparr>,
      \<lparr>Content = [1], CreatedAt = 5, ExpiresAt = 9, XXX_unrecognized = []\<rparr>]"
      "\<lparr>Content = [], CreatedAt = 0, ExpiresAt = 0, XXX_unrecognized = []\<rparr>"]
  by simp

end
