(* ===== verification/Collector.thy ===== *)
theory Collector
  imports Labels MemCache ClusterCache Complex_Main
begin

text \<open>
  One scrape of a collector (\<open>Collect\<close> of host_collector.go and hostfact_collector.go, which
  share their structure): the leader check, the cached value, the scrape in a goroutine of its
  own, the race between its result, another running scrape and the deadline, and what is then
  exported. What the goroutine and the request see of each other is the argument \<open>race\<close>; the
  theory ScrapeLock derives it from the steps of the two.

  Parameters: the ring's answer, the clock, the zstd and JSON functions (\<open>codec\<close>), and which
  label sets the Prometheus client accepts (\<open>desc_ok\<close>; it panics on the others).
\<close>

section \<open>Configuration and environment\<close>

record cacheConfig =
  Enabled :: bool
  Compression :: bool
  ExpiresTTL :: int

record collector =
  CacheConfig :: cacheConfig
  ring_enabled :: bool
  Timeout :: rat
  TimeoutOffset :: rat
  PrometheusTimeout :: rat
  UseCache :: bool
  UseExpiredCache :: bool
  CacheOnPartial :: bool

record codec =
  zstd_encode :: "bytes \<Rightarrow> bytes"
  zstd_decode :: "bytes \<Rightarrow> bytes option"
  json_marshal :: "labels list \<Rightarrow> bytes"
  json_unmarshal :: "bytes \<Rightarrow> labels list option"

record env =
  now :: int
  leader :: "string + bool"
  kv_entry :: "Cache option"
  local_cache :: "labels list MemCache"

text \<open>What is sent to the metrics channel. The gauges are 1 (true) or 0.\<close>

datatype sample =
    Info labels
  | ScrapeError bool
  | ScrapeTimeout bool
  | ExpiredCache bool
  | InflightBlocking bool

text \<open>The gauge that a sample is: its name, its labels and its value, for each of the two collectors.\<close>

definition host_metric :: "sample \<Rightarrow> string \<times> labels \<times> int" where
  "host_metric s =
     (case s of
        Info labels \<Rightarrow> (''foreman_exporter_host_status_info'', labels, 1)
      | ScrapeError b \<Rightarrow> (''foreman_exporter_host_scrape_error'', [], of_bool b)
      | ScrapeTimeout b \<Rightarrow> (''foreman_exporter_host_scrape_timeout'', [], of_bool b)
      | ExpiredCache b \<Rightarrow> (''foreman_exporter_host_use_expired_cache'', [], of_bool b)
      | InflightBlocking b \<Rightarrow> (''foreman_exporter_host_inflight_blocking_request'', [], of_bool b))"

definition host_fact_metric :: "sample \<Rightarrow> string \<times> labels \<times> int" where
  "host_fact_metric s =
     (case s of
        Info labels \<Rightarrow> (''foreman_exporter_host_facts_info'', labels, 1)
      | ScrapeError b \<Rightarrow> (''foreman_exporter_host_facts_scrape_error'', [], of_bool b)
      | ScrapeTimeout b \<Rightarrow> (''foreman_exporter_host_facts_scrape_timeout'', [], of_bool b)
      | ExpiredCache b \<Rightarrow> (''foreman_exporter_host_facts_use_expired_cache'', [], of_bool b)
      | InflightBlocking b \<Rightarrow> (''foreman_exporter_host_facts_inflight_blocking_request'', [], of_bool b))"

section \<open>The cached value\<close>

text \<open>Either the request ends here with these samples, or: found, expired, and the cached data.\<close>

definition read_kv :: "collector \<Rightarrow> codec \<Rightarrow> env \<Rightarrow> sample list + (bool \<times> bool \<times> labels list)" where
  "read_kv c cd e =
     (case kv_entry e of
        None \<Rightarrow> Inr (False, False, [])
      | Some cached \<Rightarrow>
          (let expired = now e > ExpiresAt cached
           in case (if Compression (CacheConfig c) then zstd_decode cd (Content cached) else Some (Content cached)) of
                None \<Rightarrow> Inl [ScrapeError True]
              | Some content \<Rightarrow>
                  (case json_unmarshal cd content of
                     None \<Rightarrow> Inl [ScrapeError True]
                   | Some data \<Rightarrow> Inr (\<not> expired, expired, data))))"

definition read_local :: "string \<Rightarrow> env \<Rightarrow> bool \<times> bool \<times> labels list" where
  "read_local key e =
     (case Get (local_cache e) key of
        None \<Rightarrow> (False, False, [])
      | Some cached \<Rightarrow> (let expired = now e > ValueExpiresAt cached in (\<not> expired, expired, Value cached)))"

definition read_cache :: "string \<Rightarrow> collector \<Rightarrow> codec \<Rightarrow> env \<Rightarrow> sample list + (bool \<times> bool \<times> labels list)" where
  "read_cache key c cd e =
     (if ring_enabled c \<and> UseCache c
      then (case leader e of
              Inl _ \<Rightarrow> Inl []
            | Inr isLeaderNow \<Rightarrow>
                (if \<not> isLeaderNow then Inl []
                 else if Enabled (CacheConfig c) then read_kv c cd e
                 else Inr (False, False, [])))
      else if Enabled (CacheConfig c) \<and> UseCache c then Inr (read_local key e)
      else Inr (False, False, []))"

section \<open>The scrape\<close>

text \<open>The deadline, in nanoseconds (exact, where the code multiplies floats).\<close>

definition deadline :: "collector \<Rightarrow> int" where
  "deadline c =
     (let timeout = (if PrometheusTimeout c \<noteq> 0 then PrometheusTimeout c else Timeout c) - TimeoutOffset c;
          ns = timeout * 1000000000
      in if 0 \<le> ns then \<lfloor>ns\<rfloor> else \<lceil>ns\<rceil>)"

datatype cache_update = KVNotify Cache | LocalSet string "labels list" int

definition updateKV :: "collector \<Rightarrow> env \<Rightarrow> bytes \<Rightarrow> cache_update" where
  "updateKV c e content =
     KVNotify \<lparr>Content = content, CreatedAt = now e, ExpiresAt = now e + ExpiresTTL (CacheConfig c),
               XXX_unrecognized = []\<rparr>"

definition update_cache :: "string \<Rightarrow> collector \<Rightarrow> codec \<Rightarrow> env \<Rightarrow> labels list \<Rightarrow> cache_update" where
  "update_cache key c cd e hostsData =
     (if ring_enabled c
      then (let content = json_marshal cd hostsData
            in updateKV c e (if Compression (CacheConfig c) then zstd_encode cd content else content))
      else LocalSet key hostsData (ExpiresTTL (CacheConfig c)))"

text \<open>What the goroutine makes of the client's answer: the data, whether it failed, and the cache update.\<close>

definition hostsKey :: string where "hostsKey = ''collectors/host''"
definition hostsFactsKey :: string where "hostsFactsKey = ''collectors/host-fact''"

definition host_scrape :: "collector \<Rightarrow> regex \<Rightarrow> regex \<Rightarrow> codec \<Rightarrow> env \<Rightarrow> Host list \<times> go_error option
    \<Rightarrow> labels list \<times> bool \<times> cache_update option" where
  "host_scrape c inc exc cd e answer =
     (let hostsData = map (\<lambda>h. filter_host_labels inc exc (host_labels h)) (fst answer);
          failed = (snd answer \<noteq> None)
      in (hostsData, failed,
          if Enabled (CacheConfig c) \<and> \<not> failed \<and> hostsData \<noteq> []
          then Some (update_cache hostsKey c cd e hostsData) else None))"

definition fact_scrape :: "collector \<Rightarrow> codec \<Rightarrow> env \<Rightarrow> hosts_facts \<times> go_error option
    \<Rightarrow> labels list \<times> bool \<times> cache_update option" where
  "fact_scrape c cd e answer =
     (let hostsData = map (\<lambda>(host, facts). fact_labels host facts) (fst answer);
          failed = (snd answer \<noteq> None)
      in (hostsData, failed,
          if Enabled (CacheConfig c) \<and> hostsData \<noteq> [] \<and> (\<not> failed \<or> CacheOnPartial c)
          then Some (update_cache hostsFactsKey c cd e hostsData) else None))"

section \<open>The answer\<close>

text \<open>
  What the request sees: the scrape finished; another one is running; or the deadline passed,
  by when the goroutine had or had not recorded a failure and had sent at most one sample.
\<close>

datatype race = Finished | Blocked | Deadline bool "bool option"

text \<open>The data to export, the value of the timeout gauge, and whether the data come from the scrape.\<close>

definition race_data :: "labels list \<Rightarrow> labels list \<Rightarrow> race \<Rightarrow> labels list \<times> bool \<times> bool" where
  "race_data cached scraped race =
     (case race of
        Finished \<Rightarrow> if scraped \<noteq> [] then (scraped, False, True) else (cached, False, False)
      | Blocked \<Rightarrow> (cached, False, False)
      | Deadline _ _ \<Rightarrow> (cached, True, False))"

definition race_error :: "bool \<Rightarrow> race \<Rightarrow> bool" where
  "race_error failed race =
     (case race of Finished \<Rightarrow> failed | Blocked \<Rightarrow> False | Deadline seen _ \<Rightarrow> seen \<and> failed)"

definition race_samples :: "bool \<Rightarrow> race \<Rightarrow> sample list" where
  "race_samples collectorsLock race =
     (if collectorsLock
      then (case race of
              Finished \<Rightarrow> [InflightBlocking False]
            | Blocked \<Rightarrow> [InflightBlocking True]
            | Deadline _ sent \<Rightarrow> (case sent of None \<Rightarrow> [] | Some b \<Rightarrow> [InflightBlocking b]))
      else [])"

text \<open>The fallback to the cached value, and the metrics.\<close>

definition respond :: "collector \<Rightarrow> labels list \<times> bool \<times> bool \<Rightarrow> bool \<Rightarrow> sample list" where
  "respond c d errVal =
     (case d of (data, scrapeTimeout, servedFromScrape) \<Rightarrow>
        (case (if \<not> servedFromScrape \<and> (errVal \<or> scrapeTimeout)
               then (if Enabled (CacheConfig c) \<and> UseExpiredCache c \<and> data \<noteq> [] then (data, True)
                     else if data \<noteq> [] then ([], False)
                     else (data, False))
               else (data, False)) of
           (data, expiredCache) \<Rightarrow>
             map Info data @ [ScrapeError errVal, ScrapeTimeout scrapeTimeout]
             @ (if Enabled (CacheConfig c) then [ExpiredCache expiredCache] else [])))"

text \<open>\<open>MustNewConstMetric\<close> panics on labels that the Prometheus client refuses.\<close>

definition emit :: "(labels \<Rightarrow> bool) \<Rightarrow> sample list \<Rightarrow> sample list outcome" where
  "emit desc_ok samples =
     (if list_all (\<lambda>s. case s of Info l \<Rightarrow> desc_ok l | _ \<Rightarrow> True) samples then Returns samples
      else Panics InvalidMetric)"

definition collect :: "(labels \<Rightarrow> bool) \<Rightarrow> bool \<Rightarrow> string \<Rightarrow> collector \<Rightarrow> codec \<Rightarrow> env
    \<Rightarrow> labels list \<times> bool \<times> cache_update option \<Rightarrow> race \<Rightarrow> sample list outcome" where
  "collect desc_ok collectorsLock key c cd e scrape race =
     (case read_cache key c cd e of
        Inl samples \<Rightarrow> Returns samples
      | Inr (found, expired, data) \<Rightarrow>
          (if \<not> found \<or> expired
           then (let (scraped, failed, _) = scrape
                 in emit desc_ok (race_samples collectorsLock race
                      @ respond c (race_data data scraped race) (race_error failed race)))
           else emit desc_ok (respond c (data, False, False) False)))"

text \<open>The two collectors, given what the client returns.\<close>

definition HostCollector_Collect :: "(labels \<Rightarrow> bool) \<Rightarrow> bool \<Rightarrow> collector \<Rightarrow> regex \<Rightarrow> regex \<Rightarrow> codec \<Rightarrow> env
    \<Rightarrow> Host list \<times> go_error option \<Rightarrow> race \<Rightarrow> sample list outcome" where
  "HostCollector_Collect desc_ok collectorsLock c inc exc cd e answer race =
     collect desc_ok collectorsLock hostsKey c cd e (host_scrape c inc exc cd e answer) race"

definition HostFactCollector_Collect :: "(labels \<Rightarrow> bool) \<Rightarrow> bool \<Rightarrow> collector \<Rightarrow> codec \<Rightarrow> env
    \<Rightarrow> hosts_facts \<times> go_error option \<Rightarrow> race \<Rightarrow> sample list outcome" where
  "HostFactCollector_Collect desc_ok collectorsLock c cd e answer race =
     collect desc_ok collectorsLock hostsFactsKey c cd e (fact_scrape c cd e answer) race"

section \<open>What is served\<close>

lemma collect_scrape:
  assumes "read_cache key c cd e = Inr (found, expired, data)" "\<not> found \<or> expired"
  shows "collect desc_ok lk key c cd e (scraped, failed, upd) race
    = emit desc_ok (race_samples lk race @ respond c (race_data data scraped race) (race_error failed race))"
  using assms by (auto simp: collect_def)

lemma all_infos:
  "list_all (\<lambda>s. case s of Info l \<Rightarrow> desc_ok l | _ \<Rightarrow> True) samples \<longleftrightarrow> (\<forall>l. Info l \<in> set samples \<longrightarrow> desc_ok l)"
proof -
  have "(case s of Info l \<Rightarrow> desc_ok l | _ \<Rightarrow> True) \<longleftrightarrow> (\<forall>l. s = Info l \<longrightarrow> desc_ok l)" for s
    by (cases s) auto
  then show ?thesis by (auto simp: list_all_iff)
qed

lemma emit_Returns: "emit desc_ok samples = Returns out \<longleftrightarrow> out = samples \<and> (\<forall>l. Info l \<in> set samples \<longrightarrow> desc_ok l)"
  by (auto simp: emit_def all_infos)

lemma emit_Panics: "emit desc_ok samples = Panics p \<longleftrightarrow> p = InvalidMetric \<and> (\<exists>l. Info l \<in> set samples \<and> \<not> desc_ok l)"
  by (auto simp: emit_def all_infos)

text \<open>The three ways to answer: with the scrape, with the cached value, or after a failure.\<close>

lemma respond_cases:
  "respond c (data, t, True) err = map Info data @ [ScrapeError err, ScrapeTimeout t]
      @ (if Enabled (CacheConfig c) then [ExpiredCache False] else [])"
  "\<not> err \<Longrightarrow> respond c (data, False, False) err = map Info data @ [ScrapeError err, ScrapeTimeout False]
      @ (if Enabled (CacheConfig c) then [ExpiredCache False] else [])"
  "err \<or> t \<Longrightarrow> respond c (data, t, False) err =
      (if Enabled (CacheConfig c) \<and> UseExpiredCache c \<and> data \<noteq> []
       then map Info data @ [ScrapeError err, ScrapeTimeout t, ExpiredCache True]
       else [ScrapeError err, ScrapeTimeout t] @ (if Enabled (CacheConfig c) then [ExpiredCache False] else []))"
  by (auto simp: respond_def)

lemma Info_race_samples [simp]: "Info l \<notin> set (race_samples lk race)"
  by (auto simp: race_samples_def split: race.splits option.splits)

text \<open>
  Prometheus rejects a scrape in which a gauge appears twice. A request sends each gauge of its
  own at most once, so that only two hosts with the same labels could collide.
\<close>

definition gauge_id :: "string \<times> labels \<times> int \<Rightarrow> string \<times> labels" where
  "gauge_id m = (fst m, fst (snd m))"

lemma gauge_ids:
  "gauge_id (host_metric s) = gauge_id (host_metric t) \<longleftrightarrow> gauge_id (host_fact_metric s) = gauge_id (host_fact_metric t)"
  "gauge_id (host_metric s) = gauge_id (host_metric t) \<longleftrightarrow>
    (case (s, t) of (Info l, Info l') \<Rightarrow> l = l' | (ScrapeError _, ScrapeError _) \<Rightarrow> True
       | (ScrapeTimeout _, ScrapeTimeout _) \<Rightarrow> True | (ExpiredCache _, ExpiredCache _) \<Rightarrow> True
       | (InflightBlocking _, InflightBlocking _) \<Rightarrow> True | _ \<Rightarrow> False)"
  by (cases s; cases t; simp add: gauge_id_def host_metric_def host_fact_metric_def)+

lemma not_leader_nothing:
  assumes "ring_enabled c" "UseCache c" "leader e \<noteq> Inr True"
  shows "HostCollector_Collect desc_ok lk c inc exc cd e answer race = Returns []
    \<and> HostFactCollector_Collect desc_ok lk c cd e answer' race = Returns []"
proof -
  have "read_cache key c cd e = Inl []" for key
    using assms by (cases "leader e") (auto simp: read_cache_def)
  then show ?thesis by (simp add: HostCollector_Collect_def HostFactCollector_Collect_def collect_def)
qed

text \<open>A follower is silent: in ring mode, a request that may use the cache exports nothing at all unless the
  ring says that this replica is the leader, whatever is cached and whatever a scrape would bring.\<close>

theorem follower_is_silent:
  assumes "ring_enabled c" "UseCache c" "leader e \<noteq> Inr True"
  shows "HostCollector_Collect desc_ok lk c inc exc cd e answer race = Returns []
    \<and> HostFactCollector_Collect desc_ok lk c cd e answer' race = Returns []"
  by (rule not_leader_nothing [OF assms])

text \<open>A collector and an environment with nothing cached, for examples.\<close>

definition example_collector :: collector where
  "example_collector = \<lparr>CacheConfig = \<lparr>Enabled = True, Compression = False, ExpiresTTL = 100\<rparr>, ring_enabled = False,
     Timeout = 60, TimeoutOffset = 1 / 2, PrometheusTimeout = 0, UseCache = True, UseExpiredCache = False,
     CacheOnPartial = False\<rparr>"

definition example_codec :: codec where
  "example_codec = \<lparr>zstd_encode = (\<lambda>b. b), zstd_decode = Some, json_marshal = (\<lambda>d. [of_nat (length d)]),
     json_unmarshal = (\<lambda>b. None)\<rparr>"

definition example_env :: env where
  "example_env = \<lparr>now = 1000, leader = Inr False, kv_entry = None,
     local_cache = Set 0 hostsFactsKey [[(''name'', ''old'')]] 100 NewLocalCache\<rparr>"

lemma example_read:
  "read_cache hostsFactsKey example_collector cd example_env = Inr (False, True, [[(''name'', ''old'')]])"
  by (simp add: read_cache_def example_collector_def example_env_def read_local_def Set_def Get_def NewLocalCache_def)

theorem follower_is_silent_witness:
  "HostFactCollector_Collect (\<lambda>_. True) True (example_collector\<lparr>ring_enabled := True\<rparr>) example_codec example_env
     ([(''web1'', [])], None) Finished = Returns []"
  using follower_is_silent [of "example_collector\<lparr>ring_enabled := True\<rparr>" example_env "\<lambda>_. True" True None None example_codec
      "([], None)" Finished "([(''web1'', [])], None)"]
  by (simp add: example_collector_def example_env_def)

text \<open>C18: When a scrape fails or times out, an expired value is exported only if the request allows it, and then
  the gauge of the expired cache says so; otherwise whatever is exported is what this scrape brought.\<close>

theorem expired_only_when_allowed:
  assumes "read_cache key c cd e = Inr (found, True, data)"
    and "collect desc_ok lk key c cd e (scraped, failed, upd) race = Returns samples"
    and "(race = Finished \<and> (failed \<or> scraped \<noteq> [])) \<or> (\<exists>seen sent. race = Deadline seen sent)"
    and "Info l \<in> set samples"
  shows "race = Finished \<and> l \<in> set scraped
    \<or> l \<in> set data \<and> Enabled (CacheConfig c) \<and> UseExpiredCache c \<and> ExpiredCache True \<in> set samples"
proof -
  have "samples = race_samples lk race @ respond c (race_data data scraped race) (race_error failed race)"
    using assms(2) unfolding collect_scrape [OF assms(1) disjI2, OF TrueI] emit_Returns by simp
  then have info: "Info l \<in> set (respond c (race_data data scraped race) (race_error failed race))"
    and sub: "set (respond c (race_data data scraped race) (race_error failed race)) \<subseteq> set samples"
    using assms(4) by auto
  show ?thesis
  proof (cases "race = Finished \<and> scraped \<noteq> []")
    case True
    with info show ?thesis by (auto simp: race_data_def race_error_def respond_cases split: if_splits)
  next
    case False
    then have "\<exists>t. race_data data scraped race = (data, t, False) \<and> (race_error failed race \<or> t)"
      using assms(3) by (auto simp: race_data_def race_error_def)
    with info sub show ?thesis by (auto simp: respond_cases split: if_splits)
  qed
qed

theorem expired_only_when_allowed_witness:
  "\<exists>samples. HostFactCollector_Collect (\<lambda>_. True) True (example_collector\<lparr>UseExpiredCache := True\<rparr>) example_codec example_env
      ([], Some JsonError) Finished = Returns samples
    \<and> Info [(''name'', ''old'')] \<in> set samples \<and> ExpiredCache True \<in> set samples"
proof -
  let ?c = "example_collector\<lparr>UseExpiredCache := True\<rparr>"
  have read: "read_cache hostsFactsKey ?c example_codec example_env = Inr (False, True, [[(''name'', ''old'')]])"
    by (simp add: read_cache_def example_collector_def example_env_def read_local_def Set_def Get_def NewLocalCache_def)
  let ?s = "[InflightBlocking False, Info [(''name'', ''old'')], ScrapeError True, ScrapeTimeout False, ExpiredCache True]"
  have run: "collect (\<lambda>_. True) True hostsFactsKey ?c example_codec example_env ([], True, None) Finished = Returns ?s"
    by (simp add: collect_def read emit_def race_samples_def race_data_def race_error_def respond_def)
      (simp add: example_collector_def)
  have "ExpiredCache True \<in> set ?s"
    using expired_only_when_allowed [OF read run, of "[(''name'', ''old'')]"] by auto
  then show ?thesis
    using run by (auto simp: HostFactCollector_Collect_def fact_scrape_def)
qed

text \<open>C34: When another scrape is running, or when the scrape brought no host and no error, an expired value is
  exported whether or not the request allows it, and every gauge says that all is well.\<close>

theorem expired_served_unannounced:
  assumes "read_cache key c cd e = Inr (found, True, data)" "Enabled (CacheConfig c)"
    and "race = Blocked \<or> race = Finished \<and> scraped = [] \<and> \<not> failed" "\<forall>l \<in> set data. desc_ok l"
  shows "collect desc_ok lk key c cd e (scraped, failed, upd) race
    = Returns (race_samples lk race @ map Info data @ [ScrapeError False, ScrapeTimeout False, ExpiredCache False])"
proof -
  have "respond c (race_data data scraped race) (race_error failed race)
      = map Info data @ [ScrapeError False, ScrapeTimeout False, ExpiredCache False]"
    using assms(2,3) by (auto simp: race_data_def race_error_def respond_cases)
  then show ?thesis
    using assms(4) unfolding collect_scrape [OF assms(1) disjI2, OF TrueI] emit_Returns by auto
qed

theorem expired_served_unannounced_witness:
  "HostFactCollector_Collect (\<lambda>_. True) True example_collector example_codec example_env ([], Some JsonError) Blocked
    = Returns [InflightBlocking True, Info [(''name'', ''old'')], ScrapeError False, ScrapeTimeout False, ExpiredCache False]
   \<and> \<not> UseExpiredCache example_collector"
proof -
  have "Enabled (CacheConfig example_collector)" "\<not> UseExpiredCache example_collector"
    by (simp_all add: example_collector_def)
  with expired_served_unannounced [OF example_read [of example_codec], of Blocked "[]" True "\<lambda>_. True" True None]
  show ?thesis by (simp add: HostFactCollector_Collect_def fact_scrape_def race_samples_def)
qed

section \<open>What is cached\<close>

text \<open>
  The environment after an update: the ring's entry is merged into the local one, the local
  cache is set.
\<close>

definition apply_update :: "cache_update \<Rightarrow> env \<Rightarrow> env" where
  "apply_update u e =
     (case u of
        KVNotify new \<Rightarrow> e\<lparr>kv_entry := Some (case kv_entry e of None \<Rightarrow> new | Some old \<Rightarrow> receive new old)\<rparr>
      | LocalSet key d ttl \<Rightarrow> e\<lparr>local_cache := Set (now e) key d ttl (local_cache e)\<rparr>)"

text \<open>What the codecs promise.\<close>

definition codec_ok :: "codec \<Rightarrow> labels list \<Rightarrow> bool" where
  "codec_ok cd d \<longleftrightarrow> json_unmarshal cd (json_marshal cd d) = Some d
     \<and> zstd_decode cd (zstd_encode cd (json_marshal cd d)) = Some (json_marshal cd d)"

text \<open>What a scrape caches is what a later request reads, in both modes, with or without compression:
  it is found until its time to live is over, and expired from then on. (In ring mode, provided that
  the entry it replaces was created before.)\<close>

theorem cached_value_read_back:
  assumes "Enabled (CacheConfig c)" "UseCache c" "leader e = Inr True" "codec_ok cd d"
    and "\<And>old. kv_entry e = Some old \<Longrightarrow> CreatedAt old < now e"
  shows "read_cache key c cd ((apply_update (update_cache key c cd e d) e)\<lparr>now := t\<rparr>)
    = Inr (t \<le> now e + ExpiresTTL (CacheConfig c), t > now e + ExpiresTTL (CacheConfig c), d)"
proof (cases "ring_enabled c")
  case True
  let ?content = "if Compression (CacheConfig c) then zstd_encode cd (json_marshal cd d) else json_marshal cd d"
  let ?new = "\<lparr>Content = ?content, CreatedAt = now e, ExpiresAt = now e + ExpiresTTL (CacheConfig c), XXX_unrecognized = []\<rparr>"
  have "update_cache key c cd e d = KVNotify ?new"
    using True by (simp add: update_cache_def updateKV_def Let_def)
  moreover have "(case kv_entry e of None \<Rightarrow> ?new | Some old \<Rightarrow> receive ?new old) = ?new"
    using assms(5) by (auto simp: receive_eq split: option.splits)
  ultimately have "kv_entry (apply_update (update_cache key c cd e d) e) = Some ?new"
    "leader (apply_update (update_cache key c cd e d) e) = Inr True"
    using assms(3) by (simp_all add: apply_update_def)
  then show ?thesis
    using True assms(1,2,4) by (auto simp: read_cache_def read_kv_def codec_ok_def Let_def)
next
  case False
  then show ?thesis
    using assms(1,2)
    by (auto simp: read_cache_def update_cache_def apply_update_def read_local_def Let_def Set_def Get_def)
qed

theorem cached_value_read_back_witness:
  "read_cache hostsKey (example_collector\<lparr>ring_enabled := True\<rparr>) (example_codec\<lparr>json_unmarshal := \<lambda>b. Some [[(''name'', ''a'')]]\<rparr>)
     ((apply_update (update_cache hostsKey (example_collector\<lparr>ring_enabled := True\<rparr>)
         (example_codec\<lparr>json_unmarshal := \<lambda>b. Some [[(''name'', ''a'')]]\<rparr>) (example_env\<lparr>leader := Inr True\<rparr>)
         [[(''name'', ''a'')]]) (example_env\<lparr>leader := Inr True\<rparr>))\<lparr>now := 1050\<rparr>)
   = Inr (True, False, [[(''name'', ''a'')]])"
  by (subst cached_value_read_back)
    (simp_all add: example_collector_def example_codec_def example_env_def codec_ok_def)

section \<open>Labels that Prometheus refuses\<close>

text \<open>
  Prometheus reserves label names that start with two underscores, and its client refuses them. Names of
  the form of \<open>label_name_ok\<close> that are not reserved are valid in every version of the client; some
  versions accept more (any UTF-8), so this is a condition under which labels are accepted, not when
  they are.
\<close>

definition reserved :: "string \<Rightarrow> bool" where
  "reserved l \<longleftrightarrow> take 2 l = ''__''"

definition names_accepted :: "labels \<Rightarrow> bool" where
  "names_accepted l \<longleftrightarrow> list_all (\<lambda>(n, _). label_name_ok n \<and> \<not> reserved n) l"

lemma store_label_in: "label_name_ok (sanitize (fst e)) \<Longrightarrow> sanitize (fst e) \<in> fst ` set (store_label e acc)"
  by (simp only: store_label_names if_True) simp

lemma fact_label_present:
  "(k, v) \<in> set facts \<Longrightarrow> label_name_ok (sanitize k) \<Longrightarrow> sanitize k \<in> fst ` set (fact_labels host facts)"
proof (induction facts rule: rev_induct)
  case (snoc e facts)
  then show ?case
    unfolding fact_labels_snoc store_label_names by (cases "e = (k, v)") auto
qed simp

text \<open>C35: A fact whose name gives a label that starts with two underscores passes the collector's own check of
  label names, but the Prometheus client refuses it, and the scrape panics instead of leaving it out.\<close>

theorem reserved_fact_panics:
  assumes "\<And>l n v. desc_ok l \<Longrightarrow> (n, v) \<in> set l \<Longrightarrow> \<not> reserved n"
    and "read_cache hostsFactsKey c cd e = Inr (found, expired, data)" "\<not> found \<or> expired"
    and "(host, facts) \<in> set F" "(k, v) \<in> set facts" "label_name_ok (sanitize k)" "reserved (sanitize k)"
  shows "HostFactCollector_Collect desc_ok lk c cd e (F, err) Finished = Panics InvalidMetric"
proof -
  let ?data = "map (\<lambda>(host, facts). fact_labels host facts) F"
  have bad: "fact_labels host facts \<in> set ?data" using assms(4) by force
  have "sanitize k \<in> fst ` set (fact_labels host facts)" using assms(5,6) by (rule fact_label_present)
  then have "\<not> desc_ok (fact_labels host facts)" using assms(1) [of "fact_labels host facts"] assms(7) by force
  moreover have "Info (fact_labels host facts) \<in> set (race_samples lk Finished @
      respond c (race_data data ?data Finished) (race_error (err \<noteq> None) Finished))"
  proof -
    have "race_data data ?data Finished = (?data, False, True)"
      using bad by (auto simp: race_data_def)
    then show ?thesis
      using imageI [OF bad, of Info] by (simp only: respond_cases set_append set_map Un_iff simp_thms)
  qed
  ultimately have "emit desc_ok (race_samples lk Finished @
      respond c (race_data data ?data Finished) (race_error (err \<noteq> None) Finished)) = Panics InvalidMetric"
    unfolding emit_Panics by blast
  then show ?thesis
    unfolding HostFactCollector_Collect_def fact_scrape_def Let_def fst_conv snd_conv
    by (simp only: collect_scrape [OF assms(2,3)])
qed

theorem reserved_fact_panics_witness:
  "HostFactCollector_Collect (\<lambda>l. \<forall>n \<in> fst ` set l. \<not> reserved n) True example_collector example_codec example_env
     ([(''web1'', [(''::-x'', ''1'')])], None) Finished = Panics InvalidMetric"
proof (rule reserved_fact_panics [OF _ example_read, where host = "''web1''" and facts = "[(''::-x'', ''1'')]" and k = "''::-x''" and v = "''1''"])
  show "\<not> reserved n" if "\<forall>n \<in> fst ` set l. \<not> reserved n" "(n, v) \<in> set l" for l :: labels and n v
    using that by force
qed (simp_all add: sanitize_char_def label_name_ok_def is_letter_def reserved_def)

section \<open>One sample of each gauge\<close>

lemma respond_shape:
  "\<exists>data' x. respond c (data, t, fresh) err = map Info data' @ [ScrapeError err, ScrapeTimeout t]
      @ (if Enabled (CacheConfig c) then [ExpiredCache x] else []) \<and> (data' = data \<or> data' = [])"
  unfolding respond_def by (auto split: if_splits prod.splits)

lemma race_samples_short: "\<exists>sent. race_samples lk race = map InflightBlocking sent \<and> length sent \<le> 1"
  by (rule exI [of _ "if lk then (case race of Finished \<Rightarrow> [False] | Blocked \<Rightarrow> [True]
      | Deadline _ None \<Rightarrow> [] | Deadline _ (Some b) \<Rightarrow> [b]) else []"])
    (simp add: race_samples_def split: race.split option.split)

lemma gauges_distinct:
  assumes "distinct data"
  shows "distinct (map (\<lambda>s. gauge_id (host_metric s)) (race_samples lk race @ respond c (data, t, fresh) err))"
proof -
  obtain sent where sent: "race_samples lk race = map InflightBlocking sent" "length sent \<le> 1"
    using race_samples_short by blast
  obtain data' x where r: "respond c (data, t, fresh) err = map Info data' @ [ScrapeError err, ScrapeTimeout t]
      @ (if Enabled (CacheConfig c) then [ExpiredCache x] else [])" "data' = data \<or> data' = []"
    using respond_shape by blast
  then have "distinct data'" using assms by auto
  moreover have "sent = [] \<or> (\<exists>b. sent = [b])"
    using sent(2) by (cases sent) auto
  ultimately show ?thesis
    unfolding sent(1) r(1) by (auto simp: gauge_id_def host_metric_def distinct_map inj_on_def)
qed
lemma host_data_distinct:
  assumes "distinct (map Name hosts)"
  shows "distinct (map (\<lambda>h. filter_host_labels inc exc (host_labels h)) hosts)"
proof -
  have "map_of (filter_host_labels inc exc (host_labels h)) ''name'' = Some (Name h)" for h
    by (simp add: host_label_filter.flt_lookup wf_host_labels) (simp add: host_labels_def label_kept_def)
  then have "inj_on (\<lambda>h. filter_host_labels inc exc (host_labels h)) (set hosts)"
    using assms by (metis (no_types, lifting) distinct_map inj_onD inj_onI option.inject)
  then show ?thesis using assms by (simp add: distinct_map)
qed

text \<open>A scrape of the host collector never sends two samples of the same gauge with the same labels, which
  Prometheus would answer by rejecting the whole scrape, as long as foreman lists no two hosts of the
  same name and nothing of the kind was cached.\<close>

theorem no_gauge_sent_twice:
  assumes "HostCollector_Collect desc_ok lk c inc exc cd e (hosts, err) race = Returns samples"
    and "distinct (map Name hosts)"
    and "\<And>found expired data. read_cache hostsKey c cd e = Inr (found, expired, data) \<Longrightarrow> distinct data"
  shows "distinct (map (\<lambda>s. gauge_id (host_metric s)) samples)"
proof (cases "read_cache hostsKey c cd e")
  case (Inl out)
  then have "samples = out" using assms(1) by (simp add: HostCollector_Collect_def collect_def)
  moreover have "out = [] \<or> out = [ScrapeError True]"
    using Inl by (auto simp: read_cache_def read_kv_def Let_def split: if_splits sum.splits option.splits)
  ultimately show ?thesis by auto
next
  case (Inr r)
  obtain found expired data where r: "r = (found, expired, data)" by (cases r)
  with Inr assms(3) have cached: "distinct data" by blast
  let ?scraped = "map (\<lambda>h. filter_host_labels inc exc (host_labels h)) hosts"
  have run: "HostCollector_Collect desc_ok lk c inc exc cd e (hosts, err) race =
      (if \<not> found \<or> expired then emit desc_ok (race_samples lk race
         @ respond c (race_data data ?scraped race) (race_error (err \<noteq> None) race))
       else emit desc_ok (respond c (data, False, False) False))"
    by (simp add: HostCollector_Collect_def collect_def Inr r host_scrape_def Let_def)
  obtain data' t fresh where d: "race_data data ?scraped race = (data', t, fresh)" by (cases "race_data data ?scraped race")
  then have "distinct data'"
    using cached host_data_distinct [OF assms(2)] by (auto simp: race_data_def split: race.splits if_splits)
  have "distinct (map (\<lambda>s. gauge_id (host_metric s)) (respond c (data, False, False) False))"
    using gauges_distinct [OF cached, of False] by (simp add: race_samples_def)
  with gauges_distinct [OF \<open>distinct data'\<close>] assms(1)
  show ?thesis unfolding run d by (auto simp: emit_Returns simp del: map_append split: if_splits)
qed

theorem no_gauge_sent_twice_witness:
  "distinct (map (\<lambda>s. gauge_id (host_metric s))
     [Info [(''name'', ''a'')], ScrapeError False, ScrapeTimeout False, ExpiredCache False])"
proof (rule no_gauge_sent_twice)
  let ?e = "example_env\<lparr>local_cache := Set 950 hostsKey [[(''name'', ''a'')]] 100 NewLocalCache\<rparr>"
  have read: "read_cache hostsKey example_collector example_codec ?e = Inr (True, False, [[(''name'', ''a'')]])"
    by (simp add: read_cache_def example_collector_def example_env_def read_local_def Set_def Get_def NewLocalCache_def)
  then show "distinct data" if "read_cache hostsKey example_collector example_codec ?e = Inr (found, expired, data)"
    for found expired data using that by simp
  show "HostCollector_Collect (\<lambda>_. True) True example_collector None None example_codec ?e ([], None) Finished
    = Returns [Info [(''name'', ''a'')], ScrapeError False, ScrapeTimeout False, ExpiredCache False]"
    by (simp add: HostCollector_Collect_def collect_def read emit_def respond_def) (simp add: example_collector_def)
qed simp

end
