(* ===== verification/ScrapeLock.thy ===== *)
theory ScrapeLock
  imports Collector
begin

text \<open>
  Concurrent scrapes of one collector (the goroutine and the \<open>select\<close> of \<open>Collect\<close> in
  host_collector.go and hostfact_collector.go) as a step relation: any number of requests, each with
  its goroutine, share the lock that \<open>--collector.lock-concurrent-requests\<close> turns on.
\<close>

section \<open>States\<close>

text \<open>
  A goroutine starts; takes the lock or is rejected because another holds it; has the client's
  answer and records whether it failed; updates the cache and hands its result over; and
  ends, releasing the lock.
\<close>

datatype pc = Starting | Rejected | Scraping | Scraped | Published | Ended

text \<open>\<open>ch_closed\<close>: the registry has closed the request's metrics channel, some time after \<open>Collect\<close> returned.\<close>

record call =
  scraper :: pc
  answered :: "race option"
  ch_closed :: bool

text \<open>
  \<open>late_send\<close>: a goroutine sent to the metrics channel of a request that had returned. \<open>crashed\<close>: it was
  closed by then; a send on a closed channel panics, in a goroutine that nobody recovers, so the
  process ends.
\<close>

record scrapes =
  calls :: "call list"
  holder :: "nat option"
  late_send :: bool
  crashed :: bool

definition init_scrapes :: "nat \<Rightarrow> scrapes" where
  "init_scrapes n =
     \<lparr>calls = replicate n \<lparr>scraper = Starting, answered = None, ch_closed = False\<rparr>, holder = None,
      late_send = False, crashed = False\<rparr>"

definition set_pc :: "nat \<Rightarrow> pc \<Rightarrow> scrapes \<Rightarrow> scrapes" where
  "set_pc i p s = s\<lparr>calls := (calls s)[i := (calls s ! i)\<lparr>scraper := p\<rparr>]\<rparr>"

definition set_answer :: "nat \<Rightarrow> race \<Rightarrow> scrapes \<Rightarrow> scrapes" where
  "set_answer i r s = s\<lparr>calls := (calls s)[i := (calls s ! i)\<lparr>answered := Some r\<rparr>]\<rparr>"

definition set_closed :: "nat \<Rightarrow> scrapes \<Rightarrow> scrapes" where
  "set_closed i s = s\<lparr>calls := (calls s)[i := (calls s ! i)\<lparr>ch_closed := True\<rparr>]\<rparr>"

text \<open>Sending the gauge of the lock for request \<open>i\<close>.\<close>

definition send_inflight :: "nat \<Rightarrow> scrapes \<Rightarrow> scrapes" where
  "send_inflight i s =
     s\<lparr>late_send := (late_send s \<or> answered (calls s ! i) \<noteq> None), crashed := (crashed s \<or> ch_closed (calls s ! i))\<rparr>"

definition has_lock :: "pc \<Rightarrow> bool" where
  "has_lock p \<longleftrightarrow> p = Scraping \<or> p = Scraped \<or> p = Published"

definition has_result :: "pc \<Rightarrow> bool" where
  "has_result p \<longleftrightarrow> p = Published \<or> p = Ended"

definition has_error :: "pc \<Rightarrow> bool" where
  "has_error p \<longleftrightarrow> p = Scraped \<or> has_result p"

text \<open>The sample that a goroutine has sent by then.\<close>

definition sent_by :: "bool \<Rightarrow> pc \<Rightarrow> bool option" where
  "sent_by locking p =
     (if \<not> locking \<or> p = Starting then None else Some (p = Rejected))"

section \<open>Steps\<close>

text \<open>
  \<open>scraped\<close> is the return of the client's call, which need not happen: nothing here says that a step that
  can be taken is taken.
\<close>

inductive scrape_step :: "bool \<Rightarrow> scrapes \<Rightarrow> scrapes \<Rightarrow> bool" for locking :: bool where
  lock: "\<not> crashed s \<Longrightarrow> locking \<Longrightarrow> i < length (calls s) \<Longrightarrow> scraper (calls s ! i) = Starting \<Longrightarrow> holder s = None \<Longrightarrow>
     scrape_step locking s ((set_pc i Scraping (send_inflight i s))\<lparr>holder := Some i\<rparr>)"
| reject: "\<not> crashed s \<Longrightarrow> locking \<Longrightarrow> i < length (calls s) \<Longrightarrow> scraper (calls s ! i) = Starting \<Longrightarrow> holder s \<noteq> None \<Longrightarrow>
     scrape_step locking s (set_pc i Rejected (send_inflight i s))"
| unlocked: "\<not> crashed s \<Longrightarrow> \<not> locking \<Longrightarrow> i < length (calls s) \<Longrightarrow> scraper (calls s ! i) = Starting \<Longrightarrow>
     scrape_step locking s (set_pc i Scraping s)"
| scraped: "\<not> crashed s \<Longrightarrow> i < length (calls s) \<Longrightarrow> scraper (calls s ! i) = Scraping \<Longrightarrow>
     scrape_step locking s (set_pc i Scraped s)"
| publish: "\<not> crashed s \<Longrightarrow> i < length (calls s) \<Longrightarrow> scraper (calls s ! i) = Scraped \<Longrightarrow>
     scrape_step locking s (set_pc i Published s)"
| unlock: "\<not> crashed s \<Longrightarrow> i < length (calls s) \<Longrightarrow> scraper (calls s ! i) = Published \<Longrightarrow>
     scrape_step locking s ((set_pc i Ended s)\<lparr>holder := (if locking then None else holder s)\<rparr>)"
| take_result: "\<not> crashed s \<Longrightarrow> i < length (calls s) \<Longrightarrow> answered (calls s ! i) = None \<Longrightarrow> has_result (scraper (calls s ! i)) \<Longrightarrow>
     scrape_step locking s (set_answer i Finished s)"
| take_inflight: "\<not> crashed s \<Longrightarrow> i < length (calls s) \<Longrightarrow> answered (calls s ! i) = None \<Longrightarrow> scraper (calls s ! i) = Rejected \<Longrightarrow>
     scrape_step locking s (set_answer i Blocked s)"
| time_out: "\<not> crashed s \<Longrightarrow> i < length (calls s) \<Longrightarrow> answered (calls s ! i) = None \<Longrightarrow> (seen \<longrightarrow> has_error (scraper (calls s ! i))) \<Longrightarrow>
     scrape_step locking s (set_answer i (Deadline seen (sent_by locking (scraper (calls s ! i)))) s)"
| close: "\<not> crashed s \<Longrightarrow> i < length (calls s) \<Longrightarrow> answered (calls s ! i) \<noteq> None \<Longrightarrow> \<not> ch_closed (calls s ! i) \<Longrightarrow>
     scrape_step locking s (set_closed i s)"

inductive_cases scrape_stepE: "scrape_step locking s t"

inductive scrape_reach :: "bool \<Rightarrow> nat \<Rightarrow> scrapes \<Rightarrow> bool" for locking :: bool and n :: nat where
  start: "scrape_reach locking n (init_scrapes n)"
| step: "scrape_reach locking n s \<Longrightarrow> scrape_step locking s t \<Longrightarrow> scrape_reach locking n t"

lemmas scrape_ops = set_pc_def set_answer_def set_closed_def send_inflight_def

lemma calls_update:
  "calls (set_pc i p s) = (calls s)[i := (calls s ! i)\<lparr>scraper := p\<rparr>]"
  "calls (set_answer i r s) = (calls s)[i := (calls s ! i)\<lparr>answered := Some r\<rparr>]"
  "calls (set_closed i s) = (calls s)[i := (calls s ! i)\<lparr>ch_closed := True\<rparr>]"
  "calls (send_inflight i s) = calls s"
  "holder (set_pc i p s) = holder s" "holder (set_answer i r s) = holder s" "holder (send_inflight i s) = holder s"
  "holder (set_closed i s) = holder s"
  "crashed (set_pc i p s) = crashed s" "crashed (set_answer i r s) = crashed s" "crashed (set_closed i s) = crashed s"
  "crashed (send_inflight i s) = (crashed s \<or> ch_closed (calls s ! i))"
  "late_send (set_pc i p s) = late_send s" "late_send (set_answer i r s) = late_send s" "late_send (set_closed i s) = late_send s"
  "late_send (send_inflight i s) = (late_send s \<or> answered (calls s ! i) \<noteq> None)"
  by (simp_all add: scrape_ops)

section \<open>Invariant\<close>

text \<open>Whoever holds the lock is the one goroutine that scrapes; answers agree with what happened.\<close>

definition answer_ok :: "bool \<Rightarrow> call \<Rightarrow> bool" where
  "answer_ok locking k \<longleftrightarrow>
     (case answered k of
        None \<Rightarrow> \<not> ch_closed k
      | Some Finished \<Rightarrow> has_result (scraper k)
      | Some Blocked \<Rightarrow> locking \<and> scraper k = Rejected
      | Some (Deadline seen sent) \<Rightarrow> seen \<longrightarrow> has_error (scraper k))"

definition scrape_inv :: "bool \<Rightarrow> nat \<Rightarrow> scrapes \<Rightarrow> bool" where
  "scrape_inv locking n s \<longleftrightarrow>
     length (calls s) = n
     \<and> (\<forall>i < n. answer_ok locking (calls s ! i) \<and> (scraper (calls s ! i) = Rejected \<longrightarrow> locking)
            \<and> (locking \<longrightarrow> (has_lock (scraper (calls s ! i)) \<longleftrightarrow> holder s = Some i)))
     \<and> (\<forall>j. holder s = Some j \<longrightarrow> j < n)
     \<and> (crashed s \<longrightarrow> locking \<and> late_send s)"

lemmas pc_simps = has_lock_def has_result_def has_error_def

lemma scrape_inv_init: "scrape_inv locking n (init_scrapes n)"
  by (simp add: scrape_inv_def init_scrapes_def answer_ok_def pc_simps)

text \<open>A step of request \<open>i\<close>: what it must keep, and how the lock may move.\<close>

definition lock_moves :: "bool \<Rightarrow> nat \<Rightarrow> nat option \<Rightarrow> pc \<Rightarrow> nat option \<Rightarrow> pc \<Rightarrow> bool" where
  "lock_moves locking i h p h' p' \<longleftrightarrow>
     h' = h \<and> (locking \<longrightarrow> has_lock p' = has_lock p)
     \<or> locking \<and> h = None \<and> h' = Some i \<and> has_lock p'
     \<or> locking \<and> h' = None \<and> has_lock p \<and> \<not> has_lock p'"

lemma scrape_inv_update:
  assumes "scrape_inv locking n s" "i < n" "calls t = (calls s)[i := k]" "answer_ok locking k"
    and "scraper k = Rejected \<longrightarrow> locking"
    and "lock_moves locking i (holder s) (scraper (calls s ! i)) (holder t) (scraper k)"
    and "crashed t \<longrightarrow> locking \<and> late_send t"
  shows "scrape_inv locking n t"
proof -
  have len: "length (calls s) = n" and old: "answer_ok locking (calls s ! j)"
      "scraper (calls s ! j) = Rejected \<longrightarrow> locking"
      "locking \<longrightarrow> (has_lock (scraper (calls s ! j)) \<longleftrightarrow> holder s = Some j)" if "j < n" for j
    using assms(1) assms(2) that by (simp_all add: scrape_inv_def)
  have "locking \<longrightarrow> (has_lock (scraper (calls t ! j)) \<longleftrightarrow> holder t = Some j)" if "j < n" for j
    using old(3) [OF that] old(3) [OF assms(2)] assms(2,6) len [OF that] that
    by (cases "j = i") (auto simp: assms(3) lock_moves_def)
  moreover have "answer_ok locking (calls t ! j) \<and> (scraper (calls t ! j) = Rejected \<longrightarrow> locking)" if "j < n" for j
    using old [OF that] assms(4,5) len [OF that] that by (cases "j = i") (simp_all add: assms(3))
  moreover have "j < n" if "holder t = Some j" for j
    using that assms(1,2,6) by (auto simp: lock_moves_def scrape_inv_def)
  ultimately show ?thesis
    using len [OF assms(2)] assms(7) by (simp add: scrape_inv_def assms(3))
qed

text \<open>A goroutine's step keeps what its request was answered, for the steps it can take.\<close>

definition pc_moves :: "pc \<Rightarrow> pc \<Rightarrow> bool" where
  "pc_moves p p' \<longleftrightarrow> (has_result p \<longrightarrow> has_result p') \<and> (has_error p \<longrightarrow> has_error p') \<and> p \<noteq> Rejected"

lemma answer_ok_pc: "answer_ok locking k \<Longrightarrow> pc_moves (scraper k) p \<Longrightarrow> answer_ok locking (k\<lparr>scraper := p\<rparr>)"
  by (auto simp: answer_ok_def pc_moves_def split: option.splits race.splits)

lemma scrape_inv_pc:
  assumes "scrape_inv locking n s" "i < length (calls s)" "calls t = (calls s)[i := (calls s ! i)\<lparr>scraper := p\<rparr>]"
    and "pc_moves (scraper (calls s ! i)) p" "p = Rejected \<Longrightarrow> locking"
    and "lock_moves locking i (holder s) (scraper (calls s ! i)) (holder t) p"
    and "crashed t \<longrightarrow> locking \<and> late_send t"
  shows "scrape_inv locking n t"
proof (rule scrape_inv_update [OF assms(1) _ assms(3)])
  show i: "i < n" using assms(1,2) by (simp add: scrape_inv_def)
  show "answer_ok locking ((calls s ! i)\<lparr>scraper := p\<rparr>)"
    using assms(1,4) i by (intro answer_ok_pc) (simp_all add: scrape_inv_def)
qed (use assms(5-7) in simp_all)

lemma scrape_inv_answer:
  assumes "scrape_inv locking n s" "i < length (calls s)" "answer_ok locking ((calls s ! i)\<lparr>answered := Some r\<rparr>)"
  shows "scrape_inv locking n (set_answer i r s)"
proof (rule scrape_inv_update [OF assms(1) _ _ assms(3)])
  show "i < n" using assms(1,2) by (simp add: scrape_inv_def)
  then show "scraper ((calls s ! i)\<lparr>answered := Some r\<rparr>) = Rejected \<longrightarrow> locking"
    using assms(1) by (simp add: scrape_inv_def)
qed (use assms(1) in \<open>simp_all add: calls_update lock_moves_def scrape_inv_def\<close>)

lemmas scrape_step_simps = calls_update pc_moves_def lock_moves_def pc_simps

lemma scrape_inv_call:
  assumes "scrape_inv locking n s" "i < length (calls s)"
  shows "i < n" "answer_ok locking (calls s ! i)" "scraper (calls s ! i) = Rejected \<Longrightarrow> locking"
    "ch_closed (calls s ! i) \<Longrightarrow> answered (calls s ! i) \<noteq> None"
proof -
  show "i < n" using assms by (simp add: scrape_inv_def)
  with assms(1) show "answer_ok locking (calls s ! i)" "scraper (calls s ! i) = Rejected \<Longrightarrow> locking"
    by (simp_all add: scrape_inv_def)
  then show "ch_closed (calls s ! i) \<Longrightarrow> answered (calls s ! i) \<noteq> None"
    by (cases "answered (calls s ! i)") (simp_all add: answer_ok_def)
qed

lemma scrape_step_inv:
  assumes "scrape_step locking s t" "scrape_inv locking n s"
  shows "scrape_inv locking n t"
  using assms(1)
proof (cases rule: scrape_step.cases)
  case (lock i)
  then show ?thesis
    using scrape_inv_call(4) [OF assms(2), of i]
    by (intro scrape_inv_pc [OF assms(2), of i _ Scraping]) (simp_all add: scrape_step_simps)
next
  case (reject i)
  then show ?thesis
    using scrape_inv_call(4) [OF assms(2), of i]
    by (intro scrape_inv_pc [OF assms(2), of i _ Rejected]) (simp_all add: scrape_step_simps)
next
  case (unlocked i)
  then show ?thesis
    by (intro scrape_inv_pc [OF assms(2), of i _ Scraping]) (simp_all add: scrape_step_simps)
next
  case (scraped i)
  then show ?thesis
    by (intro scrape_inv_pc [OF assms(2), of i _ Scraped]) (simp_all add: scrape_step_simps)
next
  case (publish i)
  then show ?thesis
    by (intro scrape_inv_pc [OF assms(2), of i _ Published]) (simp_all add: scrape_step_simps)
next
  case (unlock i)
  then show ?thesis
    by (intro scrape_inv_pc [OF assms(2), of i _ Ended]) (simp_all add: scrape_step_simps)
next
  case (take_result i)
  then show ?thesis
    by (auto intro!: scrape_inv_answer [OF assms(2)] simp: answer_ok_def)
next
  case (take_inflight i)
  then show ?thesis
    using scrape_inv_call(3) [OF assms(2), of i] assms(2)
    by (auto intro!: scrape_inv_answer simp: answer_ok_def)
next
  case (time_out i seen)
  then show ?thesis
    by (auto intro!: scrape_inv_answer [OF assms(2)] simp: answer_ok_def)
next
  case (close i)
  note call = scrape_inv_call [OF assms(2) close(3)]
  show ?thesis
  proof (rule scrape_inv_update [OF assms(2) call(1)])
    show "calls t = (calls s)[i := (calls s ! i)\<lparr>ch_closed := True\<rparr>]" using close(1) by (simp add: calls_update)
    show "answer_ok locking ((calls s ! i)\<lparr>ch_closed := True\<rparr>)"
      using call(2) close(4) by (auto simp: answer_ok_def split: option.splits race.splits)
  qed (use call(3) close in \<open>simp_all add: calls_update lock_moves_def\<close>)
qed

lemma scrape_reach_inv: "scrape_reach locking n s \<Longrightarrow> scrape_inv locking n s"
  by (induction rule: scrape_reach.induct) (auto intro: scrape_inv_init scrape_step_inv)

section \<open>Progress\<close>

fun pc_weight :: "pc \<Rightarrow> nat" where
  "pc_weight Starting = 4"
| "pc_weight Scraping = 3"
| "pc_weight Scraped = 2"
| "pc_weight Published = 1"
| "pc_weight Rejected = 0"
| "pc_weight Ended = 0"

definition call_weight :: "call \<Rightarrow> nat" where
  "call_weight k = pc_weight (scraper k) + (if answered k = None then 1 else 0) + (if ch_closed k then 0 else 1)"

definition scrape_left :: "scrapes \<Rightarrow> nat" where
  "scrape_left s = sum_list (map call_weight (calls s))"

lemma scrape_left_init: "scrape_left (init_scrapes n) = 6 * n"
  by (simp add: scrape_left_def init_scrapes_def call_weight_def sum_list_replicate)

lemma scrape_left_pc:
  assumes "i < length (calls s)" "calls t = (calls s)[i := (calls s ! i)\<lparr>scraper := p\<rparr>]"
    and "pc_weight p < pc_weight (scraper (calls s ! i))"
  shows "scrape_left t < scrape_left s"
  using assms by (simp add: scrape_left_def sum_list_update_less call_weight_def)

lemma scrape_left_answer:
  assumes "i < length (calls s)" "answered (calls s ! i) = None"
  shows "scrape_left (set_answer i r s) < scrape_left s"
  using assms by (simp add: scrape_left_def sum_list_update_less call_weight_def calls_update)

lemma scrape_step_less:
  assumes "scrape_step locking s t"
  shows "scrape_left t < scrape_left s"
  using assms
proof (cases rule: scrape_step.cases)
  case (lock i)
  then show ?thesis by (intro scrape_left_pc [of i s t Scraping]) (simp_all add: calls_update)
next
  case (reject i)
  then show ?thesis by (intro scrape_left_pc [of i s t Rejected]) (simp_all add: calls_update)
next
  case (unlocked i)
  then show ?thesis by (intro scrape_left_pc [of i s t Scraping]) (simp_all add: calls_update)
next
  case (scraped i)
  then show ?thesis by (intro scrape_left_pc [of i s t Scraped]) (simp_all add: calls_update)
next
  case (publish i)
  then show ?thesis by (intro scrape_left_pc [of i s t Published]) (simp_all add: calls_update)
next
  case (unlock i)
  then show ?thesis by (intro scrape_left_pc [of i s t Ended]) (simp_all add: calls_update)
next
  case (close i)
  then show ?thesis by (simp add: scrape_left_def sum_list_update_less call_weight_def calls_update)
qed (simp_all add: scrape_left_answer)

text \<open>The client's call of request \<open>i\<close> returns in this step.\<close>

definition client_returns :: "nat \<Rightarrow> scrapes \<Rightarrow> scrapes \<Rightarrow> bool" where
  "client_returns i s t \<longleftrightarrow> scraper (calls s ! i) = Scraping \<and> scraper (calls t ! i) = Scraped"

text \<open>A goroutine that is over, or whose call never returns when it is one of \<open>hung\<close>.\<close>

definition settled :: "nat set \<Rightarrow> nat \<Rightarrow> pc \<Rightarrow> bool" where
  "settled hung i p \<longleftrightarrow> p = Rejected \<or> p = Ended \<or> i \<in> hung \<and> p = Scraping"

lemma other_step:
  assumes "scrape_step locking s t" "calls t = (calls s)[i := (calls s ! i)\<lparr>scraper := p\<rparr>]" "i < length (calls s)"
    and "scraper (calls s ! i) = Scraping \<longrightarrow> i \<notin> hung"
  shows "\<exists>t. scrape_step locking s t \<and> (\<forall>j \<in> hung. \<not> client_returns j s t)"
proof -
  have "\<not> client_returns j s t" if "j \<in> hung" for j
    using that assms(2-4) by (cases "j = i") (auto simp: client_returns_def)
  then show ?thesis using assms(1) by blast
qed

lemma scrape_progress:
  assumes "\<not> crashed s" "i < length (calls s)"
    and "answered (calls s ! i) = None \<or> \<not> settled hung i (scraper (calls s ! i))"
  shows "\<exists>t. scrape_step locking s t \<and> (\<forall>j \<in> hung. \<not> client_returns j s t)"
proof (cases "answered (calls s ! i) = None")
  case True
  let ?t = "set_answer i (Deadline False (sent_by locking (scraper (calls s ! i)))) s"
  have "scrape_step locking s ?t" using time_out [OF assms(1,2) True, of False locking] by simp
  moreover have "\<not> client_returns j s ?t" for j
    using assms(2) by (cases "j = i") (auto simp: client_returns_def calls_update)
  ultimately show ?thesis by blast
next
  case False
  then have unsettled: "\<not> settled hung i (scraper (calls s ! i))" using assms(3) by satx
  show ?thesis
  proof (cases "scraper (calls s ! i)")
    case Starting
    then show ?thesis
      using other_step [OF lock [OF assms(1) _ assms(2) Starting], of locking i Scraping hung]
        other_step [OF reject [OF assms(1) _ assms(2) Starting], of locking i Rejected hung]
        other_step [OF unlocked [OF assms(1) _ assms(2) Starting], of locking i Scraping hung] assms(2)
      by (cases locking; cases "holder s") (simp_all add: calls_update)
  next
    case Scraping
    then show ?thesis
      using other_step [OF scraped [OF assms(1,2) Scraping], of i Scraped hung locking] unsettled assms(2)
      by (simp add: calls_update settled_def)
  next
    case Scraped
    then show ?thesis
      using other_step [OF publish [OF assms(1,2) Scraped], of i Published hung locking] assms(2) by (simp add: calls_update)
  next
    case Published
    then show ?thesis
      using other_step [OF unlock [OF assms(1,2) Published], of locking i Ended hung] assms(2) by (simp add: calls_update)
  qed (use unsettled in \<open>simp_all add: settled_def\<close>)
qed

lemma scrape_path_reach: "(scrape_step locking ^^ k) (init_scrapes n) s \<Longrightarrow> scrape_reach locking n s"
  by (induction k arbitrary: s) (auto intro: scrape_reach.intros)

lemma scrape_path_weight: "(scrape_step locking ^^ k) (init_scrapes n) s \<Longrightarrow> k + scrape_left s \<le> 6 * n"
proof (induction k arbitrary: s)
  case 0
  then have "s = init_scrapes n" by simp
  then show ?case by (simp add: scrape_left_init)
next
  case (Suc k)
  then obtain r where "(scrape_step locking ^^ k) (init_scrapes n) r" "scrape_step locking r s" by auto
  with Suc.IH [of r] scrape_step_less [of locking r s] show ?case by simp
qed

text \<open>C10: With the lock on, at most one of any number of concurrent scrapes queries foreman at a time, in
  every reachable state: whoever does holds the lock, and the lock is held by nobody else.\<close>

theorem one_scrape_at_a_time:
  assumes "scrape_reach True n s" "i < n" "j < n"
    and "has_lock (scraper (calls s ! i))" "has_lock (scraper (calls s ! j))"
  shows "i = j \<and> holder s = Some i"
  using scrape_reach_inv [OF assms(1)] assms(2-) by (simp add: scrape_inv_def)

text \<open>One request, whose goroutine has taken the lock.\<close>

definition one_running :: scrapes where
  "one_running = \<lparr>calls = [\<lparr>scraper = Scraping, answered = None, ch_closed = False\<rparr>], holder = Some 0,
     late_send = False, crashed = False\<rparr>"

lemma one_running_step: "scrape_step True (init_scrapes 1) one_running"
  using scrape_step.lock [of "init_scrapes 1" True 0] by (simp add: init_scrapes_def scrape_ops one_running_def)

lemma one_call_running: "scrape_reach True 1 one_running"
  using scrape_reach.start one_running_step by (rule scrape_reach.step)

theorem one_scrape_at_a_time_witness: "holder one_running = Some 0"
proof -
  have "has_lock (scraper (calls one_running ! 0))" by (simp add: one_running_def pc_simps)
  with one_scrape_at_a_time [OF one_call_running, of 0 0] show ?thesis by simp
qed

text \<open>C26: Whatever the interleaving, and even if the client's call never returns for some requests (\<open>hung\<close>): a run takes
  at most six steps per request, and as long as a request is unanswered or a goroutine can still do
  something of its own, a step can be taken that waits for none of these calls. Otherwise the process has
  crashed, which takes the lock to be on and a send to the metrics channel of a request that had returned;
  or else every request has been answered, every goroutine is over except those whose call hangs, and
  the lock is free unless one of them holds it.\<close>

theorem scrapes_terminate:
  assumes "(scrape_step locking ^^ k) (init_scrapes n) s"
  shows "k \<le> 6 * n \<and>
    ((\<exists>t. scrape_step locking s t \<and> (\<forall>i \<in> hung. \<not> client_returns i s t))
     \<or> crashed s \<and> locking \<and> late_send s
     \<or> (\<forall>i < n. answered (calls s ! i) \<noteq> None \<and> settled hung i (scraper (calls s ! i)))
        \<and> (\<forall>j. locking \<longrightarrow> holder s = Some j \<longrightarrow> j \<in> hung \<and> scraper (calls s ! j) = Scraping))"
proof -
  have inv: "scrape_inv locking n s" using assms by (intro scrape_reach_inv scrape_path_reach)
  have steps: "k \<le> 6 * n" using scrape_path_weight [OF assms] by simp
  show ?thesis
  proof (cases "crashed s \<or> (\<exists>t. scrape_step locking s t \<and> (\<forall>i \<in> hung. \<not> client_returns i s t))")
    case True
    then show ?thesis using inv steps by (auto simp: scrape_inv_def)
  next
    case False
    have over: "answered (calls s ! i) \<noteq> None \<and> settled hung i (scraper (calls s ! i))" if "i < n" for i
    proof -
      have "i < length (calls s)" using inv that by (simp add: scrape_inv_def)
      with scrape_progress [of s i hung locking] False show ?thesis by satx
    qed
    have "j \<in> hung \<and> scraper (calls s ! j) = Scraping" if "locking" "holder s = Some j" for j
    proof -
      have "j < n" "has_lock (scraper (calls s ! j))"
        using inv that by (auto simp: scrape_inv_def)
      with over [of j] show ?thesis by (auto simp: pc_simps settled_def)
    qed
    with over steps show ?thesis by blast
  qed
qed

theorem scrapes_terminate_witness:
  "(scrape_step True ^^ 1) (init_scrapes 1) one_running \<and> (\<exists>t. scrape_step True one_running t \<and> \<not> client_returns 0 one_running t)"
proof -
  have path: "(scrape_step True ^^ 1) (init_scrapes 1) one_running"
    using one_running_step by (simp only: relpowp_1)
  have "\<not> crashed one_running" "answered (calls one_running ! 0) = None" by (simp_all add: one_running_def)
  with scrapes_terminate [OF path, of "{0}"] path show ?thesis by auto
qed

text \<open>A request is answered with the outcome of its own goroutine: with a result only when that was
  published, with "another scrape is running" only when its goroutine was rejected (never when the
  lock is off), and when the deadline passed an error is reported only if one was recorded.\<close>

theorem answers_agree:
  assumes "scrape_reach locking n s" "i < n" "answered (calls s ! i) = Some r"
  shows "case r of
      Finished \<Rightarrow> has_result (scraper (calls s ! i))
    | Blocked \<Rightarrow> locking \<and> scraper (calls s ! i) = Rejected
    | Deadline seen sent \<Rightarrow> seen \<longrightarrow> has_error (scraper (calls s ! i))"
proof -
  have "answer_ok locking (calls s ! i)"
    using scrape_reach_inv [OF assms(1)] assms(2) by (simp add: scrape_inv_def)
  then show ?thesis using assms(3) by (simp add: answer_ok_def)
qed

theorem answers_agree_witness:
  "\<exists>s. scrape_reach True 1 s \<and> answered (calls s ! 0) = Some (Deadline True (Some False))
    \<and> has_error (scraper (calls s ! 0))"
proof -
  let ?s = "set_pc 0 Scraped one_running"
  let ?t = "set_answer 0 (Deadline True (Some False)) ?s"
  have "scrape_step True one_running ?s"
    using scrape_step.scraped [of one_running 0] by (simp add: one_running_def)
  with one_call_running have "scrape_reach True 1 ?s" by (rule scrape_reach.step)
  moreover have "scrape_step True ?s ?t"
    using scrape_step.time_out [of ?s 0 True True] by (simp add: one_running_def scrape_ops pc_simps sent_by_def)
  ultimately have "scrape_reach True 1 ?t" by (rule scrape_reach.step)
  moreover have "answered (calls ?t ! 0) = Some (Deadline True (Some False))" by (simp add: one_running_def scrape_ops)
  ultimately show ?thesis using answers_agree [of True 1 ?t 0 "Deadline True (Some False)"] by (intro exI [of _ ?t]) simp
qed

text \<open>C36: A goroutine that starts only after its request has timed out still sends the gauge of the lock, to
  a channel that its request has given back: a deadline that is already over makes that reachable, and
  when the registry has closed the channel by then, the send panics and the process ends.\<close>

theorem late_send_reachable:
  assumes "0 < n"
  shows "\<exists>s. scrape_reach True n s \<and> late_send s \<and> crashed s"
proof -
  let ?r = "set_answer 0 (Deadline False None) (init_scrapes n)"
  let ?q = "set_closed 0 ?r"
  have "scrape_step True (init_scrapes n) ?r"
    using scrape_step.time_out [of "init_scrapes n" 0 False True] assms by (simp add: init_scrapes_def sent_by_def)
  with scrape_reach.start have "scrape_reach True n ?r" by (rule scrape_reach.step)
  moreover have "scrape_step True ?r ?q"
    using assms by (intro scrape_step.close) (simp_all add: init_scrapes_def scrape_ops)
  ultimately have q: "scrape_reach True n ?q" by (rule scrape_reach.step)
  have "scrape_step True ?q ((set_pc 0 Scraping (send_inflight 0 ?q))\<lparr>holder := Some 0\<rparr>)"
    using assms by (intro scrape_step.lock) (simp_all add: init_scrapes_def scrape_ops)
  with q have "scrape_reach True n ((set_pc 0 Scraping (send_inflight 0 ?q))\<lparr>holder := Some 0\<rparr>)"
    by (rule scrape_reach.step)
  moreover have "late_send ((set_pc 0 Scraping (send_inflight 0 ?q))\<lparr>holder := Some 0\<rparr>)"
      "crashed ((set_pc 0 Scraping (send_inflight 0 ?q))\<lparr>holder := Some 0\<rparr>)"
    using assms by (simp_all add: init_scrapes_def scrape_ops)
  ultimately show ?thesis by blast
qed

theorem late_send_reachable_witness:
  "\<exists>s. scrape_reach True 2 s \<and> late_send s \<and> crashed s"
  by (rule late_send_reachable) simp

end
