(* ===== verification/FactExport.thy ===== *)
theory FactExport
  imports Collector
begin

text \<open>
  What a scrape of the fact collector exports, fact by fact: the labels of a host say exactly the
  facts that were collected for it, when no two facts' names give the same label and none is
  reserved; and a scrape that finished in time sends one sample for each collected host.
\<close>

text \<open>What the labels of collected facts say, if the facts' names give distinct labels.\<close>

definition labels_clean :: "string set \<Rightarrow> bool" where
  "labels_clean ks \<longleftrightarrow> inj_on sanitize ks \<and> (\<forall>k \<in> ks. sanitize k \<noteq> ''name'' \<and> \<not> reserved (sanitize k))"

lemma labelled_keys: "wf_map facts \<Longrightarrow> inj_on sanitize (fst ` set facts) \<Longrightarrow> wf_map (labelled facts)"
proof (induction facts)
  case Nil
  then show ?case by (simp add: labelled_def)
next
  case (Cons e facts)
  obtain k v where e: "e = (k, v)" by (cases e)
  have "sanitize k \<notin> fst ` set (labelled facts)"
  proof
    assume "sanitize k \<in> fst ` set (labelled facts)"
    then obtain k' where "k' \<in> fst ` set facts" "sanitize k' = sanitize k"
      by (force simp: labelled_def)
    then show False using Cons.prems by (auto simp: e inj_on_def wf_map_Cons)
  qed
  moreover have "wf_map (labelled facts)" using Cons by (simp add: e wf_map_Cons)
  ultimately show ?case by (simp add: labelled_def e wf_map_Cons)
qed

lemma labelled_lookup:
  assumes "wf_map facts" "inj_on sanitize (fst ` set facts)"
  shows "map_of (labelled facts) x = Some v \<longleftrightarrow> (\<exists>k. map_of facts k = Some v \<and> sanitize k = x \<and> label_name_ok x)"
proof -
  have "map_of (labelled facts) x = Some v \<longleftrightarrow> (x, v) \<in> set (labelled facts)"
    using labelled_keys [OF assms] by (auto simp: in_set_map_of dest: map_of_SomeD)
  also have "\<dots> \<longleftrightarrow> (\<exists>k. (k, v) \<in> set facts \<and> sanitize k = x \<and> label_name_ok x)"
    by (force simp: labelled_def)
  finally show ?thesis using assms(1) by (auto simp: in_set_map_of dest: map_of_SomeD)
qed

lemma clean_key:
  "labels_clean (fst ` set facts) \<Longrightarrow> map_of facts k = Some v \<Longrightarrow> sanitize k \<noteq> ''name'' \<and> \<not> reserved (sanitize k)"
  by (force simp: labels_clean_def dest: map_of_SomeD)

lemma fact_labels_lookup:
  assumes "wf_map facts" "labels_clean (fst ` set facts)"
  shows "map_of (fact_labels host facts) ''name'' = Some host"
    and "x \<noteq> ''name'' \<Longrightarrow> map_of (fact_labels host facts) x = Some v
      \<longleftrightarrow> (\<exists>k. map_of facts k = Some v \<and> sanitize k = x \<and> label_name_ok x)"
proof -
  have inj: "inj_on sanitize (fst ` set facts)" using assms(2) by (simp add: labels_clean_def)
  note fl = fact_labels_labelled [OF labelled_keys [OF assms(1) inj], of host]
  have "map_of (labelled facts) ''name'' \<noteq> Some v" for v
    unfolding labelled_lookup [OF assms(1) inj] using clean_key [OF assms(2)] by blast
  then have none: "map_of (labelled facts) ''name'' = None" by (cases "map_of (labelled facts) ''name''") auto
  show "map_of (fact_labels host facts) ''name'' = Some host" unfolding fl by (simp add: map_add_def none)
  show "x \<noteq> ''name'' \<Longrightarrow> map_of (fact_labels host facts) x = Some v
      \<longleftrightarrow> (\<exists>k. map_of facts k = Some v \<and> sanitize k = x \<and> label_name_ok x)"
    unfolding fl labelled_lookup [OF assms(1) inj, symmetric] by (simp add: map_add_def split: option.split)
qed

lemma names_accepted_clean:
  assumes "wf_map facts" "labels_clean (fst ` set facts)"
  shows "names_accepted (fact_labels host facts)"
proof -
  have "\<not> reserved l" if l: "l \<in> fst ` set (fact_labels host facts)" for l
  proof (cases "l = ''name''")
    case True
    then show ?thesis by (simp add: reserved_def)
  next
    case False
    obtain v where "map_of (fact_labels host facts) l = Some v"
      using l by (metis map_of_eq_None_iff not_Some_eq)
    then show ?thesis
      using fact_labels_lookup(2) [OF assms False] clean_key [OF assms(2)] by blast
  qed
  then show ?thesis
    using fact_labels_ok by (force simp: names_accepted_def list_all_iff)
qed

text \<open>The values are the host's name and values of its facts.\<close>

lemma update_values: "snd ` set (AList.update k v al) \<subseteq> insert v (snd ` set al)"
  by (induction al) auto

lemma fact_labels_values: "snd ` set (fact_labels host facts) \<subseteq> insert host (snd ` set facts)"
proof (induction facts rule: rev_induct)
  case Nil
  then show ?case by (simp add: fact_labels_def)
next
  case (snoc e facts)
  have "snd ` set (store_label e (fact_labels host facts)) \<subseteq> insert (snd e) (snd ` set (fact_labels host facts))"
    using update_values [of "sanitize (fst e)" "snd e" "fact_labels host facts"] by (auto simp: store_label_def Let_def)
  also have "\<dots> \<subseteq> insert (snd e) (insert host (snd ` set facts))" using snoc by (intro insert_mono)
  finally show ?case unfolding fact_labels_snoc by (simp add: insert_commute)
qed

text \<open>What a scrape that finished in time sends, for facts that were collected without an error.\<close>

lemma finished_facts:
  assumes "read_cache hostsFactsKey c cd e = Inr (False, False, [])"
    and "\<And>h m. (h, m) \<in> set F \<Longrightarrow> desc_ok (fact_labels h m)"
  shows "\<exists>samples. HostFactCollector_Collect desc_ok lk c cd e (F, None) Finished = Returns samples
    \<and> (\<forall>l. Info l \<in> set samples \<longleftrightarrow> (\<exists>(h, m) \<in> set F. l = fact_labels h m))
    \<and> ScrapeError False \<in> set samples \<and> ScrapeTimeout False \<in> set samples"
proof -
  let ?data = "map (\<lambda>(h, m). fact_labels h m) F"
  let ?samples = "race_samples lk Finished @ map Info ?data @ [ScrapeError False, ScrapeTimeout False]
     @ (if Enabled (CacheConfig c) then [ExpiredCache False] else [])"
  have "race_data [] ?data Finished = (?data, False, F \<noteq> [])" by (simp add: race_data_def)
  then have "respond c (race_data [] ?data Finished) (race_error False Finished)
      = map Info ?data @ [ScrapeError False, ScrapeTimeout False] @ (if Enabled (CacheConfig c) then [ExpiredCache False] else [])"
    by (cases "F = []") (simp_all add: respond_def race_error_def)
  then have run: "HostFactCollector_Collect desc_ok lk c cd e (F, None) Finished = emit desc_ok ?samples"
    by (simp only: HostFactCollector_Collect_def fact_scrape_def Let_def fst_conv snd_conv
        collect_scrape [OF assms(1)] simp_thms)
  have infos: "Info l \<in> set ?samples \<longleftrightarrow> (\<exists>(h, m) \<in> set F. l = fact_labels h m)" for l
    by (simp add: image_iff Bex_def case_prod_beta)
  have "emit desc_ok ?samples = Returns ?samples"
    unfolding emit_Returns infos using assms(2) by auto
  then show ?thesis
    unfolding run using infos by (intro exI [of _ ?samples]) simp
qed

section \<open>No partial export without an error\<close>

lemma collect_without_error:
  assumes "collect desc_ok lk key c cd e (scraped, failed, upd) race = Returns samples" "ScrapeError False \<in> set samples"
  shows "\<exists>found expired data. read_cache key c cd e = Inr (found, expired, data)
    \<and> ({l. Info l \<in> set samples} \<in> {{}, set data}
       \<or> race = Finished \<and> \<not> failed \<and> (\<forall>l. Info l \<in> set samples \<longleftrightarrow> l \<in> set scraped))"
proof (cases "read_cache key c cd e")
  case (Inl out)
  then have "out = [] \<or> out = [ScrapeError True]"
    by (auto simp: read_cache_def read_kv_def Let_def split: if_splits sum.splits option.splits)
  then show ?thesis using assms Inl by (auto simp: collect_def)
next
  case (Inr r)
  obtain found expired data where r: "r = (found, expired, data)" by (cases r)
  have kept: "{l. Info l \<in> set (respond c (data', t, fresh) err)} \<in> {{}, set data'}" for data' t fresh err
    using respond_shape [of c data' t fresh err] by (auto split: if_splits)
  show ?thesis
  proof (cases "\<not> found \<or> expired")
    case False
    then have "samples = respond c (data, False, False) False"
      using assms(1) by (auto simp: collect_def Inr r emit_Returns)
    then show ?thesis using kept [of data False False False] Inr r by blast
  next
    case True
    then have s: "samples = race_samples lk race @ respond c (race_data data scraped race) (race_error failed race)"
      using assms(1) by (auto simp: collect_def Inr r emit_Returns)
    have infos: "Info l \<in> set samples \<longleftrightarrow> Info l \<in> set (respond c (race_data data scraped race) (race_error failed race))" for l
      by (simp add: s)
    have noerr: "\<not> race_error failed race"
      using assms(2) respond_shape [of c "fst (race_data data scraped race)" "fst (snd (race_data data scraped race))"
          "snd (snd (race_data data scraped race))" "race_error failed race"]
      unfolding s by (auto simp: race_samples_def split: if_splits race.splits option.splits)
    show ?thesis
    proof (cases "race = Finished \<and> scraped \<noteq> []")
      case True
      then have "race_data data scraped race = (scraped, False, True)" "\<not> failed"
        using noerr by (auto simp: race_data_def race_error_def)
      then have "Info l \<in> set samples \<longleftrightarrow> l \<in> set scraped" for l
        unfolding infos by (auto simp: respond_cases split: if_splits)
      with True \<open>\<not> failed\<close> Inr r show ?thesis by auto
    next
      case False
      then have "fst (race_data data scraped race) = data" by (auto simp: race_data_def split: race.split)
      then obtain t fresh where "race_data data scraped race = (data, t, fresh)" by (cases "race_data data scraped race") auto
      then have "{l. Info l \<in> set samples} \<in> {{}, set data}" using kept unfolding infos by simp
      with Inr r show ?thesis by blast
    qed
  qed
qed

lemma hosts_without_error:
  assumes "HostCollector_Collect desc_ok lk c inc exc cd e answer race = Returns samples" "ScrapeError False \<in> set samples"
  shows "\<exists>found expired data. read_cache hostsKey c cd e = Inr (found, expired, data)
    \<and> ({l. Info l \<in> set samples} \<in> {{}, set data}
       \<or> race = Finished \<and> snd answer = None
         \<and> {l. Info l \<in> set samples} = (\<lambda>h. filter_host_labels inc exc (host_labels h)) ` set (fst answer))"
proof -
  obtain upd where "host_scrape c inc exc cd e answer
      = (map (\<lambda>h. filter_host_labels inc exc (host_labels h)) (fst answer), snd answer \<noteq> None, upd)"
    by (simp add: host_scrape_def Let_def)
  with assms(1) have "collect desc_ok lk hostsKey c cd e
      (map (\<lambda>h. filter_host_labels inc exc (host_labels h)) (fst answer), snd answer \<noteq> None, upd) race = Returns samples"
    by (simp add: HostCollector_Collect_def)
  from collect_without_error [OF this assms(2)] show ?thesis by (auto simp: set_eq_iff)
qed

text \<open>C15: A partial result is never exported in silence: when the error gauge of a scrape of hosts or of facts is
  0, what it exports is nothing, the whole cached value, or else everything that one collection brought back,
  in time and without an error.\<close>

theorem partial_never_silent:
  "(HostCollector_Collect desc_ok lk c inc exc cd e answer race = Returns samples \<longrightarrow> ScrapeError False \<in> set samples \<longrightarrow>
     (\<exists>found expired data. read_cache hostsKey c cd e = Inr (found, expired, data)
       \<and> ({l. Info l \<in> set samples} \<in> {{}, set data}
          \<or> race = Finished \<and> snd answer = None
            \<and> {l. Info l \<in> set samples} = (\<lambda>h. filter_host_labels inc exc (host_labels h)) ` set (fst answer))))
   \<and> (HostFactCollector_Collect desc_ok lk c cd e answer' race = Returns samples \<longrightarrow> ScrapeError False \<in> set samples \<longrightarrow>
     (\<exists>found expired data. read_cache hostsFactsKey c cd e = Inr (found, expired, data)
       \<and> ({l. Info l \<in> set samples} \<in> {{}, set data}
          \<or> race = Finished \<and> snd answer' = None
            \<and> {l. Info l \<in> set samples} = (\<lambda>(h, m). fact_labels h m) ` set (fst answer'))))"
proof (intro conjI impI)
  assume "HostCollector_Collect desc_ok lk c inc exc cd e answer race = Returns samples" "ScrapeError False \<in> set samples"
  then show "\<exists>found expired data. read_cache hostsKey c cd e = Inr (found, expired, data)
       \<and> ({l. Info l \<in> set samples} \<in> {{}, set data}
          \<or> race = Finished \<and> snd answer = None
            \<and> {l. Info l \<in> set samples} = (\<lambda>h. filter_host_labels inc exc (host_labels h)) ` set (fst answer))"
    by (rule hosts_without_error)
next
  assume run: "HostFactCollector_Collect desc_ok lk c cd e answer' race = Returns samples" "ScrapeError False \<in> set samples"
  obtain upd where "fact_scrape c cd e answer'
      = (map (\<lambda>(h, m). fact_labels h m) (fst answer'), snd answer' \<noteq> None, upd)"
    by (simp add: fact_scrape_def Let_def)
  with run(1) have "collect desc_ok lk hostsFactsKey c cd e
      (map (\<lambda>(h, m). fact_labels h m) (fst answer'), snd answer' \<noteq> None, upd) race = Returns samples"
    by (simp add: HostFactCollector_Collect_def)
  from collect_without_error [OF this run(2)]
  show "\<exists>found expired data. read_cache hostsFactsKey c cd e = Inr (found, expired, data)
       \<and> ({l. Info l \<in> set samples} \<in> {{}, set data}
          \<or> race = Finished \<and> snd answer' = None
            \<and> {l. Info l \<in> set samples} = (\<lambda>(h, m). fact_labels h m) ` set (fst answer'))"
    by (auto simp: set_eq_iff)
qed

theorem partial_never_silent_witness:
  "\<exists>samples. HostFactCollector_Collect (\<lambda>_. True) False example_collector example_codec example_env ([(''a'', [])], None) Finished
      = Returns samples
    \<and> {l. Info l \<in> set samples} = {[(''name'', ''a'')]}"
proof -
  let ?run = "HostFactCollector_Collect (\<lambda>_. True) False example_collector example_codec example_env ([(''a'', [])], None) Finished"
  have labels: "fact_labels ''a'' [] = [(''name'', ''a'')]" by (simp add: fact_labels_def)
  have run: "?run = Returns ([Info [(''name'', ''a'')], ScrapeError False, ScrapeTimeout False, ExpiredCache False])"
    by (simp add: HostFactCollector_Collect_def collect_def example_read fact_scrape_def labels race_data_def race_error_def
        race_samples_def respond_def emit_def Let_def) (simp add: example_collector_def)
  then show ?thesis
    using partial_never_silent [of "\<lambda>_. True" False example_collector None None example_codec example_env "([], None)" Finished
        "[Info [(''name'', ''a'')], ScrapeError False, ScrapeTimeout False, ExpiredCache False]" "([(''a'', [])], None)"]
    by (intro exI [of _ "[Info [(''name'', ''a'')], ScrapeError False, ScrapeTimeout False, ExpiredCache False]"])
      (auto simp: example_read labels)
qed

end
