(* ===== verification/ScrapeSystem.thy ===== *)
theory ScrapeSystem
  imports ScrapeLock FactExport
begin

text \<open>
  Requests that share the in-process cache (host_collector.go and memcache.go, without a ring), statement
  by statement: each arrives with its own settings, reads the cache, is answered at once or starts a
  goroutine and waits in the \<open>select\<close>; the goroutine takes the lock, asks foreman, stores and hands
  over what it got. What the two share is written out: the variable \<open>errVal\<close>, the channels \<open>result\<close> and
  \<open>inflight\<close>, the metrics that the goroutine has sent. Many requests run together, over one lock, one
  cache and one clock, in every interleaving. \<open>Collect\<close> of Collector is not used here: that the
  requests are answered as it says is proved.
\<close>

section \<open>States\<close>

text \<open>
  A request is still to come, was answered at once from the cache, waits in the \<open>select\<close> with what it saw
  when it arrived and the data it read then, or has been answered after it. Only the last two have a
  goroutine.
\<close>

datatype job =
    Coming collector
  | AtOnce collector env "sample list outcome"
  | Waiting collector env "labels list"
  | Served collector env "sample list outcome"

fun request_of :: "job \<Rightarrow> collector" where
  "request_of (Coming c) = c"
| "request_of (AtOnce c _ _) = c"
| "request_of (Waiting c _ _) = c"
| "request_of (Served c _ _) = c"

fun has_scrape :: "job \<Rightarrow> bool" where
  "has_scrape (Coming _) = False"
| "has_scrape (AtOnce _ _ _) = False"
| "has_scrape (Waiting _ _ _) = True"
| "has_scrape (Served _ _ _) = True"

type_synonym host_answer = "Host list \<times> go_error option"

text \<open>What a request and its goroutine share, and what foreman answered to the goroutine (\<open>hostStatus\<close>).\<close>

record request_vars =
  hostStatus :: "host_answer option"
  errVal :: bool
  v_result :: "labels list option"
  v_inflight :: bool
  v_sent :: "sample list"

definition init_vars :: request_vars where
  "init_vars = \<lparr>hostStatus = None, errVal = False, v_result = None, v_inflight = False, v_sent = []\<rparr>"

text \<open>\<open>running\<close> has the program counters, the lock and the channels of metrics; \<open>log\<close> is all that foreman answered so far.\<close>

record system =
  running :: scrapes
  jobs :: "job list"
  vars :: "request_vars list"
  log :: "host_answer set"
  cached :: "labels list MemCache"
  clock :: int

definition init_system :: "collector list \<Rightarrow> int \<Rightarrow> system" where
  "init_system cs t =
     \<lparr>running = init_scrapes (length cs), jobs = map Coming cs, vars = replicate (length cs) init_vars, log = {},
      cached = NewLocalCache, clock = t\<rparr>"

definition env_at :: "system \<Rightarrow> env" where
  "env_at s = \<lparr>now = clock s, leader = Inr False, kv_entry = None, local_cache = cached s\<rparr>"

section \<open>Steps\<close>

text \<open>
  The part of \<open>Collect\<close> before the goroutine: an answer at once, or the data to wait with.
\<close>

definition arrive :: "(labels \<Rightarrow> bool) \<Rightarrow> collector \<Rightarrow> codec \<Rightarrow> env \<Rightarrow> job" where
  "arrive desc_ok c cd e =
     (case read_cache hostsKey c cd e of
        Inl samples \<Rightarrow> AtOnce c e (Returns samples)
      | Inr (found, expired, data) \<Rightarrow>
          if \<not> found \<or> expired then Waiting c e data
          else AtOnce c e (emit desc_ok (respond c (data, False, False) False)))"

text \<open>The data of a goroutine, and the cache after it has dealt with foreman's answer.\<close>

definition scraped_data :: "regex \<Rightarrow> regex \<Rightarrow> host_answer \<Rightarrow> labels list" where
  "scraped_data inc exc a = map (\<lambda>h. filter_host_labels inc exc (host_labels h)) (fst a)"

definition store_answer :: "collector \<Rightarrow> regex \<Rightarrow> regex \<Rightarrow> codec \<Rightarrow> host_answer \<Rightarrow> system \<Rightarrow> labels list MemCache" where
  "store_answer c inc exc cd a s =
     (case snd (snd (host_scrape c inc exc cd (env_at s) a)) of
        None \<Rightarrow> cached s
      | Some u \<Rightarrow> local_cache (apply_update u (env_at s)))"

text \<open>What the request does after the \<open>select\<close>; the goroutine's metrics are on the channel before its own.\<close>

definition finish :: "(labels \<Rightarrow> bool) \<Rightarrow> collector \<Rightarrow> env \<Rightarrow> sample list \<Rightarrow> labels list \<times> bool \<times> bool \<Rightarrow> bool \<Rightarrow> job" where
  "finish desc_ok c e earlier d err = Served c e (emit desc_ok (earlier @ respond c d err))"

definition set_vars :: "nat \<Rightarrow> (request_vars \<Rightarrow> request_vars) \<Rightarrow> system \<Rightarrow> system" where
  "set_vars i f s = s\<lparr>vars := (vars s)[i := f (vars s ! i)]\<rparr>"

definition set_job :: "nat \<Rightarrow> job \<Rightarrow> system \<Rightarrow> system" where
  "set_job i j s = s\<lparr>jobs := (jobs s)[i := j]\<rparr>"

text \<open>
  \<open>takes_lock\<close> to \<open>ends\<close> are the goroutine's; \<open>puts\<close> stores and sends to \<open>result\<close>. The three cases of the
  \<open>select\<close> follow; when the deadline passes, \<open>errVal\<close> is read while the goroutine may be writing it, so
  what is read (\<open>err\<close>) is what was written or the initial value. \<open>closes\<close> is the registry's.
\<close>

inductive system_step :: "(labels \<Rightarrow> bool) \<Rightarrow> bool \<Rightarrow> regex \<Rightarrow> regex \<Rightarrow> codec \<Rightarrow> system \<Rightarrow> system \<Rightarrow> bool"
  for desc_ok lk inc exc cd where
  tick: "\<not> crashed (running s) \<Longrightarrow> clock s \<le> t \<Longrightarrow> system_step desc_ok lk inc exc cd s (s\<lparr>clock := t\<rparr>)"
| arrives: "\<not> crashed (running s) \<Longrightarrow> i < length (jobs s) \<Longrightarrow> jobs s ! i = Coming c \<Longrightarrow>
    system_step desc_ok lk inc exc cd s (set_job i (arrive desc_ok c cd (env_at s)) s)"
| takes_lock: "\<not> crashed (running s) \<Longrightarrow> i < length (jobs s) \<Longrightarrow> has_scrape (jobs s ! i) \<Longrightarrow> lk \<Longrightarrow>
    scraper (calls (running s) ! i) = Starting \<Longrightarrow> holder (running s) = None \<Longrightarrow>
    system_step desc_ok lk inc exc cd s
      (set_vars i (v_sent_update (\<lambda>_. [InflightBlocking False]))
         (s\<lparr>running := (set_pc i Scraping (send_inflight i (running s)))\<lparr>holder := Some i\<rparr>\<rparr>))"
| is_rejected: "\<not> crashed (running s) \<Longrightarrow> i < length (jobs s) \<Longrightarrow> has_scrape (jobs s ! i) \<Longrightarrow> lk \<Longrightarrow>
    scraper (calls (running s) ! i) = Starting \<Longrightarrow> holder (running s) \<noteq> None \<Longrightarrow>
    system_step desc_ok lk inc exc cd s
      (set_vars i (\<lambda>v. v\<lparr>v_sent := [InflightBlocking True], v_inflight := True\<rparr>)
         (s\<lparr>running := set_pc i Rejected (send_inflight i (running s))\<rparr>))"
| starts: "\<not> crashed (running s) \<Longrightarrow> i < length (jobs s) \<Longrightarrow> has_scrape (jobs s ! i) \<Longrightarrow> \<not> lk \<Longrightarrow>
    scraper (calls (running s) ! i) = Starting \<Longrightarrow>
    system_step desc_ok lk inc exc cd s (s\<lparr>running := set_pc i Scraping (running s)\<rparr>)"
| asks: "\<not> crashed (running s) \<Longrightarrow> i < length (jobs s) \<Longrightarrow> scraper (calls (running s) ! i) = Scraping \<Longrightarrow>
    system_step desc_ok lk inc exc cd s
      (set_vars i (\<lambda>v. v\<lparr>hostStatus := Some a, errVal := (snd a \<noteq> None)\<rparr>)
         (s\<lparr>running := set_pc i Scraped (running s), log := insert a (log s)\<rparr>))"
| puts: "\<not> crashed (running s) \<Longrightarrow> i < length (jobs s) \<Longrightarrow> scraper (calls (running s) ! i) = Scraped \<Longrightarrow>
    hostStatus (vars s ! i) = Some a \<Longrightarrow>
    system_step desc_ok lk inc exc cd s
      (set_vars i (v_result_update (\<lambda>_. Some (scraped_data inc exc a)))
         (s\<lparr>running := set_pc i Published (running s), cached := store_answer (request_of (jobs s ! i)) inc exc cd a s\<rparr>))"
| ends: "\<not> crashed (running s) \<Longrightarrow> i < length (jobs s) \<Longrightarrow> scraper (calls (running s) ! i) = Published \<Longrightarrow>
    system_step desc_ok lk inc exc cd s
      (s\<lparr>running := (set_pc i Ended (running s))\<lparr>holder := (if lk then None else holder (running s))\<rparr>\<rparr>)"
| gets_result: "\<not> crashed (running s) \<Longrightarrow> i < length (jobs s) \<Longrightarrow> jobs s ! i = Waiting c e data \<Longrightarrow>
    v_result (vars s ! i) = Some scraped \<Longrightarrow>
    system_step desc_ok lk inc exc cd s
      (set_job i (finish desc_ok c e (v_sent (vars s ! i))
          (if scraped \<noteq> [] then (scraped, False, True) else (data, False, False)) (errVal (vars s ! i)))
         (s\<lparr>running := set_answer i Finished (running s)\<rparr>))"
| gets_inflight: "\<not> crashed (running s) \<Longrightarrow> i < length (jobs s) \<Longrightarrow> jobs s ! i = Waiting c e data \<Longrightarrow>
    v_inflight (vars s ! i) \<Longrightarrow>
    system_step desc_ok lk inc exc cd s
      (set_job i (finish desc_ok c e (v_sent (vars s ! i)) (data, False, False) (errVal (vars s ! i)))
         (s\<lparr>running := set_answer i Blocked (running s)\<rparr>))"
| times_out: "\<not> crashed (running s) \<Longrightarrow> i < length (jobs s) \<Longrightarrow> jobs s ! i = Waiting c e data \<Longrightarrow>
    (err \<longrightarrow> errVal (vars s ! i)) \<Longrightarrow>
    system_step desc_ok lk inc exc cd s
      (set_job i (finish desc_ok c e (v_sent (vars s ! i)) (data, True, False) err)
         (s\<lparr>running := set_answer i (Deadline err (sent_by lk (scraper (calls (running s) ! i)))) (running s)\<rparr>))"
| closes: "\<not> crashed (running s) \<Longrightarrow> i < length (jobs s) \<Longrightarrow> answered (calls (running s) ! i) \<noteq> None \<Longrightarrow>
    \<not> ch_closed (calls (running s) ! i) \<Longrightarrow>
    system_step desc_ok lk inc exc cd s (s\<lparr>running := set_closed i (running s)\<rparr>)"

inductive system_reach :: "(labels \<Rightarrow> bool) \<Rightarrow> bool \<Rightarrow> regex \<Rightarrow> regex \<Rightarrow> codec \<Rightarrow> collector list \<Rightarrow> system \<Rightarrow> bool"
  for desc_ok lk inc exc cd cs where
  start: "system_reach desc_ok lk inc exc cd cs (init_system cs t)"
| step: "system_reach desc_ok lk inc exc cd cs s \<Longrightarrow> system_step desc_ok lk inc exc cd s s' \<Longrightarrow>
    system_reach desc_ok lk inc exc cd cs s'"

lemmas system_ops = set_vars_def set_job_def finish_def

section \<open>What holds of a request\<close>

text \<open>A list that comes from one answer of foreman without an error, and is not empty; a cache that holds nothing else.\<close>

definition whole_list :: "regex \<Rightarrow> regex \<Rightarrow> host_answer set \<Rightarrow> labels list \<Rightarrow> bool" where
  "whole_list inc exc as data \<longleftrightarrow> (\<exists>hosts. (hosts, None) \<in> as \<and> hosts \<noteq> [] \<and> data = map (\<lambda>h. filter_host_labels inc exc (host_labels h)) hosts)"

definition cache_whole :: "regex \<Rightarrow> regex \<Rightarrow> host_answer set \<Rightarrow> labels list MemCache \<Rightarrow> bool" where
  "cache_whole inc exc as mc \<longleftrightarrow> (\<forall>v. Get mc hostsKey = Some v \<longrightarrow> whole_list inc exc as (Value v))"

text \<open>The shared variables agree with how far the goroutine is.\<close>

definition vars_ok :: "bool \<Rightarrow> regex \<Rightarrow> regex \<Rightarrow> host_answer set \<Rightarrow> pc \<Rightarrow> request_vars \<Rightarrow> bool" where
  "vars_ok lk inc exc as p v \<longleftrightarrow>
     (\<forall>a. hostStatus v = Some a \<longrightarrow> a \<in> as) \<and> (hostStatus v \<noteq> None \<longleftrightarrow> has_error p)
     \<and> (errVal v \<longleftrightarrow> (\<exists>a. hostStatus v = Some a \<and> snd a \<noteq> None))
     \<and> v_result v = (if has_result p then map_option (scraped_data inc exc) (hostStatus v) else None)
     \<and> (v_inflight v \<longleftrightarrow> p = Rejected)
     \<and> v_sent v = (case sent_by lk p of None \<Rightarrow> [] | Some b \<Rightarrow> [InflightBlocking b])"

text \<open>Where the answer to a request came from.\<close>

definition job_ok :: "(labels \<Rightarrow> bool) \<Rightarrow> bool \<Rightarrow> regex \<Rightarrow> regex \<Rightarrow> codec \<Rightarrow> host_answer set \<Rightarrow> host_answer option
    \<Rightarrow> race option \<Rightarrow> job \<Rightarrow> bool" where
  "job_ok desc_ok lk inc exc cd as got ans j \<longleftrightarrow>
     (case j of
        Coming c \<Rightarrow> ans = None
      | AtOnce c e out \<Rightarrow> cache_whole inc exc as (local_cache e)
          \<and> out = HostCollector_Collect desc_ok lk c inc exc cd e ([], None) Finished
      | Waiting c e data \<Rightarrow> cache_whole inc exc as (local_cache e) \<and> ans = None
          \<and> (\<exists>found expired. read_cache hostsKey c cd e = Inr (found, expired, data) \<and> (\<not> found \<or> expired))
      | Served c e out \<Rightarrow> cache_whole inc exc as (local_cache e)
          \<and> (\<exists>a r. ans = Some r \<and> (a \<in> as \<or> a = ([], None)) \<and> (r = Finished \<longrightarrow> got = Some a)
                \<and> out = HostCollector_Collect desc_ok lk c inc exc cd e a r))"

definition request_ok :: "(labels \<Rightarrow> bool) \<Rightarrow> bool \<Rightarrow> regex \<Rightarrow> regex \<Rightarrow> codec \<Rightarrow> system \<Rightarrow> nat \<Rightarrow> bool" where
  "request_ok desc_ok lk inc exc cd s i \<longleftrightarrow>
     vars_ok lk inc exc (log s) (scraper (calls (running s) ! i)) (vars s ! i)
     \<and> job_ok desc_ok lk inc exc cd (log s) (hostStatus (vars s ! i)) (answered (calls (running s) ! i)) (jobs s ! i)"

definition same_requests :: "collector list \<Rightarrow> system \<Rightarrow> bool" where
  "same_requests cs s \<longleftrightarrow> map request_of (jobs s) = cs \<and> length (vars s) = length cs \<and> length (calls (running s)) = length cs"

definition system_inv :: "(labels \<Rightarrow> bool) \<Rightarrow> bool \<Rightarrow> regex \<Rightarrow> regex \<Rightarrow> codec \<Rightarrow> collector list \<Rightarrow> system \<Rightarrow> bool" where
  "system_inv desc_ok lk inc exc cd cs s \<longleftrightarrow>
     same_requests cs s \<and> cache_whole inc exc (log s) (cached s)
     \<and> (\<forall>i < length cs. request_ok desc_ok lk inc exc cd s i)"

lemma same_requestsD:
  assumes "same_requests cs s"
  shows "map request_of (jobs s) = cs" "length (jobs s) = length cs" "length (vars s) = length cs"
    "length (calls (running s)) = length cs" "i < length cs \<Longrightarrow> request_of (jobs s ! i) = cs ! i"
  using assms by (auto simp: same_requests_def)

lemma system_invD:
  assumes "system_inv desc_ok lk inc exc cd cs s"
  shows "same_requests cs s" "cache_whole inc exc (log s) (cached s)"
    "i < length cs \<Longrightarrow> vars_ok lk inc exc (log s) (scraper (calls (running s) ! i)) (vars s ! i)"
    "i < length cs \<Longrightarrow> job_ok desc_ok lk inc exc cd (log s) (hostStatus (vars s ! i)) (answered (calls (running s) ! i)) (jobs s ! i)"
  using assms by (simp_all add: system_inv_def request_ok_def)

lemma request_kept: "i < length xs \<Longrightarrow> request_of j = request_of (xs ! i) \<Longrightarrow> map request_of (xs[i := j]) = map request_of xs"
  by (metis list_update_id map_update)

lemma request_of_arrive [simp]: "request_of (arrive desc_ok c cd e) = c"
  by (simp add: arrive_def split: sum.split)

lemma cache_whole_mono: "cache_whole inc exc as mc \<Longrightarrow> as \<subseteq> bs \<Longrightarrow> cache_whole inc exc bs mc"
  by (fastforce simp: cache_whole_def whole_list_def)

lemma vars_ok_mono: "vars_ok lk inc exc as p v \<Longrightarrow> as \<subseteq> bs \<Longrightarrow> vars_ok lk inc exc bs p v"
  by (auto simp: vars_ok_def)

lemma job_ok_mono:
  assumes "job_ok desc_ok lk inc exc cd as got ans j" "as \<subseteq> bs"
  shows "job_ok desc_ok lk inc exc cd bs got ans j"
proof (cases j)
  case (Served c e out)
  with assms(1) obtain a r where whole: "cache_whole inc exc as (local_cache e)" and "ans = Some r" "a \<in> as \<or> a = ([], None)"
      "r = Finished \<longrightarrow> got = Some a" "out = HostCollector_Collect desc_ok lk c inc exc cd e a r"
    unfolding job_ok_def by (simp only: job.case) blast
  then show ?thesis
    using cache_whole_mono [OF whole assms(2)] assms(2) unfolding Served job_ok_def job.case by blast
qed (use assms cache_whole_mono in \<open>auto simp: job_ok_def\<close>)

lemmas vars_simps = vars_ok_def pc_simps sent_by_def

section \<open>It refines the goroutines alone\<close>

lemma waiting_unanswered:
  assumes "job_ok desc_ok lk inc exc cd as got ans (Waiting c e data)"
  shows "ans = None"
  using assms by (simp add: job_ok_def)

lemma system_step_scrapes:
  assumes "system_step desc_ok lk inc exc cd s s'" "system_inv desc_ok lk inc exc cd cs s"
  shows "running s' = running s \<or> scrape_step lk (running s) (running s')"
proof -
  note same = same_requestsD [OF system_invD(1) [OF assms(2)]]
  note ok = system_invD(3,4) [OF assms(2)]
  show ?thesis
    using assms(1)
  proof (cases rule: system_step.cases)
    case (gets_result i c e data scraped)
    then have "i < length cs" using same(2) by simp
    with ok [OF this] gets_result same(4) show ?thesis
      by (auto simp: vars_simps system_ops split: if_splits dest!: waiting_unanswered intro!: scrape_step.take_result)
  next
    case (gets_inflight i c e data)
    then have "i < length cs" using same(2) by simp
    with ok [OF this] gets_inflight same(4) show ?thesis
      by (auto simp: vars_simps system_ops dest!: waiting_unanswered intro!: scrape_step.take_inflight)
  next
    case (times_out i c e data err)
    then have i: "i < length cs" using same(2) by simp
    have "err \<longrightarrow> has_error (scraper (calls (running s) ! i))"
      using ok(1) [OF i] times_out(5) by (auto simp: vars_ok_def)
    with ok(2) [OF i] times_out same(4) i show ?thesis
      by (auto simp: system_ops dest!: waiting_unanswered intro!: scrape_step.time_out)
  next
    case (ends i)
    then show ?thesis using scrape_step.unlock [of "running s" i lk] same(2,4) by simp
  qed (use same(2,4) in \<open>auto simp: system_ops intro: scrape_step.intros\<close>)
qed

lemma system_step_same:
  assumes "system_step desc_ok lk inc exc cd s s'" "same_requests cs s"
  shows "same_requests cs s'"
  using assms(1)
  by (cases rule: system_step.cases)
    (use same_requestsD [OF assms(2)] in \<open>simp_all add: same_requests_def request_kept calls_update system_ops\<close>)

section \<open>The invariant\<close>

text \<open>Only what happens to its own goroutine matters to a request.\<close>

lemma system_inv_step:
  assumes "system_inv desc_ok lk inc exc cd cs s" "same_requests cs t" "log s \<subseteq> log t"
    and "cache_whole inc exc (log t) (cached t)" "i < length cs"
    and "\<And>j. j \<noteq> i \<Longrightarrow> j < length cs \<Longrightarrow>
      vars t ! j = vars s ! j \<and> calls (running t) ! j = calls (running s) ! j \<and> jobs t ! j = jobs s ! j"
    and "vars_ok lk inc exc (log t) (scraper (calls (running t) ! i)) (vars t ! i)"
    and "job_ok desc_ok lk inc exc cd (log t) (hostStatus (vars t ! i)) (answered (calls (running t) ! i)) (jobs t ! i)"
  shows "system_inv desc_ok lk inc exc cd cs t"
proof -
  have "request_ok desc_ok lk inc exc cd t j" if "j < length cs" for j
  proof (cases "j = i")
    case True
    then show ?thesis using assms(7,8) by (simp add: request_ok_def)
  next
    case False
    have "request_ok desc_ok lk inc exc cd s j" using assms(1) that by (simp add: system_inv_def)
    with assms(6) [OF False that] vars_ok_mono [OF _ assms(3)] job_ok_mono [OF _ assms(3)]
    show ?thesis by (simp add: request_ok_def)
  qed
  then show ?thesis using assms(2,4) by (simp add: system_inv_def)
qed

lemma store_answer_whole:
  assumes "\<not> ring_enabled c" "cache_whole inc exc (log s) (cached s)" "a \<in> log s"
  shows "cache_whole inc exc (log s) (store_answer c inc exc cd a s)"
proof (cases "snd (snd (host_scrape c inc exc cd (env_at s) a))")
  case None
  then show ?thesis using assms(2) by (simp add: store_answer_def)
next
  case (Some u)
  obtain data where data: "data = map (\<lambda>h. filter_host_labels inc exc (host_labels h)) (fst a)" by simp
  have u: "snd a = None" "data \<noteq> []" "u = LocalSet hostsKey data (ExpiresTTL (CacheConfig c))"
    using Some assms(1) by (auto simp: host_scrape_def update_cache_def Let_def data split: if_splits)
  then have "whole_list inc exc (log s) data"
    using assms(3) data by (cases a) (auto simp: whole_list_def)
  then have "cache_whole inc exc (log s) (Set (clock s) hostsKey data (ExpiresTTL (CacheConfig c)) (cached s))"
    using assms(2) by (simp add: cache_whole_def Set_def Get_def update_conv')
  then show ?thesis
    unfolding store_answer_def Some option.case u(3) by (simp add: apply_update_def env_at_def)
qed

text \<open>The three cases of the \<open>select\<close> are those of Collector.\<close>

lemma collect_waiting:
  assumes "read_cache hostsKey c cd e = Inr (found, expired, data)" "\<not> found \<or> expired"
  shows "HostCollector_Collect desc_ok lk c inc exc cd e a r
    = emit desc_ok (race_samples lk r @ respond c (race_data data (scraped_data inc exc a) r) (race_error (snd a \<noteq> None) r))"
  by (simp only: HostCollector_Collect_def host_scrape_def Let_def collect_scrape [OF assms] scraped_data_def)

lemma finish_ok:
  assumes "job_ok desc_ok lk inc exc cd as got None (Waiting c e data)" "a \<in> as \<or> a = ([], None)" "r = Finished \<longrightarrow> got = Some a"
    and "earlier = race_samples lk r" "d = race_data data (scraped_data inc exc a) r" "err = race_error (snd a \<noteq> None) r"
  shows "job_ok desc_ok lk inc exc cd as got (Some r) (finish desc_ok c e earlier d err)"
proof -
  obtain found expired where "read_cache hostsKey c cd e = Inr (found, expired, data)" "\<not> found \<or> expired"
    using assms(1) by (auto simp: job_ok_def)
  from collect_waiting [OF this] have out: "emit desc_ok (earlier @ respond c d err) = HostCollector_Collect desc_ok lk c inc exc cd e a r"
    using assms(4-6) by simp
  have "cache_whole inc exc as (local_cache e)" using assms(1) by (simp add: job_ok_def)
  with assms(2,3) show ?thesis unfolding finish_def out job_ok_def job.case by blast
qed

lemma arrive_ok:
  assumes "cache_whole inc exc as (local_cache e)"
  shows "job_ok desc_ok lk inc exc cd as got None (arrive desc_ok c cd e)"
  using assms
  by (auto simp: arrive_def job_ok_def HostCollector_Collect_def collect_def split: sum.splits if_splits)

lemma own_answer:
  assumes "vars_ok lk inc exc as p v"
  obtains a where "a \<in> as \<or> a = ([], None)" "hostStatus v \<noteq> None \<longrightarrow> hostStatus v = Some a" "errVal v \<longleftrightarrow> snd a \<noteq> None"
proof (cases "hostStatus v")
  case None
  then show ?thesis using that [of "([], None)"] assms by (simp add: vars_ok_def)
next
  case (Some a)
  then show ?thesis using that [of a] assms by (simp add: vars_ok_def)
qed

lemma job_ok_got:
  assumes "job_ok desc_ok lk inc exc cd as None ans j"
  shows "job_ok desc_ok lk inc exc cd as got ans j"
proof (cases j)
  case (Served c e out)
  with assms obtain a r where "cache_whole inc exc as (local_cache e)" "ans = Some r" "a \<in> as \<or> a = ([], None)"
      "r \<noteq> Finished" "out = HostCollector_Collect desc_ok lk c inc exc cd e a r"
    unfolding job_ok_def by (simp only: job.case) (metis option.distinct(1))
  then show ?thesis unfolding Served job_ok_def job.case by blast
qed (use assms in \<open>simp_all add: job_ok_def\<close>)

lemma system_step_inv:
  assumes "system_step desc_ok lk inc exc cd s t" "list_all (\<lambda>c. \<not> ring_enabled c) cs" "system_inv desc_ok lk inc exc cd cs s"
    and "scrape_reach lk (length cs) (running s)"
  shows "system_inv desc_ok lk inc exc cd cs t"
proof -
  note same = same_requestsD [OF system_invD(1) [OF assms(3)]]
  have same': "same_requests cs t" using system_step_same [OF assms(1) system_invD(1) [OF assms(3)]] .
  note whole = system_invD(2) [OF assms(3)]
  note ok = system_invD(3,4) [OF assms(3)]
  note frame = system_inv_step [OF assms(3) same']
  have env: "local_cache (env_at s) = cached s" by (simp add: env_at_def)
  show ?thesis
    using assms(1)
  proof (cases rule: system_step.cases)
    case (tick t')
    have "request_ok desc_ok lk inc exc cd (s\<lparr>clock := t'\<rparr>) = request_ok desc_ok lk inc exc cd s"
      by (simp add: request_ok_def fun_eq_iff)
    then show ?thesis using assms(3) same' tick(1) by (simp add: system_inv_def)
  next
    case (arrives i c)
    then have i: "i < length cs" using same(2) by simp
    from ok(2) [OF i] have "answered (calls (running s) ! i) = None" using arrives(4) by (simp add: job_ok_def)
    with arrive_ok [of inc exc "log s" "env_at s" desc_ok lk cd "hostStatus (vars s ! i)" c] whole
    show ?thesis
      by (intro frame [OF _ _ i]) (use arrives(1) ok(1) [OF i] same(2) i env in \<open>simp_all add: system_ops\<close>)
  next
    case (takes_lock i)
    then have i: "i < length cs" using same(2) by simp
    show ?thesis
      by (intro frame [OF _ _ i])
        (use takes_lock(1,5,6) ok [OF i] whole same(3,4) i in \<open>simp_all add: system_ops calls_update vars_simps\<close>)
  next
    case (is_rejected i)
    then have i: "i < length cs" using same(2) by simp
    show ?thesis
      by (intro frame [OF _ _ i])
        (use is_rejected(1,5,6) ok [OF i] whole same(3,4) i in \<open>simp_all add: system_ops calls_update vars_simps\<close>)
  next
    case (starts i)
    then have i: "i < length cs" using same(2) by simp
    show ?thesis
      by (intro frame [OF _ _ i])
        (use starts(1,5,6) ok [OF i] whole same(3,4) i in \<open>simp_all add: system_ops calls_update vars_simps\<close>)
  next
    case (asks i a)
    then have i: "i < length cs" using same(2) by simp
    have more: "log s \<subseteq> insert a (log s)" by blast
    have v: "vars_ok lk inc exc (insert a (log s)) Scraped ((vars s ! i)\<lparr>hostStatus := Some a, errVal := (snd a \<noteq> None)\<rparr>)"
      using ok(1) [OF i] asks(4) by (cases a) (auto simp: vars_simps)
    have "hostStatus (vars s ! i) = None" using ok(1) [OF i] asks(4) by (auto simp: vars_simps)
    with job_ok_mono [OF ok(2) [OF i] more]
    have j: "job_ok desc_ok lk inc exc cd (insert a (log s)) (Some a) (answered (calls (running s) ! i)) (jobs s ! i)"
      by (simp add: job_ok_got)
    show ?thesis
      by (intro frame [OF _ _ i])
        (use asks(1) v j more cache_whole_mono [OF whole more] same(3,4) i in \<open>simp_all add: system_ops calls_update\<close>)
  next
    case (puts i a)
    then have i: "i < length cs" using same(2) by simp
    have "a \<in> log s" using ok(1) [OF i] puts(5) by (simp add: vars_ok_def)
    moreover have "\<not> ring_enabled (request_of (jobs s ! i))"
      using assms(2) i same(5) by (simp add: list_all_length)
    ultimately have stored: "cache_whole inc exc (log s) (store_answer (request_of (jobs s ! i)) inc exc cd a s)"
      using store_answer_whole [OF _ whole] by blast
    have v: "vars_ok lk inc exc (log s) Published ((vars s ! i)\<lparr>v_result := Some (scraped_data inc exc a)\<rparr>)"
      using ok(1) [OF i] puts(4,5) by (simp add: vars_simps)
    show ?thesis
      by (intro frame [OF _ _ i])
        (use puts(1) v stored ok(2) [OF i] same(3,4) i in \<open>simp_all add: system_ops calls_update\<close>)
  next
    case (ends i)
    then have i: "i < length cs" using same(2) by simp
    show ?thesis
      by (intro frame [OF _ _ i])
        (use ends(1,4) ok [OF i] whole same(3,4) i in \<open>simp_all add: system_ops calls_update vars_simps\<close>)
  next
    case (gets_result i c e data scraped)
    then have i: "i < length cs" using same(2) by simp
    obtain a where a: "a \<in> log s \<or> a = ([], None)" "hostStatus (vars s ! i) \<noteq> None \<longrightarrow> hostStatus (vars s ! i) = Some a"
        "errVal (vars s ! i) \<longleftrightarrow> snd a \<noteq> None"
      using own_answer [OF ok(1) [OF i]] .
    have got: "hostStatus (vars s ! i) = Some a" "scraped = scraped_data inc exc a"
        "v_sent (vars s ! i) = race_samples lk Finished"
      using ok(1) [OF i] gets_result(5) a(2) by (auto simp: vars_simps race_samples_def split: if_splits)
    have w: "job_ok desc_ok lk inc exc cd (log s) (hostStatus (vars s ! i)) None (Waiting c e data)"
      using ok(2) [OF i] gets_result(4) waiting_unanswered by metis
    have j: "job_ok desc_ok lk inc exc cd (log s) (hostStatus (vars s ! i)) (Some Finished)
        (finish desc_ok c e (v_sent (vars s ! i)) (if scraped \<noteq> [] then (scraped, False, True) else (data, False, False)) (errVal (vars s ! i)))"
      using w a(1) by (rule finish_ok) (use got a(3) in \<open>simp_all add: race_data_def race_error_def\<close>)
    show ?thesis
      by (intro frame [OF _ _ i])
        (use gets_result(1) j ok(1) [OF i] whole same(2,4) i in \<open>simp_all add: set_job_def calls_update\<close>)
  next
    case (gets_inflight i c e data)
    then have i: "i < length cs" using same(2) by simp
    have pc: "scraper (calls (running s) ! i) = Rejected" using ok(1) [OF i] gets_inflight(5) by (simp add: vars_ok_def)
    have lk: "lk" using scrape_reach_inv [OF assms(4)] pc i by (simp add: scrape_inv_def)
    have got: "hostStatus (vars s ! i) = None" "\<not> errVal (vars s ! i)" "v_sent (vars s ! i) = race_samples lk Blocked"
      using ok(1) [OF i] pc lk by (auto simp: vars_simps race_samples_def)
    have w: "job_ok desc_ok lk inc exc cd (log s) (hostStatus (vars s ! i)) None (Waiting c e data)"
      using ok(2) [OF i] gets_inflight(4) waiting_unanswered by metis
    have j: "job_ok desc_ok lk inc exc cd (log s) (hostStatus (vars s ! i)) (Some Blocked)
        (finish desc_ok c e (v_sent (vars s ! i)) (data, False, False) (errVal (vars s ! i)))"
      using w by (rule finish_ok [where a = "([], None)"]) (use got in \<open>simp_all add: race_data_def race_error_def\<close>)
    show ?thesis
      by (intro frame [OF _ _ i])
        (use gets_inflight(1) j ok(1) [OF i] whole same(2,4) i in \<open>simp_all add: set_job_def calls_update\<close>)
  next
    case (times_out i c e data err)
    then have i: "i < length cs" using same(2) by simp
    let ?r = "Deadline err (sent_by lk (scraper (calls (running s) ! i)))"
    obtain a where a: "a \<in> log s \<or> a = ([], None)" "hostStatus (vars s ! i) \<noteq> None \<longrightarrow> hostStatus (vars s ! i) = Some a"
        "errVal (vars s ! i) \<longleftrightarrow> snd a \<noteq> None"
      using own_answer [OF ok(1) [OF i]] .
    have sent: "v_sent (vars s ! i) = race_samples lk ?r"
      using ok(1) [OF i] by (simp add: vars_ok_def race_samples_def sent_by_def)
    have w: "job_ok desc_ok lk inc exc cd (log s) (hostStatus (vars s ! i)) None (Waiting c e data)"
      using ok(2) [OF i] times_out(4) waiting_unanswered by metis
    have j: "job_ok desc_ok lk inc exc cd (log s) (hostStatus (vars s ! i)) (Some ?r)
        (finish desc_ok c e (v_sent (vars s ! i)) (data, True, False) err)"
      using w a(1) by (rule finish_ok) (use sent a(3) times_out(5) in \<open>auto simp only: race_data_def race_error_def race.case\<close>)
    show ?thesis
      by (intro frame [OF _ _ i])
        (use times_out(1) j ok(1) [OF i] whole same(2,4) i in \<open>simp_all add: set_job_def calls_update\<close>)
  next
    case (closes i)
    then have i: "i < length cs" using same(2) by simp
    show ?thesis
      by (intro frame [OF _ _ i])
        (use closes(1) ok [OF i] whole same(3,4) i in \<open>simp_all add: calls_update\<close>)
  qed
qed

lemma init_vars_ok: "vars_ok lk inc exc {} Starting init_vars"
  by (simp add: vars_simps init_vars_def)

lemma system_reach_inv:
  assumes "system_reach desc_ok lk inc exc cd cs s" "list_all (\<lambda>c. \<not> ring_enabled c) cs"
  shows "system_inv desc_ok lk inc exc cd cs s \<and> scrape_reach lk (length cs) (running s)"
  using assms(1)
proof (induction rule: system_reach.induct)
  case (start t)
  have "request_ok desc_ok lk inc exc cd (init_system cs t) i" if "i < length cs" for i
    using that init_vars_ok by (simp add: request_ok_def init_system_def init_scrapes_def job_ok_def)
  then show ?case
    by (simp add: system_inv_def init_system_def same_requests_def comp_def cache_whole_def NewLocalCache_def Get_def scrape_reach.start)
      (simp add: init_scrapes_def)
next
  case (step s s')
  then have "system_inv desc_ok lk inc exc cd cs s" "scrape_reach lk (length cs) (running s)" by simp_all
  with system_step_inv [OF step.hyps(2) assms(2)] system_step_scrapes [OF step.hyps(2)] show ?case
    by (metis scrape_reach.step)
qed

lemma read_whole:
  assumes "read_cache key c cd e = Inr (found, expired, data)" "\<not> ring_enabled c" "key = hostsKey"
    and "cache_whole inc exc as (local_cache e)"
  shows "data = [] \<or> whole_list inc exc as data"
  using assms by (auto simp: read_cache_def read_local_def cache_whole_def Let_def split: if_splits option.splits)

lemma job_ok_given:
  assumes "job_ok desc_ok lk inc exc cd as got ans j" "j = AtOnce c e out \<or> j = Served c e out"
  shows "\<exists>a r. out = HostCollector_Collect desc_ok lk c inc exc cd e a r \<and> (a \<in> as \<or> a = ([], None))"
  using assms(2)
proof (rule disjE)
  assume "j = AtOnce c e out"
  then have "out = HostCollector_Collect desc_ok lk c inc exc cd e ([], None) Finished" using assms(1) by (simp add: job_ok_def)
  then show ?thesis by blast
next
  assume "j = Served c e out"
  then show ?thesis using assms(1) unfolding job_ok_def by (simp only: job.case) metis
qed

text \<open>C4: Whatever requests share the in-process cache, in whatever order they read it, scrape, are answered
  and store their results: the list of hosts in it is always everything that foreman answered to one of
  them, without an error. A list that is partial, empty or put together from two answers is never in it.\<close>

theorem cached_list_is_whole:
  assumes "system_reach desc_ok lk inc exc cd cs s" "list_all (\<lambda>c. \<not> ring_enabled c) cs"
    and "Get (cached s) hostsKey = Some v"
  shows "\<exists>hosts. (hosts, None) \<in> log s \<and> hosts \<noteq> []
    \<and> Value v = map (\<lambda>h. filter_host_labels inc exc (host_labels h)) hosts"
  using system_reach_inv [OF assms(1,2)] assms(3) by (simp add: system_inv_def cache_whole_def whole_list_def)

text \<open>C5: And no such request exports a mixture of lists: when its error gauge is 0, it was given no host at all, or
  the labels of exactly the hosts of one answer of foreman without an error (its own, or one that another
  request asked for and stored).\<close>

theorem served_list_is_whole:
  assumes "system_reach desc_ok lk inc exc cd cs s" "list_all (\<lambda>c. \<not> ring_enabled c) cs" "i < length cs"
    and "jobs s ! i = AtOnce c e (Returns samples) \<or> jobs s ! i = Served c e (Returns samples)"
    and "ScrapeError False \<in> set samples"
  shows "{l. Info l \<in> set samples} = {}
    \<or> (\<exists>hosts. (hosts, None) \<in> log s \<and> {l. Info l \<in> set samples} = (\<lambda>h. filter_host_labels inc exc (host_labels h)) ` set hosts)"
proof -
  note inv = system_invD [OF conjunct1 [OF system_reach_inv [OF assms(1,2)]]]
  note ok = inv(4) [OF assms(3)]
  have "request_of (jobs s ! i) = c" using assms(4) by auto
  then have ring: "\<not> ring_enabled c"
    using assms(2,3) same_requestsD(5) [OF inv(1) assms(3)] by (auto simp: list_all_length)
  have whole: "cache_whole inc exc (log s) (local_cache e)" using ok assms(4) by (auto simp: job_ok_def)
  obtain a r where out: "HostCollector_Collect desc_ok lk c inc exc cd e a r = Returns samples"
      and own: "a = ([], None) \<or> a \<in> log s"
    using job_ok_given [OF ok assms(4)] by metis
  obtain found expired data where read: "read_cache hostsKey c cd e = Inr (found, expired, data)"
      and given: "{l. Info l \<in> set samples} \<in> {{}, set data} \<or> r = Finished \<and> snd a = None
        \<and> {l. Info l \<in> set samples} = (\<lambda>h. filter_host_labels inc exc (host_labels h)) ` set (fst a)"
    using hosts_without_error [OF out assms(5)] by blast
  from given consider "{l. Info l \<in> set samples} = {}" | "{l. Info l \<in> set samples} = set data"
    | "r = Finished" "snd a = None" "{l. Info l \<in> set samples} = (\<lambda>h. filter_host_labels inc exc (host_labels h)) ` set (fst a)"
    unfolding insert_iff empty_iff by satx
  then show ?thesis
  proof cases
    case 2
    with read_whole [OF read ring refl whole] show ?thesis by (auto simp: whole_list_def)
  next
    case 3
    then show ?thesis using own by (cases a) auto
  qed blast
qed

text \<open>C27: The statements of a request and its goroutine, with the variable and the channels they share, do what
  Collector's \<open>Collect\<close> says in one step, in every interleaving with any number of other requests: the
  goroutines move as those of ScrapeLock, and what a request exports after its \<open>select\<close> is the
  collector's answer for its own settings, for the cache as it was when the request arrived, for the case
  of the \<open>select\<close> that came first, and, when that was the result, for what foreman answered to its own
  goroutine; its error gauge is right although \<open>errVal\<close> is shared without a lock.\<close>

theorem request_served_by_own_scrape:
  assumes "system_reach desc_ok lk inc exc cd cs s" "list_all (\<lambda>c. \<not> ring_enabled c) cs" "i < length cs"
    and "jobs s ! i = Served c e out"
  shows "scrape_reach lk (length cs) (running s) \<and> c = cs ! i
    \<and> (\<exists>a r. answered (calls (running s) ! i) = Some r \<and> out = HostCollector_Collect desc_ok lk c inc exc cd e a r
          \<and> (a \<in> log s \<or> a = ([], None)) \<and> (r = Finished \<longrightarrow> hostStatus (vars s ! i) = Some a))"
proof -
  have reach: "system_inv desc_ok lk inc exc cd cs s" "scrape_reach lk (length cs) (running s)"
    using system_reach_inv [OF assms(1,2)] by simp_all
  note inv = system_invD [OF reach(1)]
  have "c = cs ! i" using same_requestsD(5) [OF inv(1) assms(3)] assms(4) by simp
  with inv(4) [OF assms(3)] assms(4) reach(2) show ?thesis unfolding job_ok_def by (simp only: job.case) metis
qed

section \<open>A run\<close>

text \<open>One request, one host: it finds nothing in the cache, asks, stores, and is answered with the result.\<close>

definition one_call :: "pc \<Rightarrow> race option \<Rightarrow> scrapes" where
  "one_call p r = \<lparr>calls = [\<lparr>scraper = p, answered = r, ch_closed = False\<rparr>], holder = None, late_send = False, crashed = False\<rparr>"

definition run_labels :: "Host \<Rightarrow> labels" where
  "run_labels h = filter_host_labels None None (host_labels h)"

definition run_samples :: "Host \<Rightarrow> sample list" where
  "run_samples h = [Info (run_labels h), ScrapeError False, ScrapeTimeout False, ExpiredCache False]"

definition run_env :: env where
  "run_env = \<lparr>now = 1000, leader = Inr False, kv_entry = None, local_cache = NewLocalCache\<rparr>"

definition run_at :: "pc \<Rightarrow> race option \<Rightarrow> job \<Rightarrow> host_answer option \<Rightarrow> labels list option \<Rightarrow> labels list MemCache \<Rightarrow> system" where
  "run_at p r j got res mc =
     \<lparr>running = one_call p r, jobs = [j],
      vars = [\<lparr>hostStatus = got, errVal = False, v_result = res, v_inflight = False, v_sent = []\<rparr>],
      log = set_option got, cached = mc, clock = 1000\<rparr>"

definition run_cache :: "Host \<Rightarrow> labels list MemCache" where
  "run_cache h = Set 1000 hostsKey [run_labels h] 100 NewLocalCache"

definition run_end :: "Host \<Rightarrow> system" where
  "run_end h = run_at Published (Some Finished) (Served example_collector run_env (Returns (run_samples h)))
     (Some ([h], None)) (Some [run_labels h]) (run_cache h)"

lemma run_arrives: "arrive (\<lambda>_. True) example_collector example_codec run_env = Waiting example_collector run_env []"
  by (simp add: arrive_def read_cache_def example_collector_def run_env_def read_local_def Get_def NewLocalCache_def)

lemma run_finish:
  "finish (\<lambda>_. True) example_collector run_env [] ([run_labels h], False, True) False
    = Served example_collector run_env (Returns (run_samples h))"
  by (simp add: finish_def respond_cases emit_def run_samples_def) (simp add: example_collector_def)

lemma run_store:
  assumes "cached s = NewLocalCache" "clock s = 1000"
  shows "store_answer example_collector None None example_codec ([h], None) s = run_cache h"
proof -
  have "snd (snd (host_scrape example_collector None None example_codec (env_at s) ([h], None)))
      = Some (LocalSet hostsKey [run_labels h] 100)"
    by (simp add: host_scrape_def update_cache_def run_labels_def Let_def) (simp add: example_collector_def)
  then show ?thesis
    using assms by (simp add: store_answer_def apply_update_def) (simp add: env_at_def run_cache_def)
qed

lemmas run_simps = run_at_def one_call_def scrape_ops system_ops

lemma run_reach: "system_reach (\<lambda>_. True) False None None example_codec [example_collector] (run_end h)"
proof -
  let ?reach = "system_reach (\<lambda>_. True) False None None example_codec [example_collector]"
  let ?a = "([h], None) :: host_answer"
  let ?w = "Waiting example_collector run_env []"
  have env: "env_at (run_at p r j g res NewLocalCache) = run_env" for p r j g res by (simp add: env_at_def run_env_def run_at_def)
  have "?reach (init_system [example_collector] 1000)" by (rule system_reach.start)
  then have r0: "?reach (run_at Starting None (Coming example_collector) None None NewLocalCache)"
    by (simp add: init_system_def init_scrapes_def init_vars_def run_at_def one_call_def)
  have r1: "?reach (run_at Starting None ?w None None NewLocalCache)"
    using system_reach.step [OF r0 system_step.arrives [of _ 0 example_collector]] run_arrives
    by (simp add: env) (simp add: run_simps)
  have r2: "?reach (run_at Scraping None ?w None None NewLocalCache)"
    using system_reach.step [OF r1 system_step.starts [of _ 0]] by (simp add: run_simps)
  have r3: "?reach (run_at Scraped None ?w (Some ?a) None NewLocalCache)"
    using system_reach.step [OF r2 system_step.asks [of _ 0 _ _ _ _ _ ?a]] by (simp add: run_simps)
  have r4: "?reach (run_at Published None ?w (Some ?a) (Some [run_labels h]) (run_cache h))"
    using system_reach.step [OF r3 system_step.puts [of _ 0 ?a]] run_store [of "run_at Scraped None ?w (Some ?a) None NewLocalCache" h]
    by (simp add: run_at_def) (simp add: one_call_def scrape_ops system_ops scraped_data_def run_labels_def)
  show ?thesis
    using system_reach.step [OF r4 system_step.gets_result [of _ 0 example_collector run_env "[]" "[run_labels h]"]] run_finish [of h]
    unfolding run_end_def by (simp add: run_at_def) (simp add: one_call_def scrape_ops set_job_def)
qed

lemma run_no_ring: "list_all (\<lambda>c. \<not> ring_enabled c) [example_collector]"
  by (simp add: example_collector_def)

definition run_host :: Host where
  "run_host = example_host 7 ''a''"

theorem cached_list_is_whole_witness:
  "\<exists>hosts. (hosts, None) \<in> log (run_end run_host) \<and> hosts \<noteq> []
    \<and> [run_labels run_host] = map (\<lambda>h. filter_host_labels None None (host_labels h)) hosts"
  using cached_list_is_whole [OF run_reach run_no_ring, of run_host]
  by (simp add: run_end_def run_at_def run_cache_def Set_def Get_def)

theorem served_list_is_whole_witness:
  "\<exists>hosts. (hosts, None) \<in> log (run_end run_host) \<and> {run_labels run_host} = (\<lambda>h. filter_host_labels None None (host_labels h)) ` set hosts"
proof -
  have "{l. Info l \<in> set (run_samples run_host)} = {run_labels run_host}" "ScrapeError False \<in> set (run_samples run_host)"
    by (auto simp: run_samples_def)
  then show ?thesis
    using served_list_is_whole [OF run_reach run_no_ring, of 0 run_host example_collector run_env "run_samples run_host"]
    by (simp add: run_end_def run_at_def)
qed

theorem request_served_by_own_scrape_witness:
  "\<exists>r. scrape_reach False 1 (running (run_end run_host)) \<and> answered (calls (running (run_end run_host)) ! 0) = Some r
    \<and> Returns (run_samples run_host) = HostCollector_Collect (\<lambda>_. True) False example_collector None None example_codec run_env ([run_host], None) r"
proof -
  have run: "jobs (run_end run_host) ! 0 = Served example_collector run_env (Returns (run_samples run_host))"
      "hostStatus (vars (run_end run_host) ! 0) = Some ([run_host], None)"
      "answered (calls (running (run_end run_host)) ! 0) = Some Finished"
    by (simp_all add: run_end_def run_at_def one_call_def)
  have "0 < length [example_collector]" by simp
  from request_served_by_own_scrape [OF run_reach run_no_ring this run(1)]
  show ?thesis unfolding run(2,3) by force
qed

end
