(* ===== verification/FactSearch.thy ===== *)
theory FactSearch
  imports ForemanTypes
begin

text \<open>
  The query sent to \<open>/api/v2/fact_values\<close> (foreman/factvalues.go): quoting of fact names,
  assembly of the scoped search, its encoded length, and the cut of the fleet into batches
  whose search fits the request line.
\<close>

section \<open>Quoting fact names\<close>

text \<open>The characters scoped\_search's tokenizer treats as syntax, as the code lists them.\<close>

definition search_special :: string where
  "search_special = [CHR '' '', CHR 0x22, CHR 0x27, CHR ''('', CHR '')'', CHR ''^'', CHR ''!'',
     CHR ''~'', CHR ''<'', CHR ''>'', CHR ''='', CHR ''&'', CHR ''|'', CHR '','', CHR ''-'',
     CHR 0x5C, CHR 0x60]"

definition escape_quoted :: "char \<Rightarrow> string" where
  "escape_quoted c =
     (if c = CHR 0x5C then [CHR 0x5C, CHR 0x5C]
      else if c = CHR 0x22 then [CHR 0x5C, CHR 0x22] else [c])"

definition escapeSearchValue :: "string \<Rightarrow> string" where
  "escapeSearchValue v =
     (if \<not> strings_ContainsAny v search_special then v
      else [CHR 0x22] @ concat (map escape_quoted v) @ [CHR 0x22])"

section \<open>Assembling the search\<close>

definition names_part :: "string list \<Rightarrow> string list" where
  "names_part factNames =
     (let quoted = map escapeSearchValue (filter (\<lambda>n. n \<noteq> []) factNames)
      in if quoted \<noteq> [] then [''fact ^ ('' @ strings_Join quoted '', '' @ '')''] else [])"

definition ids_part :: "string \<Rightarrow> int list \<Rightarrow> string list" where
  "ids_part inOp ids =
     (let s = map FormatInt ids
      in if inOp = ''or''
         then [''('' @ strings_Join (map (\<lambda>x. ''host_id = '' @ x) s) '' or '' @ '')'']
         else [''host_id ^ ('' @ strings_Join s '', '' @ '')''])"

definition buildFactSearch :: "string \<Rightarrow> string \<Rightarrow> int list \<Rightarrow> string list \<Rightarrow> string" where
  "buildFactSearch userSearch inOp ids factNames =
     (let p1 = (if userSearch \<noteq> [] then [''('' @ userSearch @ '')''] else []);
          p2 = (if factNames \<noteq> [] then names_part factNames else []);
          p3 = (if ids \<noteq> [] then ids_part inOp ids else [])
      in strings_Join (p1 @ p2 @ p3) '' and '')"

definition searchURLLen :: "string \<Rightarrow> int" where
  "searchURLLen search = int (length (QueryEscape search))"

section \<open>Two selections, two searches\<close>

text \<open>A text followed by one of the characters \<open>D\<close>, none of which it contains, can be told apart from what follows.\<close>

definition begins :: "char set \<Rightarrow> string \<Rightarrow> bool" where
  "begins D r \<longleftrightarrow> r \<noteq> [] \<and> hd r \<in> D"

lemma begins_Cons [simp]: "begins D (c # r) \<longleftrightarrow> c \<in> D"
  by (simp add: begins_def)

lemma bare_unique:
  assumes "v @ r = w @ r'" "begins D r" "begins D r'" "set v \<inter> D = {}" "set w \<inter> D = {}"
  shows "v = w \<and> r = r'"
proof -
  have bare: "takeWhile (\<lambda>c. c \<notin> D) (x @ t) = x" if "begins D t" "set x \<inter> D = {}" for x t
  proof -
    have "takeWhile (\<lambda>c. c \<notin> D) t = []" using that(1) by (cases t) simp_all
    moreover have "\<And>c. c \<in> set x \<Longrightarrow> c \<notin> D" using that(2) by blast
    ultimately show ?thesis by (simp add: takeWhile_append2)
  qed
  have "v = w" using bare [OF assms(2,4)] bare [OF assms(3,5)] assms(1) by metis
  then show ?thesis using assms(1) by simp
qed

lemma quoted_unique:
  assumes "concat (map escape_quoted v) @ CHR 0x22 # r = concat (map escape_quoted w) @ CHR 0x22 # r'"
  shows "v = w \<and> r = r'"
  using assms
proof (induction v arbitrary: w)
  case Nil
  then show ?case by (cases w) (auto simp: escape_quoted_def split: if_splits)
next
  case (Cons c v)
  then show ?case by (cases w) (auto simp: escape_quoted_def split: if_splits)
qed

lemma not_special_iff: "\<not> strings_ContainsAny v search_special \<longleftrightarrow> set v \<inter> set search_special = {}"
  by (auto simp: strings_ContainsAny_iff)

lemma special_delimiters: "{CHR '','', CHR '')'', CHR 0x22} \<subseteq> set search_special"
  by (simp add: search_special_def)

lemma escaped_unique:
  assumes "escapeSearchValue v @ r = escapeSearchValue w @ r'" "v \<noteq> []" "w \<noteq> []"
    and "begins {CHR '','', CHR '')''} r" "begins {CHR '','', CHR '')''} r'"
  shows "v = w \<and> r = r'"
proof -
  have bare: "set x \<inter> {CHR '','', CHR '')'', CHR 0x22} = {}" if "\<not> strings_ContainsAny x search_special" for x
    using that special_delimiters unfolding not_special_iff by blast
  have first: "hd (x @ t) \<noteq> CHR 0x22" if "\<not> strings_ContainsAny x search_special" "x \<noteq> []" for x t
    using bare [OF that(1)] that(2) by (cases x) auto
  show ?thesis
  proof (cases "strings_ContainsAny v search_special"; cases "strings_ContainsAny w search_special")
    assume "strings_ContainsAny v search_special" "strings_ContainsAny w search_special"
    then show ?thesis using assms(1) quoted_unique [of v r w r'] by (simp add: escapeSearchValue_def)
  next
    assume "strings_ContainsAny v search_special" "\<not> strings_ContainsAny w search_special"
    then have "w @ r' = CHR 0x22 # concat (map escape_quoted v) @ CHR 0x22 # r" "hd (w @ r') \<noteq> CHR 0x22"
      using assms(1) first [of w r'] assms(3) by (simp_all add: escapeSearchValue_def)
    then show ?thesis by simp
  next
    assume "\<not> strings_ContainsAny v search_special" "strings_ContainsAny w search_special"
    then have "v @ r = CHR 0x22 # concat (map escape_quoted w) @ CHR 0x22 # r'" "hd (v @ r) \<noteq> CHR 0x22"
      using assms(1) first [of v r] assms(2) by (simp_all add: escapeSearchValue_def)
    then show ?thesis by simp
  next
    assume n: "\<not> strings_ContainsAny v search_special" "\<not> strings_ContainsAny w search_special"
    then show ?thesis
      using assms(1) bare_unique [OF _ assms(4,5), of v w] bare [OF n(1)] bare [OF n(2)]
      by (simp add: escapeSearchValue_def)
  qed
qed

lemma decimal_inj: "decimal m = decimal n \<Longrightarrow> m = n"
  by (metis digits_val_decimal option.inject)

lemma FormatInt_inj:
  assumes "FormatInt m = FormatInt n"
  shows "m = n"
proof -
  have minus: "decimal k \<noteq> CHR ''-'' # cs" for k cs
    using hd_decimal_digit [of k "CHR ''-''" cs] by (auto simp: is_digit_def)
  show ?thesis
    using assms minus [THEN not_sym] minus decimal_inj [of "nat (- m)" "nat (- n)"] decimal_inj [of "nat m" "nat n"]
    by (auto simp: FormatInt_def split: if_splits)
qed

lemma FormatInt_unique:
  assumes "FormatInt m @ r = FormatInt n @ r'" "begins D r" "begins D r'" "D \<subseteq> {CHR '' '', CHR '','', CHR '')''}"
  shows "m = n \<and> r = r'"
proof -
  have "set (FormatInt k) \<inter> D = {}" for k
  proof -
    have "c \<notin> D" if "is_digit c \<or> c = CHR ''-''" for c
      using that assms(4) by (auto simp: is_digit_def)
    then show ?thesis using decimal_digits by (auto simp: FormatInt_def)
  qed
  from bare_unique [OF assms(1-3) this this] show ?thesis using FormatInt_inj by blast
qed

text \<open>A list of such texts, up to the character that closes it.\<close>

lemma Join_unique:
  assumes "\<And>v w r r'. v \<in> A \<Longrightarrow> w \<in> A \<Longrightarrow> f v @ r = f w @ r' \<Longrightarrow> begins {d, e} r \<Longrightarrow> begins {d, e} r' \<Longrightarrow> v = w \<and> r = r'"
    and "d \<noteq> e" "set vs \<subseteq> A" "set ws \<subseteq> A" "vs \<noteq> []" "ws \<noteq> []"
    and "strings_Join (map f vs) (d # ds) @ e # r = strings_Join (map f ws) (d # ds) @ e # r'"
  shows "vs = ws \<and> r = r'"
  using assms(3-)
proof (induction vs arbitrary: ws)
  case Nil
  then show ?case by simp
next
  case (Cons v vs)
  obtain w ws' where ws: "ws = w # ws'" using Cons.prems(4) by (cases ws) auto
  let ?rest = "\<lambda>xs t. if xs = [] then e # t else (d # ds) @ strings_Join (map f xs) (d # ds) @ e # t"
  have split: "strings_Join (map f (x # xs)) (d # ds) @ e # t = f x @ ?rest xs t" for x xs t
    by (simp add: strings_Join_Cons)
  have begins: "begins {d, e} (?rest xs t)" for xs t by simp
  have head: "v = w" and tail: "?rest vs r = ?rest ws' r'"
    using assms(1) [of v w "?rest vs r" "?rest ws' r'"] Cons.prems(1,2,5) begins unfolding ws split by simp_all
  show ?case
  proof (cases "vs = []"; cases "ws' = []")
    assume "vs \<noteq> []" "ws' \<noteq> []"
    then have "vs = ws' \<and> r = r'"
      using Cons.IH [of ws'] Cons.prems(1,2) tail unfolding ws by simp
    then show ?thesis using head ws by simp
  qed (use tail head ws assms(2) in simp_all)
qed

lemma names_unique:
  assumes "strings_Join (map escapeSearchValue vs) '', '' @ CHR '')'' # r = strings_Join (map escapeSearchValue ws) '', '' @ CHR '')'' # r'"
    and "vs \<noteq> []" "ws \<noteq> []" "\<forall>v \<in> set vs. v \<noteq> []" "\<forall>w \<in> set ws. w \<noteq> []"
  shows "vs = ws \<and> r = r'"
proof (rule Join_unique [where A = "{v. v \<noteq> []}", OF _ _ _ _ assms(2,3,1)])
  fix v w :: string and r r' :: string
  assume "v \<in> {v. v \<noteq> []}" "w \<in> {v. v \<noteq> []}" "escapeSearchValue v @ r = escapeSearchValue w @ r'"
    "begins {CHR '','', CHR '')''} r" "begins {CHR '','', CHR '')''} r'"
  then show "v = w \<and> r = r'" using escaped_unique [of v r w r'] by simp
qed (use assms(4,5) in \<open>simp_all add: subset_iff\<close>)

lemma ids_unique:
  assumes "ids_part inOp ids = ids_part inOp ids'" "ids \<noteq> []" "ids' \<noteq> []"
  shows "ids = ids'"
proof -
  have "ids = ids' \<and> ([] :: string) = []" if "inOp = ''or''"
  proof (rule Join_unique [where A = UNIV and f = "\<lambda>x. ''host_id = '' @ FormatInt x" and d = "CHR '' ''" and ds = "''or ''" and e = "CHR '')''",
        OF _ _ _ _ assms(2,3)])
    fix m n :: int and r r' :: string
    assume "(''host_id = '' @ FormatInt m) @ r = (''host_id = '' @ FormatInt n) @ r'"
      "begins {CHR '' '', CHR '')''} r" "begins {CHR '' '', CHR '')''} r'"
    then show "m = n \<and> r = r'" using FormatInt_unique [of m r n r' "{CHR '' '', CHR '')''}"] by simp
  next
    show "strings_Join (map (\<lambda>x. ''host_id = '' @ FormatInt x) ids) (CHR '' '' # ''or '') @ CHR '')'' # []
        = strings_Join (map (\<lambda>x. ''host_id = '' @ FormatInt x) ids') (CHR '' '' # ''or '') @ CHR '')'' # []"
      using assms(1) that by (simp add: ids_part_def comp_def)
  qed simp_all
  moreover have "ids = ids' \<and> ([] :: string) = []" if "inOp \<noteq> ''or''"
  proof (rule Join_unique [where A = UNIV and f = FormatInt and d = "CHR '',''" and ds = "'' ''" and e = "CHR '')''",
        OF _ _ _ _ assms(2,3)])
    fix m n :: int and r r' :: string
    assume "FormatInt m @ r = FormatInt n @ r'" "begins {CHR '','', CHR '')''} r" "begins {CHR '','', CHR '')''} r'"
    then show "m = n \<and> r = r'" using FormatInt_unique [of m r n r' "{CHR '','', CHR '')''}"] by simp
  next
    show "strings_Join (map FormatInt ids) (CHR '','' # '' '') @ CHR '')'' # []
        = strings_Join (map FormatInt ids') (CHR '','' # '' '') @ CHR '')'' # []"
      using assms(1) that by (simp add: ids_part_def)
  qed simp_all
  ultimately show ?thesis by blast
qed

text \<open>The parts of a search, without the user's own.\<close>

definition own_parts :: "string \<Rightarrow> int list \<Rightarrow> string list \<Rightarrow> string list" where
  "own_parts inOp ids factNames = names_part factNames @ (if ids \<noteq> [] then ids_part inOp ids else [])"

lemma buildFactSearch_parts:
  "buildFactSearch userSearch inOp ids factNames
    = strings_Join ((if userSearch \<noteq> [] then [''('' @ userSearch @ '')''] else []) @ own_parts inOp ids factNames) '' and ''"
  by (simp add: buildFactSearch_def own_parts_def names_part_def Let_def)

lemma parts_shape:
  "names_part ns = (let vs = filter (\<lambda>n. n \<noteq> []) ns
     in if vs = [] then [] else [''fact ^ ('' @ strings_Join (map escapeSearchValue vs) '', '' @ '')''])"
  "\<exists>i. ids_part inOp ids = [i] \<and> i \<noteq> [] \<and> hd i \<noteq> CHR ''f''"
  by (simp_all add: names_part_def ids_part_def Let_def)

lemma own_parts_nonempty: "\<forall>p \<in> set (own_parts inOp ids ns). p \<noteq> []"
  using parts_shape(2) [of inOp ids] by (auto simp: own_parts_def parts_shape(1) Let_def)

lemma Join_empty_iff: "\<forall>p \<in> set ps. p \<noteq> [] \<Longrightarrow> strings_Join ps sep = [] \<longleftrightarrow> ps = []"
  by (cases ps; cases "tl ps") auto

section \<open>Cutting the fleet into batches\<close>

text \<open>The search of a batch, as both \<open>splitHosts\<close> and \<open>GetFactValuesBatch\<close> build it.\<close>

definition batch_search :: "HTTPClient \<Rightarrow> Host list \<Rightarrow> string" where
  "batch_search c hs =
     buildFactSearch (SearchHostFact c) (FactInOperator c) (map ID hs) (FactNames c)"

definition fits_url :: "HTTPClient \<Rightarrow> Host list \<Rightarrow> bool" where
  "fits_url c hs \<longleftrightarrow> searchURLLen (batch_search c hs) \<le> MaxURLLength c"

text \<open>The inner loop: halve \<open>hosts[start:end]\<close> until its search fits or one host is left.\<close>

function shrink_batch :: "HTTPClient \<Rightarrow> Host list \<Rightarrow> int \<Rightarrow> int \<Rightarrow> go_panic + int" where
  "shrink_batch c hosts start end' =
     (if end' > start + 1
      then (case go_slice hosts start end' of
              Inl p \<Rightarrow> Inl p
            | Inr hs \<Rightarrow> if fits_url c hs then Inr end'
                       else shrink_batch c hosts start (start + (end' - start) div 2))
      else Inr end')"
  by pat_completeness auto
termination
  by (relation "measure (\<lambda>(c, hosts, start, end'). nat (end' - start))") auto

declare shrink_batch.simps [simp del]

definition batch_size :: "HTTPClient \<Rightarrow> int" where
  "batch_size c = (let size = i64 (FactBatchSize c) in if size < 1 then 1 else size)"

definition batch_end :: "HTTPClient \<Rightarrow> Host list \<Rightarrow> int \<Rightarrow> int" where
  "batch_end c hosts start =
     (let e = i64 (start + batch_size c)
      in if e > int (length hosts) then int (length hosts) else e)"

lemma batch_size_range: "1 \<le> batch_size c \<and> batch_size c < 2 ^ 63"
  using i64_upper [of "FactBatchSize c"] by (simp add: batch_size_def Let_def)

lemma batch_end_neq:
  assumes "0 \<le> start" "start < int (length hosts)"
  shows "batch_end c hosts start \<noteq> start"
proof (cases "start < 2 ^ 63")
  case True
  then have "i64 (start + batch_size c) \<noteq> start"
    using assms(1) batch_size_range [of c] by (subst i64_nonneg_less) auto
  with assms(2) show ?thesis by (auto simp: batch_end_def Let_def)
next
  case False
  then have "i64 (start + batch_size c) < start"
    using i64_upper [of "start + batch_size c"] by simp
  with assms(2) show ?thesis by (auto simp: batch_end_def Let_def)
qed

lemma shrink_batch_bounds:
  assumes "shrink_batch c hosts start end' = Inr e"
  shows "if end' \<le> start then e = end' else start < e \<and> e \<le> end'"
  using assms
proof (induction c hosts start end' rule: shrink_batch.induct)
  case (1 c hosts start end')
  show ?case
  proof (cases "end' > start + 1")
    case False
    with "1.prems" show ?thesis by (auto simp: shrink_batch.simps [of c hosts start end'])
  next
    case True
    then obtain hs where hs: "go_slice hosts start end' = Inr hs"
      using "1.prems" by (auto simp: shrink_batch.simps [of c hosts start end'] split: sum.splits)
    show ?thesis
    proof (cases "fits_url c hs")
      case True
      with \<open>end' > start + 1\<close> hs "1.prems" show ?thesis
        by (auto simp: shrink_batch.simps [of c hosts start end'])
    next
      case False
      with True hs "1.prems" have "shrink_batch c hosts start (start + (end' - start) div 2) = Inr e"
        by (simp add: shrink_batch.simps [of c hosts start end'])
      with "1.IH" [OF True hs False] True show ?thesis
        by (auto split: if_splits)
    qed
  qed
qed

function split_from :: "HTTPClient \<Rightarrow> Host list \<Rightarrow> int \<Rightarrow> go_panic + Host list list" where
  "split_from c hosts start =
     (if start < int (length hosts)
      then (case shrink_batch c hosts start (batch_end c hosts start) of
              Inl p \<Rightarrow> Inl p
            | Inr e \<Rightarrow>
                (case go_slice hosts start e of
                   Inl p \<Rightarrow> Inl p
                 | Inr b \<Rightarrow>
                     (case split_from c hosts e of
                        Inl p \<Rightarrow> Inl p
                      | Inr bs \<Rightarrow> Inr (b # bs))))
      else Inr [])"
  by pat_completeness auto
termination
proof (relation "measure (\<lambda>(c, hosts, start). nat (int (length hosts) - start))", simp)
  fix c hosts and start :: int and e b
  assume st: "start < int (length hosts)"
    and shrink: "shrink_batch c hosts start (batch_end c hosts start) = Inr e"
    and slice: "go_slice hosts start e = Inr b"
  from slice have "0 \<le> start" "start \<le> e" by (auto simp: go_slice_Inr)
  then have "start < e"
    using shrink_batch_bounds [OF shrink] batch_end_neq [of start hosts c] st
    by (auto split: if_splits)
  with st show "((c, hosts, e), c, hosts, start) \<in> measure (\<lambda>(c, hosts, start). nat (int (length hosts) - start))"
    by simp
qed

declare split_from.simps [simp del]

definition splitHosts :: "HTTPClient \<Rightarrow> Host list \<Rightarrow> go_panic + Host list list" where
  "splitHosts c hosts = split_from c hosts 0"

lemma shrink_batch_total:
  assumes "0 \<le> start" "end' \<le> int (length hosts)"
  shows "\<exists>e. shrink_batch c hosts start end' = Inr e"
  using assms
proof (induction c hosts start end' rule: shrink_batch.induct)
  case (1 c hosts start end')
  show ?case
  proof (cases "end' > start + 1")
    case False
    then show ?thesis by (auto simp: shrink_batch.simps [of c hosts start end'])
  next
    case True
    with "1.prems" obtain hs where hs: "go_slice hosts start end' = Inr hs"
      by (auto simp: go_slice_def)
    with "1.IH" [OF True hs] True "1.prems" show ?thesis
      by (cases "fits_url c hs") (auto simp: shrink_batch.simps [of c hosts start end'])
  qed
qed

text \<open>A shrunk batch fits or is a single host, and the halving stopped at the first size that fits.\<close>

lemma shrink_batch_fits:
  assumes "shrink_batch c hosts start end' = Inr e" "start < end'"
    and "go_slice hosts start e = Inr b"
  shows "e = start + 1 \<or> fits_url c b"
  using assms
proof (induction c hosts start end' rule: shrink_batch.induct)
  case (1 c hosts start end')
  show ?case
  proof (cases "end' > start + 1")
    case False
    with "1.prems" show ?thesis by (auto simp: shrink_batch.simps [of c hosts start end'])
  next
    case True
    then obtain hs where hs: "go_slice hosts start end' = Inr hs"
      using "1.prems" by (auto simp: shrink_batch.simps [of c hosts start end'] split: sum.splits)
    show ?thesis
    proof (cases "fits_url c hs")
      case True
      with \<open>end' > start + 1\<close> hs "1.prems" show ?thesis
        by (auto simp: shrink_batch.simps [of c hosts start end'])
    next
      case False
      with True hs "1.prems" show ?thesis
        by (intro "1.IH" [OF True hs False]) (auto simp: shrink_batch.simps [of c hosts start end'])
    qed
  qed
qed

lemma shrink_batch_halved:
  assumes "shrink_batch c hosts start end' = Inr e" "e \<noteq> end'"
  shows "\<exists>e' hs. e = start + (e' - start) div 2 \<and> go_slice hosts start e' = Inr hs
    \<and> \<not> fits_url c hs \<and> start + 1 < e'"
  using assms
proof (induction c hosts start end' rule: shrink_batch.induct)
  case (1 c hosts start end')
  then have gt: "end' > start + 1"
    by (auto simp: shrink_batch.simps [of c hosts start end'] split: if_splits)
  then obtain hs where hs: "go_slice hosts start end' = Inr hs"
    using "1.prems" by (auto simp: shrink_batch.simps [of c hosts start end'] split: sum.splits)
  have unfit: "\<not> fits_url c hs"
    using "1.prems" gt hs by (auto simp: shrink_batch.simps [of c hosts start end'])
  with gt hs "1.prems" have rec: "shrink_batch c hosts start (start + (end' - start) div 2) = Inr e"
    by (simp add: shrink_batch.simps [of c hosts start end'])
  show ?case
  proof (cases "e = start + (end' - start) div 2")
    case True
    with gt hs unfit show ?thesis by blast
  next
    case False
    with rec show ?thesis by (intro "1.IH" [OF gt hs unfit])
  qed
qed

text \<open>What is true of one batch \<open>b\<close> cut where \<open>rest\<close> hosts follow it.\<close>

definition batch_ok :: "HTTPClient \<Rightarrow> Host list \<Rightarrow> Host list \<Rightarrow> bool" where
  "batch_ok c b rest \<longleftrightarrow>
     b \<noteq> [] \<and> int (length b) \<le> batch_size c \<and> (length b = 1 \<or> fits_url c b)
     \<and> (int (length b) = min (batch_size c) (int (length (b @ rest)))
        \<or> \<not> fits_url c (take (2 * length b) (b @ rest))
        \<or> \<not> fits_url c (take (2 * length b + 1) (b @ rest)))"

fun batches_ok :: "HTTPClient \<Rightarrow> Host list list \<Rightarrow> bool" where
  "batches_ok c [] \<longleftrightarrow> True"
| "batches_ok c (b # bs) \<longleftrightarrow> batch_ok c b (concat bs) \<and> batches_ok c bs"

lemma batch_end_eq:
  assumes "0 \<le> start" "start < int (length hosts)" "batch_size c + int (length hosts) < 2 ^ 63"
  shows "batch_end c hosts start = start + min (batch_size c) (int (length hosts) - start)"
proof -
  have "is_i64 (start + batch_size c)"
    using assms batch_size_range [of c] by (simp add: is_i64_def)
  then show ?thesis by (simp add: batch_end_def Let_def min_def)
qed

lemma half_cases: "int l = x div 2 \<Longrightarrow> nat x = 2 * l \<or> nat x = 2 * l + 1"
  by linarith

lemma cut_batch_ok:
  assumes st: "0 \<le> start" "start < int (length hosts)"
    and room: "batch_size c + int (length hosts) < 2 ^ 63"
    and shrink: "shrink_batch c hosts start (batch_end c hosts start) = Inr e"
    and slice: "go_slice hosts start e = Inr b"
  shows "batch_ok c b (drop (nat e) hosts) \<and> b @ drop (nat e) hosts = drop (nat start) hosts
    \<and> start < e \<and> e \<le> int (length hosts)"
proof -
  let ?m = "min (batch_size c) (int (length hosts) - start)"
  have be: "batch_end c hosts start = start + ?m"
    using st room by (rule batch_end_eq)
  then have gt: "start < batch_end c hosts start"
    using st batch_size_range [of c] by simp
  then have e: "start < e" "e \<le> start + ?m"
    using shrink_batch_bounds [OF shrink] gt by (simp_all flip: be)
  then have b: "b = take (nat (e - start)) (drop (nat start) hosts)" and lb: "int (length b) = e - start"
    using slice length_go_slice [OF slice] by (auto simp: go_slice_Inr)
  have "nat e = nat start + nat (e - start)"
    using st e by simp
  then have cat: "b @ drop (nat e) hosts = drop (nat start) hosts"
    unfolding b by (metis append_take_drop_id drop_drop add.commute)
  have len: "int (length (drop (nat start) hosts)) = int (length hosts) - start"
    using st by simp
  have maximal: "int (length b) = ?m \<or> \<not> fits_url c (take (2 * length b) (drop (nat start) hosts))
      \<or> \<not> fits_url c (take (2 * length b + 1) (drop (nat start) hosts))"
  proof (cases "e = start + ?m")
    case True
    with lb show ?thesis by simp
  next
    case False
    then obtain e' hs where e': "e = start + (e' - start) div 2" "go_slice hosts start e' = Inr hs"
      "\<not> fits_url c hs"
      using shrink_batch_halved [OF shrink] be by auto
    then have "hs = take (nat (e' - start)) (drop (nat start) hosts)" "start \<le> e'"
      by (auto simp: go_slice_Inr)
    moreover have "nat (e' - start) = 2 * length b \<or> nat (e' - start) = 2 * length b + 1"
      using lb e'(1) by (intro half_cases) simp
    ultimately show ?thesis using e'(3) by auto
  qed
  have "length b = 1 \<or> fits_url c b"
    using shrink_batch_fits [OF shrink gt slice] lb by auto
  moreover have "int (length b) \<le> batch_size c" "b \<noteq> []"
    using lb e by auto
  moreover have "int (length (b @ drop (nat e) hosts)) = int (length hosts) - start"
    by (simp only: cat len)
  ultimately show ?thesis
    using maximal e by (simp add: batch_ok_def cat)
qed

lemma split_from_correct:
  assumes "0 \<le> start" "start \<le> int (length hosts)" "batch_size c + int (length hosts) < 2 ^ 63"
  shows "\<exists>bs. split_from c hosts start = Inr bs \<and> concat bs = drop (nat start) hosts \<and> batches_ok c bs"
  using assms
proof (induction c hosts start rule: split_from.induct)
  case (1 c hosts start)
  show ?case
  proof (cases "start < int (length hosts)")
    case False
    with "1.prems" show ?thesis
      by (intro exI [of _ "[]"]) (subst split_from.simps, simp)
  next
    case True
    then have "batch_end c hosts start \<le> int (length hosts)"
      using "1.prems" by (simp add: batch_end_eq)
    then obtain e where e: "shrink_batch c hosts start (batch_end c hosts start) = Inr e"
      using shrink_batch_total "1.prems" by blast
    moreover have "start \<le> e \<and> e \<le> int (length hosts)"
      using shrink_batch_bounds [OF e] \<open>batch_end c hosts start \<le> _\<close> True "1.prems"
        batch_size_range [of c] by (auto simp: batch_end_eq split: if_splits)
    then obtain b where b: "go_slice hosts start e = Inr b"
      using "1.prems" by (auto simp: go_slice_def)
    note cut = cut_batch_ok [OF "1.prems"(1) True "1.prems"(3) e b]
    then obtain bs where "split_from c hosts e = Inr bs" "concat bs = drop (nat e) hosts" "batches_ok c bs"
      using "1.IH" [OF True e b] "1.prems" by auto
    with cut e b True show ?thesis
      by (auto simp: split_from.simps [of c hosts start])
  qed
qed

section \<open>Properties\<close>

text \<open>C13: For every fleet whose size and batch size stay below the integer range, splitHosts returns
  batches that partition the host list in order; each is non-empty, no larger than the batch
  size, and encodes within the URL budget unless it is a single host; and none is shrunk
  needlessly: it has the full batch size (or all that is left), or twice its size did not fit.\<close>

theorem splitHosts_correct:
  assumes "batch_size c + int (length hosts) < 2 ^ 63"
  shows "\<exists>bs. splitHosts c hosts = Inr bs \<and> concat bs = hosts \<and> batches_ok c bs"
  using split_from_correct [of 0 hosts c] assms by (simp add: splitHosts_def)

theorem splitHosts_correct_witness:
  "\<exists>bs. splitHosts default_client [example_host 1 ''a'', example_host 2 ''b''] = Inr bs
     \<and> concat bs = [example_host 1 ''a'', example_host 2 ''b''] \<and> batches_ok default_client bs"
proof -
  have "batch_size default_client = 20"
    by (simp add: batch_size_def default_client_def i64_def)
  then show ?thesis
    by (intro splitHosts_correct) simp
qed

text \<open>With the largest batch size and a fleet whose search exceeds the URL budget, the second
  batch's end wraps around to a negative index and splitHosts panics with a slice out of bounds.\<close>

theorem splitHosts_overflow_panics:
  assumes "FactBatchSize c = 2 ^ 63 - 1" "\<not> fits_url c hosts"
    and "2 \<le> length hosts" "int (length hosts) < 2 ^ 63"
  shows "splitHosts c hosts = Inl SliceBounds"
proof -
  let ?n = "int (length hosts)"
  have size: "batch_size c = 2 ^ 63 - 1"
    using assms(1) by (simp add: batch_size_def i64_def)
  have "batch_end c hosts 0 = ?n"
    using assms(4) by (simp add: batch_end_def size is_i64_def)
  have "?n div 2 \<le> ?n" by linarith
  then obtain e where e: "shrink_batch c hosts 0 (?n div 2) = Inr e"
    using shrink_batch_total [of 0 "?n div 2" hosts c] by auto
  then have "0 < e \<and> e \<le> ?n div 2"
    using shrink_batch_bounds [OF e] assms(3) by (simp split: if_splits)
  then have bounds: "0 < e" "e < ?n" by linarith+
  have "go_slice hosts 0 ?n = Inr hosts"
    by (simp add: go_slice_def)
  then have first: "shrink_batch c hosts 0 (batch_end c hosts 0) = Inr e"
    using e assms(2,3) \<open>batch_end c hosts 0 = ?n\<close> by (simp add: shrink_batch.simps [of c hosts 0 ?n])
  have "batch_end c hosts e = e - 1 - 2 ^ 63"
    using bounds assms(4) by (simp add: batch_end_def size i64_nonneg_less)
  then have second: "split_from c hosts e = Inl SliceBounds"
    using bounds assms(4)
    by (simp add: split_from.simps [of c hosts e] shrink_batch.simps [of c hosts e] go_slice_def)
  show ?thesis
    using first second bounds assms(3) by (auto simp: splitHosts_def split_from.simps [of c hosts 0] go_slice_def)
qed

theorem splitHosts_overflow_panics_witness:
  "splitHosts (default_client\<lparr>FactBatchSize := 2 ^ 63 - 1, MaxURLLength := 20\<rparr>)
     [example_host 1 ''a'', example_host 2 ''b''] = Inl SliceBounds"
proof (rule splitHosts_overflow_panics)
  show "\<not> fits_url (default_client\<lparr>FactBatchSize := 2 ^ 63 - 1, MaxURLLength := 20\<rparr>)
      [example_host 1 ''a'', example_host 2 ''b'']"
    by (simp add: fits_url_def searchURLLen_def batch_search_def default_client_def buildFactSearch_def
        ids_part_def FormatInt_def decimal.simps QueryEscape_def escape_byte_def unreserved_def)
qed (simp_all add: default_client_def)

definition ids_tail :: "string \<Rightarrow> int list \<Rightarrow> string" where
  "ids_tail inOp ids = (if ids = [] then [] else '' and '' @ hd (ids_part inOp ids))"

lemma own_parts_unique:
  assumes "strings_Join (own_parts inOp ids ns) '' and '' = strings_Join (own_parts inOp ids' ns') '' and ''"
  shows "ids = ids' \<and> filter (\<lambda>n. n \<noteq> []) ns = filter (\<lambda>n. n \<noteq> []) ns'"
proof -
  let ?vs = "filter (\<lambda>n. n \<noteq> [])"
  have ids: "\<exists>i. ids_part inOp ks = [i] \<and> i \<noteq> [] \<and> hd i \<noteq> CHR ''f''" for ks by (rule parts_shape(2))
  have whole: "strings_Join (own_parts inOp ks xs) '' and '' =
      (if ?vs xs = [] then (if ks = [] then [] else hd (ids_part inOp ks))
       else ''fact ^ ('' @ strings_Join (map escapeSearchValue (?vs xs)) '', '' @ CHR '')'' # ids_tail inOp ks)" for ks xs
    using ids [of ks] by (auto simp: own_parts_def parts_shape(1) Let_def ids_tail_def)
  have same_ids: "ks = js" if "ks \<noteq> []" "js \<noteq> []" "hd (ids_part inOp ks) = hd (ids_part inOp js)" for ks js
    using ids_unique [OF _ that(1,2), of inOp] ids [of ks] ids [of js] that(3) by auto
  have tails: "ks = js" if "ids_tail inOp ks = ids_tail inOp js" for ks js
    using that same_ids [of ks js] by (auto simp: ids_tail_def split: if_splits)
  have no_f: "(if ks = [] then [] else hd (ids_part inOp ks)) \<noteq> ''fact ^ ('' @ t" for ks t
    using ids [of ks] by auto
  show ?thesis
  proof (cases "?vs ns = []"; cases "?vs ns' = []")
    assume none: "?vs ns = []" "?vs ns' = []"
    then show ?thesis
      using assms ids [of ids] ids [of ids'] same_ids [of ids ids'] unfolding whole by (auto split: if_splits)
  next
    assume "?vs ns = []" "?vs ns' \<noteq> []"
    then show ?thesis using assms no_f unfolding whole by metis
  next
    assume "?vs ns \<noteq> []" "?vs ns' = []"
    then show ?thesis using assms no_f unfolding whole by metis
  next
    assume some: "?vs ns \<noteq> []" "?vs ns' \<noteq> []"
    then have "strings_Join (map escapeSearchValue (?vs ns)) '', '' @ CHR '')'' # ids_tail inOp ids
        = strings_Join (map escapeSearchValue (?vs ns')) '', '' @ CHR '')'' # ids_tail inOp ids'"
      using assms unfolding whole by (simp only: if_False same_append_eq)
    then have "?vs ns = ?vs ns' \<and> ids_tail inOp ids = ids_tail inOp ids'"
      by (rule names_unique) (use some in auto)
    then show ?thesis using tails by blast
  qed
qed

lemma user_part_unique:
  assumes "strings_Join (U @ P) sep = strings_Join (U @ Q) sep" "U = [] \<or> U = [u]" "sep \<noteq> []"
    and "\<forall>p \<in> set P. p \<noteq> []" "\<forall>q \<in> set Q. q \<noteq> []"
  shows "strings_Join P sep = strings_Join Q sep"
proof (cases "U = []")
  case True
  then show ?thesis using assms(1) by simp
next
  case False
  then have U: "U = [u]" using assms(2) by simp
  have "strings_Join (u # X) sep = u \<longleftrightarrow> X = []" for X
    using assms(3) by (cases "X = []") (simp_all add: strings_Join_Cons)
  then have "P = [] \<longleftrightarrow> Q = []" using assms(1) unfolding U by (metis append_Cons append_Nil)
  then show ?thesis using assms(1) unfolding U by (cases "P = []") (simp_all add: strings_Join_Cons)
qed

text \<open>C31: A search names what it selects without ambiguity: with the same search of the user's, two selections of
  fact names and host ids give the same text only if they select the same ids and the same (non-empty)
  names, whatever characters the names contain, because a name is quoted exactly if it has a space, a
  quotation mark, a backslash, a backquote or one of the characters ( ) ^ ! ~ < > = & | , - in it.\<close>

theorem buildFactSearch_unambiguous:
  "(buildFactSearch userSearch inOp ids names = buildFactSearch userSearch inOp ids' names'
      \<longleftrightarrow> ids = ids' \<and> filter (\<lambda>n. n \<noteq> []) names = filter (\<lambda>n. n \<noteq> []) names')
   \<and> (escapeSearchValue v = v \<longleftrightarrow>
       set v \<inter> {CHR '' '', CHR 0x22, CHR 0x27, CHR ''('', CHR '')'', CHR ''^'', CHR ''!'', CHR ''~'', CHR ''<'', CHR ''>'',
         CHR ''='', CHR ''&'', CHR ''|'', CHR '','', CHR ''-'', CHR 0x5C, CHR 0x60} = {})"
proof
  let ?U = "if userSearch \<noteq> [] then [''('' @ userSearch @ '')''] else []"
  show "buildFactSearch userSearch inOp ids names = buildFactSearch userSearch inOp ids' names'
      \<longleftrightarrow> ids = ids' \<and> filter (\<lambda>n. n \<noteq> []) names = filter (\<lambda>n. n \<noteq> []) names'"
  proof
    assume "buildFactSearch userSearch inOp ids names = buildFactSearch userSearch inOp ids' names'"
    then have "strings_Join (own_parts inOp ids names) '' and '' = strings_Join (own_parts inOp ids' names') '' and ''"
      unfolding buildFactSearch_parts
      by (rule user_part_unique [where U = ?U and u = "''('' @ userSearch @ '')''"]) (simp_all add: own_parts_nonempty)
    then show "ids = ids' \<and> filter (\<lambda>n. n \<noteq> []) names = filter (\<lambda>n. n \<noteq> []) names'" by (rule own_parts_unique)
  next
    assume "ids = ids' \<and> filter (\<lambda>n. n \<noteq> []) names = filter (\<lambda>n. n \<noteq> []) names'"
    then show "buildFactSearch userSearch inOp ids names = buildFactSearch userSearch inOp ids' names'"
      by (simp add: buildFactSearch_parts own_parts_def parts_shape(1))
  qed
next
  have "length v < length (concat (map escape_quoted v)) + 2"
    by (induction v) (auto simp: escape_quoted_def)
  then have "[CHR 0x22] @ concat (map escape_quoted v) @ [CHR 0x22] \<noteq> v"
    by (metis add_2_eq_Suc' length_Cons length_append_singleton less_irrefl append_Cons append_Nil)
  then have "escapeSearchValue v = v \<longleftrightarrow> set v \<inter> set search_special = {}"
    by (simp only: escapeSearchValue_def not_special_iff split: if_split) blast
  then show "escapeSearchValue v = v \<longleftrightarrow>
       set v \<inter> {CHR '' '', CHR 0x22, CHR 0x27, CHR ''('', CHR '')'', CHR ''^'', CHR ''!'', CHR ''~'', CHR ''<'', CHR ''>'',
         CHR ''='', CHR ''&'', CHR ''|'', CHR '','', CHR ''-'', CHR 0x5C, CHR 0x60} = {}"
    by (simp only: search_special_def list.set)
qed

text \<open>A name with a quotation mark and a comma in it is not two names.\<close>

theorem buildFactSearch_unambiguous_witness:
  "buildFactSearch ''os = x'' ''^'' [7, 12] [[CHR ''a'', CHR 0x22, CHR '','', CHR '' '', CHR 0x22, CHR ''b'']]
    \<noteq> buildFactSearch ''os = x'' ''^'' [7, 12] [''a'', ''b'']"
  unfolding buildFactSearch_unambiguous [THEN conjunct1] by simp

end
