(* ===== verification/ForemanHttp.thy ===== *)
theory ForemanHttp
  imports ForemanTypes
begin

text \<open>
  The requests of the client (foreman/foreman.go, foreman/factvalues.go): how each URL and its
  headers are built, how an answer becomes a value or an error, and which counter it moves.
  The network with retryablehttp's retries is the parameter \<open>tr\<close>: a function from a request
  to the final answer. One collection sends every request at most once, so a function loses
  nothing.
\<close>

section \<open>JSON values\<close>

text \<open>
  A body is its text and the JSON value the text denotes (\<open>None\<close>: not JSON). \<open>JInt\<close> is a
  number literal without fraction and exponent, \<open>JNum\<close> any other.
\<close>

datatype json = JNull | JBool bool | JInt int | JNum string | JStr string
  | JArr "json list" | JObj "(string \<times> json) list"

record http_body =
  body_text :: string
  body_json :: "json option"

record http_response =
  StatusCode :: int
  Body :: "string + http_body"

record http_request =
  req_method :: string
  req_base :: string
  req_path :: string
  req_query :: string
  req_auth :: "string \<times> string"
  req_headers :: "(string \<times> string) list"

type_synonym transport = "http_request \<Rightarrow> string + http_response"

section \<open>Decoding the envelopes (encoding/json)\<close>

text \<open>
  \<open>json.Unmarshal\<close> into the envelopes: \<open>null\<close> leaves a scalar as it is and empties a map,
  slice or pointer; a field is matched without regard to case; unknown fields are skipped; a
  value of the wrong type or an integer outside 64 bits is an error (\<open>None\<close>; what else was
  decoded is then never read).
\<close>

definition lower :: "char \<Rightarrow> char" where
  "lower c = (let n = (of_char c :: nat) in if 65 \<le> n \<and> n \<le> 90 then char_of (n + 32) else c)"

fun json_int :: "int \<Rightarrow> json \<Rightarrow> int option" where
  "json_int old JNull = Some old"
| "json_int old (JInt n) = (if is_i64 n then Some n else None)"
| "json_int old _ = None"

fun json_int_ptr :: "json \<Rightarrow> int option option" where
  "json_int_ptr JNull = Some None"
| "json_int_ptr (JInt n) = (if is_i64 n then Some (Some n) else None)"
| "json_int_ptr _ = None"

fun json_string :: "string \<Rightarrow> json \<Rightarrow> string option" where
  "json_string old JNull = Some old"
| "json_string old (JStr s) = Some s"
| "json_string old _ = None"

fun json_entries :: "(json \<Rightarrow> 'v option) \<Rightarrow> (string \<times> json) list \<Rightarrow> (string, 'v) gomap
    \<Rightarrow> (string, 'v) gomap option" where
  "json_entries elem [] m = Some m"
| "json_entries elem ((k, j) # kjs) m =
     (case elem j of None \<Rightarrow> None | Some v \<Rightarrow> json_entries elem kjs (AList.update k v m))"

fun json_map :: "(json \<Rightarrow> 'v option) \<Rightarrow> (string, 'v) gomap \<Rightarrow> json \<Rightarrow> (string, 'v) gomap option" where
  "json_map elem old JNull = Some []"
| "json_map elem old (JObj kjs) = json_entries elem kjs old"
| "json_map elem old _ = None"

fun json_fields :: "(string \<Rightarrow> json \<Rightarrow> 'r \<Rightarrow> 'r option) \<Rightarrow> (string \<times> json) list \<Rightarrow> 'r \<Rightarrow> 'r option" where
  "json_fields set_field [] r = Some r"
| "json_fields set_field ((k, j) # kjs) r =
     (case set_field (map lower k) j r of None \<Rightarrow> None | Some r' \<Rightarrow> json_fields set_field kjs r')"

fun json_struct :: "(string \<Rightarrow> json \<Rightarrow> 'r \<Rightarrow> 'r option) \<Rightarrow> 'r \<Rightarrow> json \<Rightarrow> 'r option" where
  "json_struct set_field old JNull = Some old"
| "json_struct set_field old (JObj kjs) = json_fields set_field kjs old"
| "json_struct set_field old _ = None"

definition set_Host_field :: "string \<Rightarrow> json \<Rightarrow> Host \<Rightarrow> Host option" where
  "set_Host_field k j h =
     (if k = ''id'' then map_option (\<lambda>x. h\<lparr>ID := x\<rparr>) (json_int (ID h) j)
      else if k = ''name'' then map_option (\<lambda>x. h\<lparr>Name := x\<rparr>) (json_string (Name h) j)
      else if k = ''global_status_label''
      then map_option (\<lambda>x. h\<lparr>GlobalStatusLabel := x\<rparr>) (json_string (GlobalStatusLabel h) j)
      else if k = ''configuration_status_label''
      then map_option (\<lambda>x. h\<lparr>ConfigurationStatusLabel := x\<rparr>) (json_string (ConfigurationStatusLabel h) j)
      else if k = ''build_status_label''
      then map_option (\<lambda>x. h\<lparr>BuildStatusLabel := x\<rparr>) (json_string (BuildStatusLabel h) j)
      else if k = ''organization_name''
      then map_option (\<lambda>x. h\<lparr>OrganizationName := x\<rparr>) (json_string (OrganizationName h) j)
      else if k = ''environment_name''
      then map_option (\<lambda>x. h\<lparr>EnvironmentName := x\<rparr>) (json_string (EnvironmentName h) j)
      else if k = ''operatingsystem_name''
      then map_option (\<lambda>x. h\<lparr>OperatingSystemName := x\<rparr>) (json_string (OperatingSystemName h) j)
      else if k = ''owner_name'' then map_option (\<lambda>x. h\<lparr>OwnerName := x\<rparr>) (json_string (OwnerName h) j)
      else if k = ''location_name''
      then map_option (\<lambda>x. h\<lparr>LocationName := x\<rparr>) (json_string (LocationName h) j)
      else if k = ''model_name'' then map_option (\<lambda>x. h\<lparr>ModelName := x\<rparr>) (json_string (ModelName h) j)
      else if k = ''hostgroup_name''
      then map_option (\<lambda>x. h\<lparr>HostgroupName := x\<rparr>) (json_string (HostgroupName h) j)
      else Some h)"

fun json_hosts :: "json \<Rightarrow> Host list option" where
  "json_hosts JNull = Some []"
| "json_hosts (JArr js) = those (map (json_struct set_Host_field zero_Host) js)"
| "json_hosts _ = None"

definition set_HostResponse_field :: "string \<Rightarrow> json \<Rightarrow> HostResponse \<Rightarrow> HostResponse option" where
  "set_HostResponse_field k j r =
     (if k = ''total'' then map_option (\<lambda>x. r\<lparr>Total := x\<rparr>) (json_int (Total r) j)
      else if k = ''subtotal'' then map_option (\<lambda>x. r\<lparr>Subtotal := x\<rparr>) (json_int_ptr j)
      else if k = ''page'' then map_option (\<lambda>x. r\<lparr>Page := x\<rparr>) (json_int (Page r) j)
      else if k = ''per_page'' then map_option (\<lambda>x. r\<lparr>PerPage := x\<rparr>) (json_int (PerPage r) j)
      else if k = ''results'' then map_option (\<lambda>x. r\<lparr>Results := x\<rparr>) (json_hosts j)
      else Some r)"

definition decode_HostResponse :: "json \<Rightarrow> HostResponse option" where
  "decode_HostResponse = json_struct set_HostResponse_field zero_HostResponse"

definition set_HostFactsResponse_field :: "string \<Rightarrow> json \<Rightarrow> HostFactsResponse \<Rightarrow> HostFactsResponse option" where
  "set_HostFactsResponse_field k j r =
     (if k = ''total'' then map_option (\<lambda>x. r\<lparr>FTotal := x\<rparr>) (json_int (FTotal r) j)
      else if k = ''page'' then map_option (\<lambda>x. r\<lparr>FPage := x\<rparr>) (json_int (FPage r) j)
      else if k = ''per_page'' then map_option (\<lambda>x. r\<lparr>FPerPage := x\<rparr>) (json_int (FPerPage r) j)
      else if k = ''results''
      then map_option (\<lambda>x. r\<lparr>FResults := x\<rparr>) (json_map (json_map (json_string []) []) (FResults r) j)
      else Some r)"

definition decode_HostFactsResponse :: "json \<Rightarrow> HostFactsResponse option" where
  "decode_HostFactsResponse = json_struct set_HostFactsResponse_field zero_HostFactsResponse"

text \<open>A decoded map has distinct keys, whatever the body repeats.\<close>

lemma json_entries_wf: "json_entries elem kjs m = Some m' \<Longrightarrow> wf_map m \<Longrightarrow> wf_map m'"
  by (induction elem kjs m rule: json_entries.induct) (auto split: option.splits)

lemma json_map_wf: "json_map elem old j = Some m \<Longrightarrow> wf_map old \<Longrightarrow> wf_map m"
  by (cases j) (auto dest: json_entries_wf)

lemma json_entries_values:
  assumes "json_entries elem kjs m = Some m'"
    and "\<And>j v. elem j = Some v \<Longrightarrow> P v" and "\<forall>e \<in> set m. P (snd e)"
  shows "\<forall>e \<in> set m'. P (snd e)"
  using assms
proof (induction elem kjs m rule: json_entries.induct)
  case (2 elem k j kjs m)
  then obtain v where v: "elem j = Some v" "json_entries elem kjs (AList.update k v m) = Some m'"
    by (auto split: option.splits)
  then have "\<forall>e \<in> set (AList.update k v m). P (snd e)"
    using "2.prems"(2,3) by (intro update_all_values) auto
  with "2.IH" v "2.prems" show ?case by blast
qed auto

definition wf_hosts_facts :: "hosts_facts \<Rightarrow> bool" where
  "wf_hosts_facts hf \<longleftrightarrow> wf_map hf \<and> (\<forall>e \<in> set hf. wf_map (snd e))"

lemma json_fields_inv:
  assumes "json_fields set_field kjs r = Some r'"
    and "\<And>k j r r'. set_field k j r = Some r' \<Longrightarrow> P r \<Longrightarrow> P r'" and "P r"
  shows "P r'"
  using assms(1,3)
proof (induction kjs arbitrary: r)
  case (Cons kj kjs)
  then show ?case
    by (cases kj) (auto split: option.splits dest: assms(2))
qed simp

lemma facts_map_wf:
  assumes "json_map (json_map (json_string []) []) old j = Some hf" "wf_hosts_facts old"
  shows "wf_hosts_facts hf"
proof (cases j)
  case (JObj kjs)
  then have ent: "json_entries (json_map (json_string []) []) kjs old = Some hf"
    using assms(1) by simp
  moreover have "\<forall>e \<in> set hf. wf_map (snd e)"
    using ent assms(2) by (intro json_entries_values [OF ent]) (auto simp: wf_hosts_facts_def dest: json_map_wf)
  ultimately show ?thesis
    using assms(2) json_entries_wf [OF ent] by (simp add: wf_hosts_facts_def)
qed (use assms in \<open>auto simp: wf_hosts_facts_def\<close>)

lemma decode_HostFactsResponse_wf:
  assumes "decode_HostFactsResponse j = Some r"
  shows "wf_hosts_facts (FResults r)"
proof (cases j)
  case (JObj kjs)
  then have "json_fields set_HostFactsResponse_field kjs zero_HostFactsResponse = Some r"
    using assms by (simp add: decode_HostFactsResponse_def)
  then show ?thesis
  proof (rule json_fields_inv)
    show "wf_hosts_facts (FResults zero_HostFactsResponse)"
      by (simp add: zero_HostFactsResponse_def wf_hosts_facts_def)
  qed (auto simp: set_HostFactsResponse_field_def facts_map_wf split: if_splits)
next
  case JNull
  with assms show ?thesis
    by (auto simp: decode_HostFactsResponse_def zero_HostFactsResponse_def wf_hosts_facts_def)
qed (use assms in \<open>simp_all add: decode_HostFactsResponse_def\<close>)

section \<open>Requests\<close>

text \<open>\<open>newJSONRequest\<close>, and the same six lines in \<open>GetHosts\<close> and \<open>GetHostFacts\<close>.\<close>

definition newJSONRequest :: "HTTPClient \<Rightarrow> string \<Rightarrow> (string \<times> string) list \<Rightarrow> http_request" where
  "newJSONRequest c path params =
     \<lparr>req_method = ''GET'', req_base = BaseURL c, req_path = path, req_query = Values_Encode params,
      req_auth = (Username c, Password c),
      req_headers = [(''Accept'', ''application/json''), (''Content-Type'', ''application/json'')]\<rparr>"

text \<open>
  \<open>DoWithContext\<close>: a transport error, a body that cannot be read, a body that is no JSON of
  the expected shape, or, outside the statuses 200 to 204, the body itself as the error.
\<close>

definition DoWithContext :: "transport \<Rightarrow> (json \<Rightarrow> 'r option) \<Rightarrow> string \<Rightarrow> http_request \<Rightarrow> go_error + 'r" where
  "DoWithContext tr decode userAgent r =
     (case tr (r\<lparr>req_headers := req_headers r @ [(''User-Agent'', userAgent)]\<rparr>) of
        Inl e \<Rightarrow> Inl (Transport e)
      | Inr res \<Rightarrow>
          (case Body res of
             Inl e \<Rightarrow> Inl (ReadBody e)
           | Inr b \<Rightarrow>
               (if 200 \<le> StatusCode res \<and> StatusCode res \<le> 204
                then (case body_json b of
                        None \<Rightarrow> Inl JsonError
                      | Some j \<Rightarrow> (case decode j of None \<Rightarrow> Inl JsonError | Some x \<Rightarrow> Inr x))
                else Inl (ErrorBody (body_text b)))))"

definition status_label :: "go_error + 'r \<Rightarrow> string" where
  "status_label r = (case r of Inl _ \<Rightarrow> ''failed'' | Inr _ \<Rightarrow> ''success'')"

text \<open>\<open>version.Version\<close> is set at link time and empty in a plain build, which is modelled.\<close>

definition UserAgent :: string where
  "UserAgent = ''foreman_exporter/''"

definition GetHosts :: "HTTPClient \<Rightarrow> transport \<Rightarrow> string \<Rightarrow> int \<Rightarrow> int \<Rightarrow> (go_error + HostResponse) \<times> metric list" where
  "GetHosts c tr thin page perPage =
     (let params = [(''search'', Search c)] @ (if thin = ''true'' then [(''thin'', thin)] else [])
                   @ [(''page'', FormatInt page), (''per_page'', FormatInt perPage)];
          res = DoWithContext tr decode_HostResponse UserAgent (newJSONRequest c ''api/v2/hosts'' params)
      in (res, [Inc ''hostsCounterMetric'' [status_label res]]))"

definition GetHostFacts :: "HTTPClient \<Rightarrow> transport \<Rightarrow> int \<Rightarrow> int \<Rightarrow> int \<Rightarrow> (go_error + HostFactsResponse) \<times> metric list" where
  "GetHostFacts c tr hostID page perPage =
     (let params = [(''search'', SearchHostFact c), (''page'', FormatInt page), (''per_page'', FormatInt perPage)];
          res = DoWithContext tr decode_HostFactsResponse UserAgent
                  (newJSONRequest c (''api/v2/hosts/'' @ FormatInt hostID @ ''/facts'') params)
      in (res, [Inc ''hostsFactsCounterMetric'' [status_label res]]))"

definition GetFactValues :: "HTTPClient \<Rightarrow> transport \<Rightarrow> string \<Rightarrow> int \<Rightarrow> int \<Rightarrow> (go_error + HostFactsResponse) \<times> metric list" where
  "GetFactValues c tr search page perPage =
     (let params = [(''search'', search), (''page'', FormatInt page), (''per_page'', FormatInt perPage)];
          res = DoWithContext tr decode_HostFactsResponse UserAgent (newJSONRequest c ''api/v2/fact_values'' params)
      in (res, [ObserveElapsed ''factValuesHistVecMetric'' [status_label res],
                Inc ''factValuesCounterMetric'' [status_label res]]))"

lemma DoWithContext_decoded:
  "DoWithContext tr decode ua r = Inr x \<Longrightarrow> \<exists>j. decode j = Some x"
  by (auto simp: DoWithContext_def split: sum.splits if_splits option.splits)

lemma GetFactValues_wf: "GetFactValues c tr search page perPage = (Inr resp, ms) \<Longrightarrow> wf_hosts_facts (FResults resp)"
  by (auto simp: GetFactValues_def Let_def dest!: DoWithContext_decoded intro: decode_HostFactsResponse_wf)

lemma GetHostFacts_wf: "GetHostFacts c tr i page perPage = (Inr resp, ms) \<Longrightarrow> wf_hosts_facts (FResults resp)"
  by (auto simp: GetHostFacts_def Let_def dest!: DoWithContext_decoded intro: decode_HostFactsResponse_wf)

text \<open>A network that refuses every connection, for examples.\<close>

definition down_server :: transport where
  "down_server _ = Inl ''connection refused''"

end
