(* ===== verification/FactBatch.thy ===== *)
theory FactBatch
  imports FactSearch ForemanHttp
begin

text \<open>
  One batch of host ids (foreman/factvalues.go): the page loop of \<open>GetFactValuesBatch\<close>, the
  hosts it finds no fact for, and the client-side filter of fact names.
\<close>

section \<open>The page loop\<close>

definition defaultFactPerPage :: int where "defaultFactPerPage = 10000"
definition defaultFactMaxPages :: int where "defaultFactMaxPages = 10"
definition defaultHostListPerPage :: int where "defaultHostListPerPage = 5000"

text \<open>Merging a page's facts of one host into what earlier pages brought for it.\<close>

definition merge_host :: "string \<times> facts \<Rightarrow> hosts_facts \<Rightarrow> hosts_facts" where
  "merge_host e acc =
     (let cur = (case map_of acc (fst e) of None \<Rightarrow> [] | Some m \<Rightarrow> m)
      in AList.update (fst e) (map_store_all cur (snd e)) acc)"

definition merge_page :: "hosts_facts \<Rightarrow> hosts_facts \<Rightarrow> hosts_facts" where
  "merge_page acc page = fold merge_host page acc"

definition page_rows :: "hosts_facts \<Rightarrow> int" where
  "page_rows page = int (sum_list (map (\<lambda>e. length (snd e)) page))"

definition missingHosts :: "Host list \<Rightarrow> hosts_facts \<Rightarrow> string list" where
  "missingHosts hosts facts = map Name (filter (\<lambda>h. map_of facts (Name h) = None) hosts)"

text \<open>
  The loop over the pages. \<open>get page\<close> is one call of \<open>GetFactValues\<close>. The page counter is
  not wrapped: it would take \<open>2 ^ 63\<close> requests to overflow it.
\<close>

function batch_pages :: "(int \<Rightarrow> (go_error + HostFactsResponse) \<times> metric list) \<Rightarrow> Host list \<Rightarrow> int \<Rightarrow> int
    \<Rightarrow> int \<Rightarrow> BatchFactsResult \<Rightarrow> BatchFactsResult \<times> metric list" where
  "batch_pages get hosts perPage maxPages page res =
     (if page \<le> maxPages
      then (case get page of
              (Inl e, ms) \<Rightarrow> (res\<lparr>Err := Some e, Pages := page - 1\<rparr>, ms)
            | (Inr resp, ms) \<Rightarrow>
                (let effPerPage = (if FPerPage resp \<le> 0 then perPage else FPerPage resp);
                     res = res\<lparr>Facts := merge_page (Facts res) (FResults resp), Pages := page\<rparr>;
                     rows = page_rows (FResults resp);
                     ms = ms @ (if effPerPage < perPage then [Inc ''factValuesClampedMetric'' []] else [])
                             @ [Observe ''factValuesRowsMetric'' rows,
                                ObserveRatio ''factValuesPageFillMetric'' rows effPerPage]
                 in if rows < effPerPage
                    then (res\<lparr>Missing := missingHosts hosts (Facts res)\<rparr>, ms)
                    else (case batch_pages get hosts perPage maxPages (page + 1) res of
                            (res, ms') \<Rightarrow> (res, ms @ [Inc ''factValuesPagesContinuedMetric'' []] @ ms'))))
      else (res\<lparr>Truncated := True, Missing := missingHosts hosts (Facts res)\<rparr>, []))"
  by pat_completeness auto
termination
  by (relation "measure (\<lambda>(get, hosts, perPage, maxPages, page, res). nat (maxPages + 1 - page))") auto

declare batch_pages.simps [simp del]

text \<open>One unfolding of the loop, without what it records.\<close>

lemma fst_batch_pages:
  "fst (batch_pages get hosts perPage maxPages page res) =
     (if page \<le> maxPages
      then (case fst (get page) of
              Inl e \<Rightarrow> res\<lparr>Err := Some e, Pages := page - 1\<rparr>
            | Inr resp \<Rightarrow>
                (let F = merge_page (Facts res) (FResults resp)
                 in if page_rows (FResults resp) < (if FPerPage resp \<le> 0 then perPage else FPerPage resp)
                    then res\<lparr>Facts := F, Pages := page, Missing := missingHosts hosts F\<rparr>
                    else fst (batch_pages get hosts perPage maxPages (page + 1) (res\<lparr>Facts := F, Pages := page\<rparr>))))
      else res\<lparr>Truncated := True, Missing := missingHosts hosts (Facts res)\<rparr>)"
  by (subst batch_pages.simps) (simp add: Let_def split: prod.splits sum.splits)

definition fact_per_page :: "HTTPClient \<Rightarrow> int" where
  "fact_per_page c = (if FactPerPage c \<le> 0 then defaultFactPerPage else FactPerPage c)"

definition fact_max_pages :: "HTTPClient \<Rightarrow> int" where
  "fact_max_pages c = (let m = i64 (FactMaxPages c) in if m \<le> 0 then defaultFactMaxPages else m)"

definition GetFactValuesBatch :: "HTTPClient \<Rightarrow> transport \<Rightarrow> Host list \<Rightarrow> BatchFactsResult \<times> metric list" where
  "GetFactValuesBatch c tr hosts =
     (let res = \<lparr>HostIDs = map ID hosts, Facts = [], Missing = [], Pages = 0, Truncated = False, Err = None\<rparr>
      in batch_pages (\<lambda>page. GetFactValues c tr (batch_search c hosts) page (fact_per_page c))
           hosts (fact_per_page c) (fact_max_pages c) 1 res)"

section \<open>The filter of fact names\<close>

definition filterFacts :: "HTTPClient \<Rightarrow> facts \<Rightarrow> facts" where
  "filterFacts c data =
     filter (\<lambda>(k, v).
       \<not> (case IncludeHostFactRegex c of None \<Rightarrow> False | Some matches \<Rightarrow> \<not> matches k)
       \<and> \<not> (case ExcludeHostFactRegex c of None \<Rightarrow> False | Some matches \<Rightarrow> matches k)
       \<and> v \<noteq> []) data"

definition joinCapped :: "string list \<Rightarrow> nat \<Rightarrow> string" where
  "joinCapped names n =
     (if length names \<le> n then strings_Join names '', ''
      else strings_Join (take n names) '', '' @ '' and '' @ FormatInt (int (length names - n)) @ '' more'')"

section \<open>Facts as rows\<close>

text \<open>
  Foreman pages on fact rows: a row is a host, a fact name and a value. A nested map holds the
  rows of \<open>map_of rs\<close> when looking a host and a name up in it gives the row's value.
\<close>

type_synonym fact_row = "(string \<times> string) \<times> string"

definition fact_at :: "hosts_facts \<Rightarrow> string \<times> string \<Rightarrow> string option" where
  "fact_at hf hk = (case map_of hf (fst hk) of None \<Rightarrow> None | Some m \<Rightarrow> map_of m (snd hk))"

definition holds_rows :: "hosts_facts \<Rightarrow> fact_row list \<Rightarrow> bool" where
  "holds_rows hf rs \<longleftrightarrow> wf_hosts_facts hf \<and> (\<forall>e \<in> set hf. snd e \<noteq> []) \<and> fact_at hf = map_of rs"

lemma fact_at_Nil [simp]: "fact_at [] = Map.empty"
  by (simp add: fact_at_def fun_eq_iff)

lemma wf_hosts_facts_Nil [simp]: "wf_hosts_facts []"
  by (simp add: wf_hosts_facts_def)

lemma wf_hosts_facts_Cons:
  "wf_hosts_facts ((h, m) # hf) \<longleftrightarrow> h \<notin> fst ` set hf \<and> wf_map m \<and> wf_hosts_facts hf"
  by (auto simp: wf_hosts_facts_def wf_map_Cons)

lemma wf_hosts_facts_lookup: "wf_hosts_facts hf \<Longrightarrow> map_of hf h = Some m \<Longrightarrow> wf_map m"
  by (force simp: wf_hosts_facts_def dest: map_of_SomeD)

lemma wf_hosts_facts_update:
  "wf_hosts_facts hf \<Longrightarrow> wf_map m \<Longrightarrow> wf_hosts_facts (AList.update h m hf)"
  using update_all_values [of hf wf_map m h] by (simp add: wf_hosts_facts_def)

lemma wf_merge_host: "wf_hosts_facts acc \<Longrightarrow> wf_hosts_facts (merge_host e acc)"
  by (auto simp: merge_host_def Let_def wf_hosts_facts_lookup split: option.splits
      intro!: wf_hosts_facts_update wf_map_store_all)

lemma wf_merge_page: "wf_hosts_facts acc \<Longrightarrow> wf_hosts_facts (merge_page acc page)"
  unfolding merge_page_def by (induction page arbitrary: acc) (auto simp: wf_merge_host)

lemma fact_at_merge_host:
  assumes "wf_map m"
  shows "fact_at (merge_host (h, m) acc) (h', k)
    = (if h' = h then (map_of (case map_of acc h of None \<Rightarrow> [] | Some m' \<Rightarrow> m') ++ map_of m) k
       else fact_at acc (h', k))"
  using assms by (simp add: fact_at_def merge_host_def Let_def map_of_store_all)

lemma fact_at_merge_page:
  assumes "wf_hosts_facts page"
  shows "fact_at (merge_page acc page) = fact_at acc ++ fact_at page"
  using assms
proof (induction page arbitrary: acc)
  case Nil
  show ?case by (simp add: merge_page_def)
next
  case (Cons e page)
  obtain h m where e: "e = (h, m)" by (cases e)
  with Cons.prems have wf: "wf_hosts_facts page" "wf_map m" and new: "map_of page h = None"
    by (auto simp: wf_hosts_facts_Cons map_of_eq_None_iff)
  have "merge_page acc (e # page) = merge_page (merge_host e acc) page"
    by (simp add: merge_page_def)
  then have "fact_at (merge_page acc (e # page)) = fact_at (merge_host e acc) ++ fact_at page"
    using Cons.IH [OF wf(1)] by simp
  also have "\<dots> = fact_at acc ++ fact_at (e # page)"
  proof
    fix hk
    show "(fact_at (merge_host e acc) ++ fact_at page) hk = (fact_at acc ++ fact_at (e # page)) hk"
      using wf new fact_at_merge_host [OF wf(2), of h acc "fst hk" "snd hk"]
      by (cases "map_of page (fst hk)"; cases "map_of acc h")
        (auto simp: e fact_at_def map_add_def split: option.splits)
  qed
  finally show ?case .
qed

lemma dom_merge_page: "fst ` set (merge_page acc page) = fst ` set acc \<union> fst ` set page"
proof (induction page arbitrary: acc)
  case Nil
  show ?case by (simp add: merge_page_def)
next
  case (Cons e page)
  have "fst ` set (merge_host e acc) = insert (fst e) (fst ` set acc)"
    by (simp add: merge_host_def Let_def dom_update)
  with Cons.IH [of "merge_host e acc"] show ?case by (simp add: merge_page_def)
qed

lemma card_fact_at:
  assumes "wf_hosts_facts hf"
  shows "int (card (dom (fact_at hf))) = page_rows hf \<and> finite (dom (fact_at hf))"
  using assms
proof (induction hf)
  case Nil
  show ?case by (simp add: page_rows_def)
next
  case (Cons e hf)
  obtain h m where e: "e = (h, m)" by (cases e)
  with Cons.prems have wf: "wf_hosts_facts hf" "wf_map m" and new: "map_of hf h = None"
    by (auto simp: wf_hosts_facts_Cons map_of_eq_None_iff)
  have split: "dom (fact_at (e # hf)) = Pair h ` dom (map_of m) \<union> dom (fact_at hf)"
    using new by (auto simp: e fact_at_def split: if_splits option.splits)
  have disj: "Pair h ` dom (map_of m) \<inter> dom (fact_at hf) = {}"
    using new by (auto simp: fact_at_def)
  have "card (Pair h ` dom (map_of m)) = length m"
    using wf(2) by (simp add: card_image inj_on_def card_dom_map_of)
  then show ?case
    using Cons.IH [OF wf(1)] disj finite_dom_map_of [of m]
    by (simp add: split card_Un_disjoint) (simp add: page_rows_def e)
qed

lemma page_rows_holds:
  assumes "holds_rows hf rs" "wf_map rs"
  shows "page_rows hf = int (length rs)"
  using card_fact_at [of hf] assms by (simp add: holds_rows_def card_dom_map_of)

section \<open>A server that pages on rows\<close>

text \<open>
  Foreman's documented paging, over the first \<open>m\<close> pages: page \<open>k + 1\<close> holds the rows from
  \<open>k * e\<close> on, \<open>e\<close> of them at most, where \<open>e\<close> is the page size the server applied (its
  echo, or the requested one when it echoes none).
\<close>

definition serves_rows :: "(int \<Rightarrow> (go_error + HostFactsResponse) \<times> metric list) \<Rightarrow> int \<Rightarrow> nat
    \<Rightarrow> nat \<Rightarrow> fact_row list \<Rightarrow> bool" where
  "serves_rows get perPage m e rs \<longleftrightarrow>
     0 < e \<and> wf_map rs \<and>
     (\<forall>k < m. case fst (get (int k + 1)) of
        Inl _ \<Rightarrow> False
      | Inr resp \<Rightarrow> (if FPerPage resp \<le> 0 then perPage else FPerPage resp) = int e
          \<and> holds_rows (FResults resp) (take e (drop (k * e) rs)))"

lemma serves_rowsD:
  assumes "serves_rows get perPage m e rs" "k < m"
  obtains resp ms where "get (int k + 1) = (Inr resp, ms)"
    and "(if FPerPage resp \<le> 0 then perPage else FPerPage resp) = int e"
    and "holds_rows (FResults resp) (take e (drop (k * e) rs))"
proof -
  have served: "case fst (get (int k + 1)) of
      Inl _ \<Rightarrow> False
    | Inr resp \<Rightarrow> (if FPerPage resp \<le> 0 then perPage else FPerPage resp) = int e
        \<and> holds_rows (FResults resp) (take e (drop (k * e) rs))"
    using assms by (simp add: serves_rows_def)
  then obtain resp ms where "get (int k + 1) = (Inr resp, ms)"
    by (cases "get (int k + 1)") (auto split: sum.splits)
  with served that show thesis by simp
qed

lemma wf_map_take: "wf_map rs \<Longrightarrow> wf_map (take n rs)"
  by (simp add: wf_map_def take_map [symmetric])

lemma wf_map_take_drop: "wf_map rs \<Longrightarrow> wf_map (take n (drop m rs))"
  by (simp add: wf_map_def take_map [symmetric] drop_map [symmetric])

lemma merge_page_nonempty:
  assumes "\<forall>e \<in> set acc. snd e \<noteq> []" "\<forall>e \<in> set page. snd e \<noteq> []"
  shows "\<forall>e \<in> set (merge_page acc page). snd e \<noteq> []"
  using assms
proof (induction page arbitrary: acc)
  case Nil
  then show ?case by (simp add: merge_page_def)
next
  case (Cons e page)
  then have "\<forall>e \<in> set (merge_host e acc). snd e \<noteq> []"
    unfolding merge_host_def Let_def
    by (intro update_all_values [where P = "\<lambda>m. m \<noteq> []"]) auto
  with Cons show ?case by (simp add: merge_page_def)
qed

lemma holds_rows_Nil [simp]: "holds_rows [] []"
  by (simp add: holds_rows_def)

lemma holds_rows_host:
  assumes "holds_rows hf rs"
  shows "map_of hf h = None \<longleftrightarrow> h \<notin> fst ` fst ` set rs"
proof
  assume none: "map_of hf h = None"
  show "h \<notin> fst ` fst ` set rs"
  proof
    assume "h \<in> fst ` fst ` set rs"
    then obtain k v where "((h, k), v) \<in> set rs" by auto
    then have "(h, k) \<in> fst ` set rs" by (metis fst_conv imageI)
    then have "map_of rs (h, k) \<noteq> None" by (simp add: map_of_eq_None_iff)
    then have "fact_at hf (h, k) \<noteq> None"
      using assms by (simp add: holds_rows_def)
    with none show False by (simp add: fact_at_def)
  qed
next
  assume none: "h \<notin> fst ` fst ` set rs"
  show "map_of hf h = None"
  proof (rule ccontr)
    assume "map_of hf h \<noteq> None"
    then obtain m where m: "map_of hf h = Some m" by auto
    then obtain k v m' where "m = (k, v) # m'"
      using assms by (cases m) (force simp: holds_rows_def dest: map_of_SomeD)+
    then have "fact_at hf (h, k) = Some v" using m by (simp add: fact_at_def)
    then have "map_of rs (h, k) = Some v" using assms by (simp add: holds_rows_def)
    then show False using none by (force dest: map_of_SomeD)
  qed
qed

lemma next_page_rows:
  assumes "wf_map rs" "holds_rows acc (take n rs)" "holds_rows page (take e (drop n rs))"
  shows "holds_rows (merge_page acc page) (take (n + e) rs)"
proof -
  have "take (n + e) rs = take n rs @ take e (drop n rs)"
    by (rule take_add)
  moreover have "wf_map (take (n + e) rs)"
    using assms(1) by (rule wf_map_take)
  ultimately show ?thesis
    using assms(2,3) merge_page_nonempty [of acc page]
    by (simp add: fact_at_merge_page holds_rows_def map_of_append_distinct wf_merge_page
        del: map_of_append)
qed

text \<open>The loop's effect on a paging server, from the page after the first \<open>k\<close> full ones.\<close>

lemma batch_pages_serves:
  assumes "serves_rows get perPage m e rs" "k \<le> m" "k * e \<le> length rs"
    and "holds_rows (Facts res) (take (k * e) rs)" "Pages res = int k"
  shows "\<exists>F. holds_rows F (take (m * e) rs) \<and>
    fst (batch_pages get hosts perPage (int m) (int k + 1) res) =
      (if length rs < m * e
       then res\<lparr>Facts := F, Missing := missingHosts hosts F, Pages := int (length rs div e) + 1\<rparr>
       else res\<lparr>Facts := F, Missing := missingHosts hosts F, Pages := int m, Truncated := True\<rparr>)"
  using assms(2-)
proof (induction "m - k" arbitrary: k res)
  case 0
  then have "k = m" by simp
  with 0 show ?case
    by (intro exI [of _ "Facts res"]) (simp add: batch_pages.simps)
next
  case (Suc d)
  then have "k < m" by simp
  obtain resp ms where get: "get (int k + 1) = (Inr resp, ms)"
    and eff: "(if FPerPage resp \<le> 0 then perPage else FPerPage resp) = int e"
    and page: "holds_rows (FResults resp) (take e (drop (k * e) rs))"
    using assms(1) \<open>k < m\<close> by (rule serves_rowsD)
  have e: "0 < e" "wf_map rs" using assms(1) by (auto simp: serves_rows_def)
  let ?F = "merge_page (Facts res) (FResults resp)"
  let ?res = "res\<lparr>Facts := ?F, Pages := int k + 1\<rparr>"
  have rows: "page_rows (FResults resp) = int (min e (length rs - k * e))"
    using page_rows_holds [OF page] e by (simp add: wf_map_take_drop min.commute)
  have F: "holds_rows ?F (take (Suc k * e) rs)"
    using next_page_rows [OF e(2) Suc.prems(3) page] by (simp add: add.commute)
  have unfold: "fst (batch_pages get hosts perPage (int m) (int k + 1) res) =
      (if page_rows (FResults resp) < int e
       then ?res\<lparr>Missing := missingHosts hosts ?F\<rparr>
       else fst (batch_pages get hosts perPage (int m) (int k + 1 + 1) ?res))"
    using \<open>k < m\<close> eff
    by (subst batch_pages.simps) (simp add: get Let_def split: prod.splits)
  show ?case
  proof (cases "length rs < Suc k * e")
    case True
    then have short: "page_rows (FResults resp) < int e"
    proof -
      have "length rs - k * e < e" using True Suc.prems(2) e(1) by simp
      with rows show ?thesis by simp
    qed
    have "Suc k * e \<le> m * e" using \<open>k < m\<close> by (intro mult_le_mono1) simp
    then have "length rs < m * e" "take (m * e) rs = take (Suc k * e) rs"
      using True by auto
    moreover have "length rs div e = k"
      using True Suc.prems(2) by (intro div_nat_eqI) (auto simp: algebra_simps)
    ultimately show ?thesis
      using F short unfold by (intro exI [of _ ?F]) (simp add: algebra_simps)
  next
    case False
    then have full: "\<not> page_rows (FResults resp) < int e"
    proof -
      have "e \<le> length rs - k * e" using False by simp
      with rows show ?thesis by simp
    qed
    have "\<exists>G. holds_rows G (take (m * e) rs) \<and>
        fst (batch_pages get hosts perPage (int m) (int (Suc k) + 1) ?res) =
          (if length rs < m * e
           then ?res\<lparr>Facts := G, Missing := missingHosts hosts G, Pages := int (length rs div e) + 1\<rparr>
           else ?res\<lparr>Facts := G, Missing := missingHosts hosts G, Pages := int m, Truncated := True\<rparr>)"
      using Suc.hyps(2) F False \<open>k < m\<close> by (intro Suc.hyps(1)) (auto simp: algebra_simps)
    moreover have "int (Suc k) + 1 = int k + 1 + 1" by simp
    ultimately show ?thesis using full unfold by (auto split: if_splits)
  qed
qed

section \<open>A page that fails\<close>

text \<open>The pages before the failing one were answered and full.\<close>

definition full_page :: "int \<Rightarrow> go_error + HostFactsResponse \<Rightarrow> bool" where
  "full_page perPage r = (case r of
     Inl _ \<Rightarrow> False
   | Inr resp \<Rightarrow> (if FPerPage resp \<le> 0 then perPage else FPerPage resp) \<le> page_rows (FResults resp))"

lemma batch_pages_fails:
  assumes "\<forall>j. page \<le> j \<and> j < q \<longrightarrow> full_page perPage (fst (get j))"
    and "fst (get q) = Inl e" "page \<le> q" "q \<le> maxPages"
  shows "Err (fst (batch_pages get hosts perPage maxPages page res)) = Some e
    \<and> Pages (fst (batch_pages get hosts perPage maxPages page res)) = q - 1"
  using assms(1,3)
proof (induction "nat (q - page)" arbitrary: page res)
  case 0
  then have "page = q" by simp
  with assms(2,4) show ?case by (subst (1 2) fst_batch_pages) simp
next
  case (Suc d)
  then have less: "page < q" by simp
  with Suc.prems have "full_page perPage (fst (get page))" by simp
  then obtain resp where resp: "fst (get page) = Inr resp"
    "\<not> page_rows (FResults resp) < (if FPerPage resp \<le> 0 then perPage else FPerPage resp)"
    by (cases "fst (get page)") (auto simp: full_page_def)
  let ?res = "res\<lparr>Facts := merge_page (Facts res) (FResults resp), Pages := page\<rparr>"
  have "fst (batch_pages get hosts perPage maxPages page res)
      = fst (batch_pages get hosts perPage maxPages (page + 1) ?res)"
    using less assms(4) resp by (subst fst_batch_pages) (simp add: Let_def)
  moreover have "Err (fst (batch_pages get hosts perPage maxPages (page + 1) ?res)) = Some e
      \<and> Pages (fst (batch_pages get hosts perPage maxPages (page + 1) ?res)) = q - 1"
    using Suc less by (intro Suc.hyps(1)) auto
  ultimately show ?case by simp
qed

section \<open>A small server\<close>

text \<open>A server of three facts in pages of two, as JSON, for examples.\<close>

definition two_page_rows :: "fact_row list" where
  "two_page_rows = [((''a'', ''k''), ''1''), ((''a'', ''l''), ''2''), ((''b'', ''k''), ''3'')]"

definition two_page_client :: HTTPClient where
  "two_page_client = default_client\<lparr>FactPerPage := 2, FactMaxPages := 2\<rparr>"

definition json_page :: "(string \<times> (string \<times> json) list) list \<Rightarrow> string + http_response" where
  "json_page hosts = Inr \<lparr>StatusCode = 200, Body = Inr \<lparr>body_text = [],
     body_json = Some (JObj [(''per_page'', JInt 2), (''results'', JObj (map (\<lambda>(h, m). (h, JObj m)) hosts))])\<rparr>\<rparr>"

definition two_page_server :: transport where
  "two_page_server r =
     (if req_query r = Values_Encode [(''search'', batch_search two_page_client [example_host 7 ''a'', example_host 9 ''b'']),
          (''page'', FormatInt 1), (''per_page'', FormatInt 2)]
      then json_page [(''a'', [(''k'', JStr ''1''), (''l'', JStr ''2'')])]
      else json_page [(''b'', [(''k'', JStr ''3'')])])"

text \<open>The same server, whose second page fails.\<close>

definition failing_server :: transport where
  "failing_server r =
     (if req_query r = Values_Encode [(''search'', batch_search two_page_client [example_host 7 ''a'', example_host 9 ''b'']),
          (''page'', FormatInt 1), (''per_page'', FormatInt 2)]
      then json_page [(''a'', [(''k'', JStr ''1''), (''l'', JStr ''2'')])]
      else Inl ''timeout'')"

lemmas eval_fact_page =
  GetFactValues_def DoWithContext_def newJSONRequest_def json_page_def Let_def
  decode_HostFactsResponse_def set_HostFactsResponse_field_def zero_HostFactsResponse_def lower_def
  is_i64_def

lemma Values_Encode_paged:
  "Values_Encode [(''search'', s), (''page'', p), (''per_page'', q)]
    = ''page='' @ QueryEscape p @ ''&per_page='' @ QueryEscape q @ ''&search='' @ QueryEscape s"
  by (simp add: Values_Encode_def QueryEscape_def escape_byte_def unreserved_def)

lemma two_page_answers:
  "fst (GetFactValues two_page_client two_page_server
      (batch_search two_page_client [example_host 7 ''a'', example_host 9 ''b'']) 1 2)
    = Inr \<lparr>FTotal = 0, FPage = 0, FPerPage = 2, FResults = [(''a'', [(''k'', ''1''), (''l'', ''2'')])]\<rparr>"
  "fst (GetFactValues two_page_client two_page_server
      (batch_search two_page_client [example_host 7 ''a'', example_host 9 ''b'']) 2 2)
    = Inr \<lparr>FTotal = 0, FPage = 0, FPerPage = 2, FResults = [(''b'', [(''k'', ''3'')])]\<rparr>"
  "fst (GetFactValues two_page_client failing_server
      (batch_search two_page_client [example_host 7 ''a'', example_host 9 ''b'']) 1 2)
    = Inr \<lparr>FTotal = 0, FPage = 0, FPerPage = 2, FResults = [(''a'', [(''k'', ''1''), (''l'', ''2'')])]\<rparr>"
  "fst (GetFactValues two_page_client failing_server
      (batch_search two_page_client [example_host 7 ''a'', example_host 9 ''b'']) 2 2)
    = Inl (Transport ''timeout'')"
  by (simp_all add: eval_fact_page two_page_server_def failing_server_def Values_Encode_paged
      FormatInt_def decimal.simps QueryEscape_def escape_byte_def unreserved_def)

section \<open>Properties of one batch\<close>

lemma fact_max_pages_pos: "0 < fact_max_pages c"
  by (simp add: fact_max_pages_def defaultFactMaxPages_def Let_def)

text \<open>C12: Against a server that pages its rows as documented (the page size it applied may be smaller than
  the one asked for), a batch collects exactly the first \<open>m * e\<close> rows, where \<open>m\<close> is the page
  limit and \<open>e\<close> the applied page size: all of them, reading one page more than the full ones,
  unless there are at least \<open>m * e\<close>, which it then reports as truncated. The missing hosts are
  those with no row among them.\<close>

theorem GetFactValuesBatch_complete:
  assumes "serves_rows (\<lambda>page. GetFactValues c tr (batch_search c hosts) page (fact_per_page c))
      (fact_per_page c) m e rs"
    and "fact_max_pages c = int m"
  shows "\<exists>res. fst (GetFactValuesBatch c tr hosts) = res \<and> Err res = None
    \<and> holds_rows (Facts res) (take (m * e) rs)
    \<and> Truncated res = (m * e \<le> length rs)
    \<and> Pages res = (if length rs < m * e then int (length rs div e) + 1 else int m)
    \<and> Missing res = map Name (filter (\<lambda>h. Name h \<notin> fst ` fst ` set (take (m * e) rs)) hosts)"
proof -
  let ?res = "\<lparr>HostIDs = map ID hosts, Facts = [], Missing = [], Pages = 0, Truncated = False, Err = None\<rparr>"
  obtain F where F: "holds_rows F (take (m * e) rs)"
    and run: "fst (GetFactValuesBatch c tr hosts) =
      (if length rs < m * e
       then ?res\<lparr>Facts := F, Missing := missingHosts hosts F, Pages := int (length rs div e) + 1\<rparr>
       else ?res\<lparr>Facts := F, Missing := missingHosts hosts F, Pages := int m, Truncated := True\<rparr>)"
    using batch_pages_serves [OF assms(1), of 0 ?res hosts] assms(2)
    by (auto simp: GetFactValuesBatch_def Let_def)
  have "missingHosts hosts F = map Name (filter (\<lambda>h. Name h \<notin> fst ` fst ` set (take (m * e) rs)) hosts)"
    by (simp only: missingHosts_def holds_rows_host [OF F])
  with F run show ?thesis by auto
qed

lemma two_page_limits:
  "fact_per_page two_page_client = 2" "fact_max_pages two_page_client = 2"
  by (simp_all add: fact_per_page_def fact_max_pages_def two_page_client_def default_client_def i64_def)

lemma two_page_serves:
  "serves_rows (\<lambda>page. GetFactValues two_page_client two_page_server
      (batch_search two_page_client [example_host 7 ''a'', example_host 9 ''b'']) page (fact_per_page two_page_client))
    (fact_per_page two_page_client) 2 2 two_page_rows"
proof -
  have rows: "holds_rows [(''a'', [(''k'', ''1''), (''l'', ''2'')])] [((''a'', ''k''), ''1''), ((''a'', ''l''), ''2'')]"
    "holds_rows [(''b'', [(''k'', ''3'')])] [((''b'', ''k''), ''3'')]"
    by (auto simp: holds_rows_def wf_hosts_facts_def wf_map_def fact_at_def fun_eq_iff)
  show ?thesis
    unfolding serves_rows_def two_page_limits two_page_rows_def
    by (simp add: wf_map_def less_2_cases_iff all_conj_distrib imp_disjL two_page_answers rows)
qed

theorem GetFactValuesBatch_complete_witness:
  "\<exists>res. fst (GetFactValuesBatch two_page_client two_page_server [example_host 7 ''a'', example_host 9 ''b'']) = res
    \<and> Err res = None \<and> holds_rows (Facts res) two_page_rows \<and> \<not> Truncated res \<and> Pages res = 2 \<and> Missing res = []"
  using GetFactValuesBatch_complete [OF two_page_serves]
  by (simp add: two_page_limits) (simp add: two_page_rows_def)

text \<open>If the pages before page \<open>q\<close> were answered and full and page \<open>q\<close> fails, the batch
  ends there with that failure as its error.\<close>

theorem GetFactValuesBatch_failed_page:
  assumes "\<forall>j. 1 \<le> j \<and> j < q \<longrightarrow>
      full_page (fact_per_page c) (fst (GetFactValues c tr (batch_search c hosts) j (fact_per_page c)))"
    and "fst (GetFactValues c tr (batch_search c hosts) q (fact_per_page c)) = Inl e"
    and "1 \<le> q" "q \<le> fact_max_pages c"
  shows "Err (fst (GetFactValuesBatch c tr hosts)) = Some e
    \<and> Pages (fst (GetFactValuesBatch c tr hosts)) = q - 1"
  using batch_pages_fails [OF assms] by (simp add: GetFactValuesBatch_def Let_def)

theorem GetFactValuesBatch_failed_page_witness:
  "Err (fst (GetFactValuesBatch two_page_client failing_server [example_host 7 ''a'', example_host 9 ''b'']))
      = Some (Transport ''timeout'')
    \<and> Pages (fst (GetFactValuesBatch two_page_client failing_server [example_host 7 ''a'', example_host 9 ''b''])) = 1"
proof -
  have "full_page 2 (fst (GetFactValues two_page_client failing_server
      (batch_search two_page_client [example_host 7 ''a'', example_host 9 ''b'']) j 2))" if "1 \<le> j" "j < 2" for j
  proof -
    have "j = 1" using that by simp
    then show ?thesis by (simp add: two_page_answers full_page_def page_rows_def)
  qed
  then show ?thesis
    using GetFactValuesBatch_failed_page [of 2 two_page_client failing_server
      "[example_host 7 ''a'', example_host 9 ''b'']" "Transport ''timeout''"]
    by (simp add: two_page_limits two_page_answers)
qed

section \<open>Properties of the filter\<close>

definition fact_kept :: "HTTPClient \<Rightarrow> string \<Rightarrow> string \<Rightarrow> bool" where
  "fact_kept c k v \<longleftrightarrow> v \<noteq> []
     \<and> (\<forall>matches. IncludeHostFactRegex c = Some matches \<longrightarrow> matches k)
     \<and> (\<forall>matches. ExcludeHostFactRegex c = Some matches \<longrightarrow> \<not> matches k)"

interpretation fact_filter: entry_filter "filterFacts c" "fact_kept c" for c
  by unfold_locales
    (auto simp: filterFacts_def map_of_filter_kv fact_kept_def split: option.splits)

text \<open>The filter keeps exactly the facts with a value whose name the include pattern, if there is
  one, matches and the exclude pattern, if there is one, does not; it never changes a value, does
  not depend on the map's iteration order, and filtering twice changes nothing.\<close>

theorem filterFacts_lookup:
  assumes "wf_map m" "wf_map m'" "map_of m = map_of m'"
  shows "map_of (filterFacts c m) k =
      (case map_of m k of None \<Rightarrow> None | Some v \<Rightarrow> if fact_kept c k v then Some v else None)
    \<and> wf_map (filterFacts c m)
    \<and> map_of (filterFacts c m) = map_of (filterFacts c m')
    \<and> map_of (filterFacts c (filterFacts c m)) = map_of (filterFacts c m)"
  by (intro conjI fact_filter.flt_lookup fact_filter.flt_wf fact_filter.flt_contents fact_filter.flt_idem assms)

theorem filterFacts_lookup_witness:
  "map_of (filterFacts (default_client\<lparr>ExcludeHostFactRegex := Some (\<lambda>s. s = ''x'')\<rparr>)
     [(''x'', ''1''), (''y'', ''2''), (''z'', [])]) ''y'' = Some ''2''"
  using filterFacts_lookup [of "[(''x'', ''1''), (''y'', ''2''), (''z'', [])]"
      "[(''x'', ''1''), (''y'', ''2''), (''z'', [])]"
      "default_client\<lparr>ExcludeHostFactRegex := Some (\<lambda>s. s = ''x'')\<rparr>" "''y''"]
  by (simp add: wf_map_def fact_kept_def default_client_def)

end
