(* ===== verification/FanOut.thy ===== *)
theory FanOut
  imports ForemanHttp
begin

text \<open>
  The bounded fan-out that \<open>GetHostWithConcurrency\<close>, \<open>GetHostFactsWithConcurrency\<close>
  (foreman/foreman.go) and \<open>getHostsFactsBulk\<close> (foreman/factvalues.go) share: one goroutine
  per item, a semaphore channel of the client's concurrency, and a collector that takes one
  result of each. The goroutines are a step relation; a run is any interleaving.
\<close>

section \<open>The goroutines\<close>

text \<open>
  A goroutine waits for the semaphore (\<open>Queued\<close>), sends its request (\<open>Running\<close>), hands its
  result over (a rendezvous with the collector's loop, or the mutex-protected update of the
  bulk collection; \<open>Delivered\<close>, still holding its slot) and gives the slot back
  (\<open>Finished\<close>). \<open>arrivals\<close> lists the items in the order their results were taken.
\<close>

datatype worker = Queued | Running | Delivered | Finished

record pool =
  workers :: "worker list"
  arrivals :: "nat list"

definition holds_slot :: "worker \<Rightarrow> bool" where
  "holds_slot w \<longleftrightarrow> w = Running \<or> w = Delivered"

definition in_flight :: "pool \<Rightarrow> nat" where
  "in_flight p = length (filter holds_slot (workers p))"

definition init_pool :: "nat \<Rightarrow> pool" where
  "init_pool n = \<lparr>workers = replicate n Queued, arrivals = []\<rparr>"

inductive pool_step :: "int \<Rightarrow> pool \<Rightarrow> pool \<Rightarrow> bool" for cap :: int where
  acquire: "i < length (workers p) \<Longrightarrow> workers p ! i = Queued \<Longrightarrow> int (in_flight p) < cap \<Longrightarrow>
     pool_step cap p (p\<lparr>workers := (workers p)[i := Running]\<rparr>)"
| deliver: "i < length (workers p) \<Longrightarrow> workers p ! i = Running \<Longrightarrow>
     pool_step cap p (p\<lparr>workers := (workers p)[i := Delivered], arrivals := arrivals p @ [i]\<rparr>)"
| release: "i < length (workers p) \<Longrightarrow> workers p ! i = Delivered \<Longrightarrow>
     pool_step cap p (p\<lparr>workers := (workers p)[i := Finished]\<rparr>)"

inductive_cases pool_stepE: "pool_step cap p q"

inductive pool_reach :: "int \<Rightarrow> nat \<Rightarrow> pool \<Rightarrow> bool" for cap :: int and n :: nat where
  start: "pool_reach cap n (init_pool n)"
| step: "pool_reach cap n p \<Longrightarrow> pool_step cap p q \<Longrightarrow> pool_reach cap n q"

section \<open>Invariant\<close>

definition delivered :: "worker \<Rightarrow> bool" where
  "delivered w \<longleftrightarrow> w = Delivered \<or> w = Finished"

definition pool_inv :: "int \<Rightarrow> nat \<Rightarrow> pool \<Rightarrow> bool" where
  "pool_inv cap n p \<longleftrightarrow>
     length (workers p) = n \<and> int (in_flight p) \<le> max cap 0 \<and> distinct (arrivals p)
     \<and> set (arrivals p) = {i. i < n \<and> delivered (workers p ! i)}"

lemma length_filter_update:
  "i < length xs \<Longrightarrow> length (filter P (xs[i := x])) + (if P (xs ! i) then 1 else 0)
     = length (filter P xs) + (if P x then 1 else 0)"
proof (induction xs arbitrary: i)
  case (Cons y ys)
  then show ?case by (cases i) fastforce+
qed simp

lemma filter_replicate_Queued: "in_flight (init_pool n) = 0"
  by (simp add: in_flight_def init_pool_def holds_slot_def filter_empty_conv)

lemma pool_inv_init: "pool_inv cap n (init_pool n)"
  using filter_replicate_Queued [of n] by (auto simp: pool_inv_def init_pool_def delivered_def)

lemma in_flight_update:
  assumes "workers q = (workers p)[i := w]" "i < length (workers p)"
  shows "in_flight q + (if holds_slot (workers p ! i) then 1 else 0)
     = in_flight p + (if holds_slot w then 1 else 0)"
  using length_filter_update [OF assms(2), of holds_slot w] assms(1) by (simp add: in_flight_def)

lemma delivered_set_update:
  assumes "i < n" "length ws = n"
  shows "{j. j < n \<and> delivered (ws[i := w] ! j)}
     = (if delivered w then insert i {j. j < n \<and> delivered (ws ! j)} else {j. j < n \<and> delivered (ws ! j)} - {i})"
  using assms by (auto simp: nth_list_update)

lemma pool_step_inv:
  assumes "pool_step cap p q" "pool_inv cap n p"
  shows "pool_inv cap n q"
  using assms
proof (cases rule: pool_step.cases)
  case (acquire i)
  then show ?thesis
    using assms(2) in_flight_update [of q p i Running] delivered_set_update [of i n "workers p" Running]
    by (auto simp: pool_inv_def holds_slot_def delivered_def)
next
  case (deliver i)
  then show ?thesis
    using assms(2) in_flight_update [of q p i Delivered]
      delivered_set_update [of i n "workers p" Delivered]
    by (auto simp: pool_inv_def holds_slot_def delivered_def)
next
  case (release i)
  then show ?thesis
    using assms(2) in_flight_update [of q p i Finished]
      delivered_set_update [of i n "workers p" Finished]
    by (auto simp: pool_inv_def holds_slot_def delivered_def)
qed

lemma pool_reach_inv: "pool_reach cap n p \<Longrightarrow> pool_inv cap n p"
  by (induction rule: pool_reach.induct) (auto intro: pool_inv_init pool_step_inv)

section \<open>Progress and termination\<close>

fun weight :: "worker \<Rightarrow> nat" where
  "weight Queued = 3"
| "weight Running = 2"
| "weight Delivered = 1"
| "weight Finished = 0"

definition work_left :: "pool \<Rightarrow> nat" where
  "work_left p = sum_list (map weight (workers p))"

lemma pool_step_less: "pool_step cap p q \<Longrightarrow> work_left q < work_left p"
  by (cases rule: pool_step.cases) (auto simp: work_left_def intro!: sum_list_update_less)

lemma work_left_init: "work_left (init_pool n) = 3 * n"
  by (simp add: work_left_def init_pool_def sum_list_replicate)

lemma pool_progress:
  assumes "1 \<le> cap" "i < length (workers p)" "workers p ! i \<noteq> Finished"
  shows "\<exists>q. pool_step cap p q"
proof (cases "\<exists>j < length (workers p). holds_slot (workers p ! j)")
  case True
  then show ?thesis by (auto simp: holds_slot_def intro: deliver release)
next
  case False
  then have "in_flight p = 0"
    by (auto simp: in_flight_def filter_empty_conv in_set_conv_nth)
  moreover have "workers p ! i = Queued"
    using False assms(2,3) by (cases "workers p ! i") (auto simp: holds_slot_def)
  ultimately show ?thesis
    using assms(1,2) by (intro exI) (rule acquire, auto)
qed

lemma pool_all_delivered:
  assumes "pool_inv cap n p" "\<And>i. i < n \<Longrightarrow> delivered (workers p ! i)"
  shows "mset (arrivals p) = mset [0..<n]"
proof -
  have "set (arrivals p) = set [0..<n]" "distinct (arrivals p)"
    using assms by (auto simp: pool_inv_def)
  then show ?thesis by (metis set_eq_iff_mset_eq_distinct distinct_upt)
qed

lemma length_arrivals_full:
  assumes "pool_inv cap n p" "length (arrivals p) = n"
  shows "mset (arrivals p) = mset [0..<n]"
proof (rule pool_all_delivered [OF assms(1)])
  have sub: "set (arrivals p) \<subseteq> {..<n}" and dist: "distinct (arrivals p)"
    using assms(1) by (auto simp: pool_inv_def)
  have "card (set (arrivals p)) = n"
    using distinct_card [OF dist] assms(2) by simp
  with sub have "set (arrivals p) = {..<n}"
    using card_subset_eq [of "{..<n}" "set (arrivals p)"] by simp
  then show "delivered (workers p ! i)" if "i < n" for i
    using assms(1) that by (auto simp: pool_inv_def)
qed

text \<open>Some run delivers every item.\<close>

lemma pool_run_exists:
  assumes "0 < cap"
  shows "\<exists>p. pool_reach cap n p \<and> length (arrivals p) = n"
proof -
  have "\<exists>q. pool_reach cap n q \<and> (\<forall>r. \<not> pool_step cap q r)" if "pool_reach cap n p" for p
    using that
  proof (induction "work_left p" arbitrary: p rule: less_induct)
    case less
    then show ?case by (metis pool_step_less pool_reach.step)
  qed
  then obtain q where q: "pool_reach cap n q" "\<And>r. \<not> pool_step cap q r"
    using pool_reach.start by blast
  have inv: "pool_inv cap n q" using q(1) by (rule pool_reach_inv)
  have "workers q ! i = Finished" if "i < n" for i
    using pool_progress [of cap i q] q(2) assms inv that by (auto simp: pool_inv_def)
  then have "mset (arrivals q) = mset [0..<n]"
    by (intro pool_all_delivered [OF inv]) (simp add: delivered_def)
  then have "length (arrivals q) = n"
    by (metis diff_zero length_upt size_mset)
  with q(1) show ?thesis by blast
qed

lemma pool_blocked: "cap \<le> 0 \<Longrightarrow> \<not> pool_step cap (init_pool n) q"
  by (auto elim!: pool_stepE simp: init_pool_def in_flight_def holds_slot_def filter_empty_conv)

section \<open>What the caller gets\<close>

text \<open>
  The call as its caller sees it, for the order \<open>arr\<close> in which the results arrived: making
  the semaphore channel panics for a negative capacity; no item means an empty result; with
  capacity zero every send on the semaphore blocks (\<open>pool_blocked\<close>); otherwise the collected
  results, sorted by their index.
\<close>

definition fan_out :: "int \<Rightarrow> nat \<Rightarrow> (nat \<Rightarrow> 'r \<times> metric list) \<Rightarrow> string \<Rightarrow> nat list
    \<Rightarrow> ((nat \<times> 'r) list \<times> metric list) outcome" where
  "fan_out conc n work hist arr =
     (if conc < 0 then Panics MakeChan
      else if n = 0 then Returns ([], [])
      else if conc = 0 then Blocks
      else Returns (sort_key fst (map (\<lambda>i. (i, fst (work i))) arr),
                    concat (map (\<lambda>i. snd (work i)) arr) @ [ObserveElapsed hist []]))"

definition GetHostWithConcurrency :: "HTTPClient \<Rightarrow> transport \<Rightarrow> string \<Rightarrow> int list \<Rightarrow> int \<Rightarrow> nat list
    \<Rightarrow> ((nat \<times> (go_error + HostResponse)) list \<times> metric list) outcome" where
  "GetHostWithConcurrency c tr thin pages perPage arr =
     fan_out (Concurrency c) (length pages) (\<lambda>i. GetHosts c tr thin (pages ! i) perPage)
       ''hostsHistVecMetric'' arr"

definition GetHostFactsWithConcurrency :: "HTTPClient \<Rightarrow> transport \<Rightarrow> Host list \<Rightarrow> nat list
    \<Rightarrow> ((nat \<times> (go_error + HostFactsResponse)) list \<times> metric list) outcome" where
  "GetHostFactsWithConcurrency c tr hosts arr =
     fan_out (Concurrency c) (length hosts) (\<lambda>i. GetHostFacts c tr (ID (hosts ! i)) 1 1000)
       ''hostsFactsHistVecMetric'' arr"

text \<open>
  The interface the callers rely on: a function of the arrival order whose result does not
  depend on it. Inside, what that gives for every run of the goroutines.
\<close>

locale arrival_free =
  fixes gather :: "nat list \<Rightarrow> 'r" and n :: nat
  assumes same_for_all: "mset arr = mset [0..<n] \<Longrightarrow> gather arr = gather [0..<n]"
begin

lemma every_run:
  "pool_reach cap n p \<Longrightarrow> length (arrivals p) = n \<Longrightarrow> gather (arrivals p) = gather [0..<n]"
  by (intro same_for_all length_arrivals_full [OF pool_reach_inv])

end

definition fan_out_results :: "((nat \<times> 'r) list \<times> metric list) outcome \<Rightarrow> (nat \<times> 'r) list outcome" where
  "fan_out_results out = bind_outcome out (\<lambda>r. Returns (fst r))"

lemma fan_out_results_sorted:
  assumes "mset arr = mset [0..<n]" "1 \<le> conc"
  shows "fan_out_results (fan_out conc n work hist arr) = Returns (map (\<lambda>i. (i, fst (work i))) [0..<n])"
  using assms by (cases "n = 0") (simp_all add: fan_out_results_def fan_out_def sort_key_map_upt)

interpretation fan: arrival_free "\<lambda>arr. fan_out_results (fan_out conc n work hist arr)" n
  for conc n work hist
proof
  fix arr :: "nat list"
  assume arr: "mset arr = mset [0..<n]"
  note sorted = sort_key_map_upt [OF arr] sort_key_map_upt [of "[0..<n]" n]
  show "fan_out_results (fan_out conc n work hist arr) = fan_out_results (fan_out conc n work hist [0..<n])"
    by (simp add: fan_out_def fan_out_results_def sorted)
qed

section \<open>Properties of the fan-out\<close>

lemma pool_path_reach: "(pool_step cap ^^ k) (init_pool n) p \<Longrightarrow> pool_reach cap n p"
  by (induction k arbitrary: p) (auto intro: pool_reach.intros)

lemma pool_path_weight: "(pool_step cap ^^ k) (init_pool n) p \<Longrightarrow> k + work_left p \<le> 3 * n"
proof (induction k arbitrary: p)
  case 0
  then have "p = init_pool n" by simp
  then show ?case by (simp add: work_left_init)
next
  case (Suc k)
  then obtain q where "(pool_step cap ^^ k) (init_pool n) q" "pool_step cap q p" by auto
  with Suc.IH [of q] pool_step_less [of cap q p] show ?case by simp
qed

text \<open>C21: With a concurrency of at least one, every run of the goroutines ends within three steps per
  item, and where it ends every goroutine has finished and the collector has taken exactly one
  result of each item: no interleaving deadlocks, loses a result or takes one twice.\<close>

theorem fan_out_terminates:
  assumes "1 \<le> cap" "(pool_step cap ^^ k) (init_pool n) p"
  shows "k \<le> 3 * n \<and>
    ((\<exists>q. pool_step cap p q) \<or> (\<forall>i < n. workers p ! i = Finished) \<and> mset (arrivals p) = mset [0..<n])"
proof (cases "\<exists>q. pool_step cap p q")
  case True
  with pool_path_weight [OF assms(2)] show ?thesis by simp
next
  case False
  have inv: "pool_inv cap n p"
    using assms(2) by (intro pool_reach_inv pool_path_reach)
  then have "\<forall>i < n. workers p ! i = Finished"
    using pool_progress [OF assms(1), of _ p] False by (auto simp: pool_inv_def)
  then show ?thesis
    using pool_path_weight [OF assms(2)] pool_all_delivered [OF inv] by (simp add: delivered_def)
qed

lemma one_item_run:
  "pool_step 1 \<lparr>workers = [Queued], arrivals = []\<rparr> \<lparr>workers = [Running], arrivals = []\<rparr>"
  "pool_step 1 \<lparr>workers = [Running], arrivals = []\<rparr> \<lparr>workers = [Delivered], arrivals = [0]\<rparr>"
  "pool_step 1 \<lparr>workers = [Delivered], arrivals = [0]\<rparr> \<lparr>workers = [Finished], arrivals = [0]\<rparr>"
  using acquire [of 0 "\<lparr>workers = [Queued], arrivals = []\<rparr>" 1]
    deliver [of 0 "\<lparr>workers = [Running], arrivals = []\<rparr>" 1]
    release [of 0 "\<lparr>workers = [Delivered], arrivals = [0]\<rparr>" 1]
  by (simp_all add: in_flight_def holds_slot_def)

theorem fan_out_terminates_witness:
  "\<exists>p. (pool_step 1 ^^ 3) (init_pool 1) p \<and> (\<forall>i < 1. workers p ! i = Finished)"
proof -
  let ?p = "\<lparr>workers = [Finished], arrivals = [0]\<rparr>"
  have run: "(pool_step 1 ^^ 3) (init_pool 1) ?p"
    using one_item_run by (auto simp: init_pool_def numeral_3_eq_3)
  have "\<not> pool_step 1 ?p q" for q
    by (auto elim!: pool_stepE)
  with fan_out_terminates [OF _ run] run show ?thesis by blast
qed

text \<open>C30: At no moment of any run are more requests in flight than the concurrency (none at all when
  it is not positive).\<close>

theorem fan_out_bounded:
  assumes "pool_reach cap n p"
  shows "int (in_flight p) \<le> max cap 0"
  using pool_reach_inv [OF assms] by (simp add: pool_inv_def)

theorem fan_out_bounded_witness:
  "pool_reach 1 1 \<lparr>workers = [Running], arrivals = []\<rparr>
    \<and> int (in_flight \<lparr>workers = [Running], arrivals = []\<rparr>) \<le> max 1 0"
proof -
  have "pool_reach 1 1 \<lparr>workers = [Queued], arrivals = []\<rparr>"
    using pool_reach.start [of 1 1] by (simp add: init_pool_def)
  then have "pool_reach 1 1 \<lparr>workers = [Running], arrivals = []\<rparr>"
    using one_item_run(1) by (rule pool_reach.step)
  with fan_out_bounded [OF this] show ?thesis by blast
qed

text \<open>C22: Whatever the interleaving, the host pages come back in the order of the page numbers asked
  for, each with its own request's answer: the arrival order leaves no trace in the result.\<close>

theorem GetHostWithConcurrency_ordered:
  assumes "1 \<le> Concurrency c" "pool_reach (Concurrency c) (length pages) p"
    and "length (arrivals p) = length pages"
  shows "fan_out_results (GetHostWithConcurrency c tr thin pages perPage (arrivals p))
    = Returns (map (\<lambda>i. (i, fst (GetHosts c tr thin (pages ! i) perPage))) [0..<length pages])"
  unfolding GetHostWithConcurrency_def fan.every_run [OF assms(2,3)]
  using assms(1) by (intro fan_out_results_sorted) auto

text \<open>A run that delivers the second of two items first.\<close>

lemma swapped_run:
  assumes "1 \<le> cap"
  shows "pool_reach cap 2 \<lparr>workers = [Delivered, Finished], arrivals = [1, 0]\<rparr>"
proof -
  have "pool_reach cap 2 \<lparr>workers = [Queued, Queued], arrivals = []\<rparr>"
    using pool_reach.start [of cap 2] by (simp add: init_pool_def numeral_2_eq_2)
  then have "pool_reach cap 2 \<lparr>workers = [Queued, Running], arrivals = []\<rparr>"
    using acquire [of 1 "\<lparr>workers = [Queued, Queued], arrivals = []\<rparr>" cap] assms
    by (auto intro: pool_reach.step simp: in_flight_def holds_slot_def)
  then have "pool_reach cap 2 \<lparr>workers = [Queued, Delivered], arrivals = [1]\<rparr>"
    using deliver [of 1 "\<lparr>workers = [Queued, Running], arrivals = []\<rparr>" cap]
    by (auto intro: pool_reach.step)
  then have "pool_reach cap 2 \<lparr>workers = [Queued, Finished], arrivals = [1]\<rparr>"
    using release [of 1 "\<lparr>workers = [Queued, Delivered], arrivals = [1]\<rparr>" cap]
    by (auto intro: pool_reach.step)
  then have "pool_reach cap 2 \<lparr>workers = [Running, Finished], arrivals = [1]\<rparr>"
    using acquire [of 0 "\<lparr>workers = [Queued, Finished], arrivals = [1]\<rparr>" cap] assms
    by (auto intro: pool_reach.step simp: in_flight_def holds_slot_def)
  then show ?thesis
    using deliver [of 0 "\<lparr>workers = [Running, Finished], arrivals = [1]\<rparr>" cap]
    by (auto intro: pool_reach.step)
qed

theorem GetHostWithConcurrency_ordered_witness:
  "fan_out_results (GetHostWithConcurrency default_client down_server ''true'' [2, 3] 5 [1, 0])
    = Returns [(0, Inl (Transport ''connection refused'')), (1, Inl (Transport ''connection refused''))]"
proof -
  let ?p = "\<lparr>workers = [Delivered, Finished], arrivals = [1, 0]\<rparr>"
  have conc: "Concurrency default_client = 4" by (simp add: default_client_def)
  then have "pool_reach (Concurrency default_client) (length [2, 3 :: int]) ?p"
    using swapped_run [of 4] by (simp add: numeral_2_eq_2)
  from GetHostWithConcurrency_ordered [OF _ this, of down_server "''true''" 5] conc show ?thesis
    by (simp add: GetHosts_def Let_def DoWithContext_def down_server_def upt_rec)
qed

text \<open>C33: With a concurrency of zero and at least one page to fetch, no goroutine can take the first
  step, so the collector waits for ever: the call neither returns nor fails.\<close>

theorem GetHostWithConcurrency_zero_blocks:
  assumes "Concurrency c = 0" "pages \<noteq> []"
  shows "(\<forall>p. pool_reach (Concurrency c) (length pages) p \<longrightarrow> arrivals p = [] \<and> (\<forall>q. \<not> pool_step (Concurrency c) p q))
    \<and> GetHostWithConcurrency c tr thin pages perPage arr = Blocks"
proof -
  have only: "p = init_pool n" if "pool_reach 0 n p" for n p
    using that by (induction rule: pool_reach.induct) (simp_all add: pool_blocked)
  have "arrivals p = [] \<and> (\<forall>q. \<not> pool_step 0 p q)" if "pool_reach 0 n p" for n p
    using only [OF that] pool_blocked [of 0 n] by (simp add: init_pool_def)
  with assms show ?thesis
    by (auto simp: GetHostWithConcurrency_def fan_out_def)
qed

theorem GetHostWithConcurrency_zero_blocks_witness:
  "GetHostWithConcurrency (default_client\<lparr>Concurrency := 0\<rparr>) down_server ''false'' [1] 100 [0] = Blocks"
  using GetHostWithConcurrency_zero_blocks [of "default_client\<lparr>Concurrency := 0\<rparr>" "[1]"] by simp

end
