(* ===== verification/FactBulk.thy ===== *)
theory FactBulk
  imports FactBatch FanOut
begin

text \<open>
  The bulk collection of facts (\<open>getHostsFactsBulk\<close> of foreman/factvalues.go): one goroutine
  per batch, an accumulator that a mutex protects, and the error that says what is missing. The
  critical sections run in the order the batches complete, a run of the goroutines of FanOut.
\<close>

section \<open>The accumulator\<close>

record bulk_state =
  hostsFacts :: hosts_facts
  failed :: int
  truncated :: int
  lostHosts :: int
  noFacts :: int
  firstErr :: "go_error option"

definition init_bulk :: bulk_state where
  "init_bulk = \<lparr>hostsFacts = [], failed = 0, truncated = 0, lostHosts = 0, noFacts = 0, firstErr = None\<rparr>"

definition store_filtered :: "HTTPClient \<Rightarrow> hosts_facts \<Rightarrow> hosts_facts \<Rightarrow> hosts_facts" where
  "store_filtered c facts acc = map_store_all acc (map (\<lambda>(h, m). (h, filterFacts c m)) facts)"

text \<open>The critical section for a batch and its result.\<close>

definition bulk_step :: "HTTPClient \<Rightarrow> Host list \<times> BatchFactsResult \<Rightarrow> bulk_state \<Rightarrow> bulk_state" where
  "bulk_step c e s =
     (case e of (batch, res) \<Rightarrow>
        if Err res \<noteq> None
        then s\<lparr>failed := failed s + 1, lostHosts := lostHosts s + int (length batch),
               firstErr := (if firstErr s = None then Err res else firstErr s)\<rparr>
        else if Truncated res
        then s\<lparr>truncated := truncated s + 1, lostHosts := lostHosts s + int (length batch)\<rparr>
        else s\<lparr>noFacts := noFacts s + int (length (Missing res)),
               hostsFacts := store_filtered c (Facts res) (hostsFacts s)\<rparr>)"

text \<open>What one batch records, before and inside the critical section.\<close>

definition bulk_metrics :: "Host list \<times> BatchFactsResult \<Rightarrow> metric list" where
  "bulk_metrics e =
     (case e of (batch, res) \<Rightarrow>
        [Inc ''factValuesBatchesMetric'' [], Observe ''factValuesBatchHostsMetric'' (int (length batch))]
        @ (if Err res \<noteq> None
           then [Inc ''factValuesBatchFailedMetric'' [], AddTo ''factValuesHostsLostMetric'' (int (length batch))]
           else if Truncated res
           then [Inc ''factValuesMaxPagesMetric'' [], AddTo ''factValuesHostsLostMetric'' (int (length batch))]
           else []))"

definition bulk_error :: "int \<Rightarrow> bulk_state \<Rightarrow> go_error option" where
  "bulk_error n s =
     (if failed s > 0 \<and> truncated s > 0
      then Some (BatchesFailedAndTruncated (failed s) n (lostHosts s) (firstErr s) (truncated s))
      else if failed s > 0 then Some (BatchesFailed (failed s) n (lostHosts s) (firstErr s))
      else if truncated s > 0 then Some (BatchesTruncated (truncated s) n (lostHosts s))
      else None)"

definition bulk_concurrency :: "HTTPClient \<Rightarrow> int" where
  "bulk_concurrency c = (if Concurrency c < 1 then 1 else Concurrency c)"

text \<open>
  The whole call, for the order in which the batches complete. The semaphore has
  \<open>bulk_concurrency c\<close> slots, at least one, so every run completes (\<open>fan_out_terminates\<close>).
\<close>

definition getHostsFactsBulk :: "HTTPClient \<Rightarrow> transport \<Rightarrow> Host list \<Rightarrow> nat list
    \<Rightarrow> ((hosts_facts \<times> go_error option) \<times> metric list) outcome" where
  "getHostsFactsBulk c tr hosts order =
     (case splitHosts c hosts of
        Inl p \<Rightarrow> Panics p
      | Inr batches \<Rightarrow>
          (let items = map (\<lambda>i. (batches ! i, GetFactValuesBatch c tr (batches ! i))) order;
               s = fold (bulk_step c) (map (\<lambda>(b, r). (b, fst r)) items) init_bulk;
               ms = concat (map (\<lambda>(b, r). snd r @ bulk_metrics (b, fst r)) items)
                    @ [SetGauge ''factValuesNoFactsMetric'' (noFacts s)]
           in Returns ((hostsFacts s, bulk_error (int (length batches)) s), ms)))"

section \<open>Counters\<close>

definition batch_failed :: "Host list \<times> BatchFactsResult \<Rightarrow> bool" where
  "batch_failed e \<longleftrightarrow> Err (snd e) \<noteq> None"

definition batch_cut :: "Host list \<times> BatchFactsResult \<Rightarrow> bool" where
  "batch_cut e \<longleftrightarrow> Err (snd e) = None \<and> Truncated (snd e)"

definition batch_good :: "Host list \<times> BatchFactsResult \<Rightarrow> bool" where
  "batch_good e \<longleftrightarrow> Err (snd e) = None \<and> \<not> Truncated (snd e)"

definition hosts_in :: "(Host list \<times> BatchFactsResult) list \<Rightarrow> int" where
  "hosts_in es = int (sum_list (map (\<lambda>e. length (fst e)) es))"

lemma batch_kinds:
  "batch_good e \<longleftrightarrow> \<not> batch_failed e \<and> \<not> batch_cut e"
  by (auto simp: batch_good_def batch_failed_def batch_cut_def)

lemma bulk_counters:
  "failed (fold (bulk_step c) es s) = failed s + int (length (filter batch_failed es))"
  "truncated (fold (bulk_step c) es s) = truncated s + int (length (filter batch_cut es))"
  "lostHosts (fold (bulk_step c) es s) = lostHosts s + hosts_in (filter (\<lambda>e. \<not> batch_good e) es)"
  "noFacts (fold (bulk_step c) es s)
     = noFacts s + int (sum_list (map (\<lambda>e. length (Missing (snd e))) (filter batch_good es)))"
  by (induction es arbitrary: s)
    (auto simp: bulk_step_def batch_failed_def batch_cut_def batch_good_def hosts_in_def)

lemma bulk_step_firstErr:
  "firstErr (bulk_step c e s) = (if firstErr s = None then Err (snd e) else firstErr s)"
  by (cases e) (simp add: bulk_step_def)

lemma bulk_firstErr:
  "firstErr (fold (bulk_step c) es s) =
     (if firstErr s \<noteq> None then firstErr s
      else case filter batch_failed es of [] \<Rightarrow> None | e # _ \<Rightarrow> Err (snd e))"
  by (induction es arbitrary: s) (auto simp: bulk_step_firstErr batch_failed_def)

section \<open>Facts\<close>

lemma map_of_filtered:
  "map_of (map (\<lambda>(h, m). (h, filterFacts c m)) facts) h = map_option (filterFacts c) (map_of facts h)"
  by (rule map_of_map_snd)

lemma wf_map_filtered: "wf_map facts \<Longrightarrow> wf_map (map (\<lambda>(h, m). (h, filterFacts c m)) facts)"
  by (simp add: wf_map_def comp_def case_prod_beta)

lemma map_of_store_filtered:
  assumes "wf_map facts"
  shows "map_of (store_filtered c facts acc) h =
    (case map_of facts h of None \<Rightarrow> map_of acc h | Some m \<Rightarrow> Some (filterFacts c m))"
  using assms
  by (simp add: store_filtered_def map_of_store_all wf_map_filtered map_add_def map_of_filtered
      split: option.splits)

definition item_ok :: "Host list \<times> BatchFactsResult \<Rightarrow> bool" where
  "item_ok e \<longleftrightarrow> wf_hosts_facts (Facts (snd e))"

lemma bulk_step_facts:
  assumes "item_ok e"
  shows "map_of (hostsFacts (bulk_step c e s)) h =
    (case (if batch_good e then map_of (Facts (snd e)) h else None) of
       None \<Rightarrow> map_of (hostsFacts s) h | Some m \<Rightarrow> Some (filterFacts c m))"
  using assms
  by (auto simp: bulk_step_def batch_good_def item_ok_def wf_hosts_facts_def map_of_store_filtered
      split: prod.splits)

text \<open>Every exported host comes from a batch that was collected whole.\<close>

lemma bulk_facts_sound:
  assumes "\<forall>e \<in> set es. item_ok e" "map_of (hostsFacts (fold (bulk_step c) es s)) h = Some m"
    and "map_of (hostsFacts s) h = None"
  shows "\<exists>e \<in> set es. \<exists>f. batch_good e \<and> map_of (Facts (snd e)) h = Some f \<and> m = filterFacts c f"
  using assms(1,2)
proof (induction es rule: rev_induct)
  case Nil
  with assms(3) show ?case by simp
next
  case (snoc e es)
  then show ?case
    by (cases "if batch_good e then map_of (Facts (snd e)) h else None")
      (auto simp: bulk_step_facts split: if_splits)
qed

text \<open>A host that a whole batch has facts for is exported with them, unless another batch has it too.\<close>

lemma bulk_facts_complete:
  assumes "\<forall>e \<in> set es. item_ok e" "e \<in> set es" "batch_good e" "map_of (Facts (snd e)) h = Some f"
    and "\<And>d. d \<in> set es \<Longrightarrow> map_of (Facts (snd d)) h \<noteq> None \<Longrightarrow> d = e"
  shows "map_of (hostsFacts (fold (bulk_step c) es s)) h = Some (filterFacts c f)"
  using assms(1,2,5)
proof (induction es rule: rev_induct)
  case (snoc d es)
  show ?case
  proof (cases "d = e")
    case True
    with snoc.prems(1) assms(3,4) show ?thesis by (simp add: bulk_step_facts)
  next
    case False
    then have none: "map_of (Facts (snd d)) h = None"
      using snoc.prems(3) [of d] by (meson in_set_conv_decomp)
    have "map_of (hostsFacts (fold (bulk_step c) es s)) h = Some (filterFacts c f)"
    proof (rule snoc.IH)
      show "d' = e" if "d' \<in> set es" "map_of (Facts (snd d')) h \<noteq> None" for d'
        using snoc.prems(3) [of d'] that by simp
    qed (use snoc.prems(1,2) False in auto)
    with none snoc.prems(1) show ?thesis by (simp add: bulk_step_facts)
  qed
qed simp

text \<open>
  The accumulator is order-free: abstractly it is the exported lookup and the four counters,
  and two batches commute unless both are whole and have a host in common.
\<close>

type_synonym bulk_view = "(string \<Rightarrow> facts option) \<times> int \<times> int \<times> int \<times> int"

definition bulk_view :: "bulk_state \<Rightarrow> bulk_view" where
  "bulk_view s = (map_of (hostsFacts s), failed s, truncated s, lostHosts s, noFacts s)"

definition view_step :: "HTTPClient \<Rightarrow> Host list \<times> BatchFactsResult \<Rightarrow> bulk_view \<Rightarrow> bulk_view" where
  "view_step c e v =
     (case v of (m, f, t, l, n) \<Rightarrow>
        if batch_failed e then (m, f + 1, t, l + int (length (fst e)), n)
        else if batch_cut e then (m, f, t + 1, l + int (length (fst e)), n)
        else (\<lambda>h. case map_of (Facts (snd e)) h of None \<Rightarrow> m h | Some x \<Rightarrow> Some (filterFacts c x),
              f, t, l, n + int (length (Missing (snd e)))))"

definition batches_disjoint :: "Host list \<times> BatchFactsResult \<Rightarrow> Host list \<times> BatchFactsResult \<Rightarrow> bool" where
  "batches_disjoint d e \<longleftrightarrow>
     batch_good d \<and> batch_good e \<longrightarrow> fst ` set (Facts (snd d)) \<inter> fst ` set (Facts (snd e)) = {}"

interpretation bulk: order_free "bulk_step c" bulk_view "view_step c" item_ok batches_disjoint for c
proof
  fix e s
  assume "item_ok e"
  then show "bulk_view (bulk_step c e s) = view_step c e (bulk_view s)"
    by (auto simp: bulk_view_def view_step_def bulk_step_def batch_failed_def batch_cut_def item_ok_def
        wf_hosts_facts_def map_of_store_filtered fun_eq_iff split: prod.splits)
next
  fix d e a
  assume "batches_disjoint d e"
  then have excl: False
    if "batch_good d" "batch_good e" "map_of (Facts (snd d)) h = Some x" "map_of (Facts (snd e)) h = Some y"
    for h x y
    using that by (force simp: batches_disjoint_def dest: map_of_SomeD)
  show "view_step c d (view_step c e a) = view_step c e (view_step c d a)"
  proof (cases "batch_good d \<and> batch_good e")
    case True
    then show ?thesis
      by (cases a) (auto simp: view_step_def batch_kinds fun_eq_iff split: option.splits dest: excl [OF _ _, rotated 2])
  next
    case False
    then show ?thesis
      by (cases a) (auto simp: view_step_def batch_kinds batch_failed_def batch_cut_def)
  qed
qed

section \<open>The items of a collection\<close>

definition bulk_items :: "HTTPClient \<Rightarrow> transport \<Rightarrow> Host list list \<Rightarrow> nat list \<Rightarrow> (Host list \<times> BatchFactsResult) list" where
  "bulk_items c tr batches order = map (\<lambda>i. (batches ! i, fst (GetFactValuesBatch c tr (batches ! i)))) order"

definition bulk_final :: "HTTPClient \<Rightarrow> transport \<Rightarrow> Host list list \<Rightarrow> nat list \<Rightarrow> bulk_state" where
  "bulk_final c tr batches order = fold (bulk_step c) (bulk_items c tr batches order) init_bulk"

lemma getHostsFactsBulk_eq:
  assumes "splitHosts c hosts = Inr batches"
  shows "\<exists>ms. getHostsFactsBulk c tr hosts order
    = Returns ((hostsFacts (bulk_final c tr batches order),
                bulk_error (int (length batches)) (bulk_final c tr batches order)), ms)"
  by (simp add: getHostsFactsBulk_def assms bulk_final_def bulk_items_def comp_def Let_def)

lemma batch_pages_wf:
  "wf_hosts_facts (Facts res) \<Longrightarrow> wf_hosts_facts (Facts (fst (batch_pages get hosts perPage maxPages page res)))"
proof (induction "nat (maxPages + 1 - page)" arbitrary: page res rule: less_induct)
  case less
  have rec: "wf_hosts_facts (Facts (fst (batch_pages get hosts perPage maxPages (page + 1)
      (res\<lparr>Facts := merge_page (Facts res) (FResults resp), Pages := page\<rparr>))))" if "page \<le> maxPages" for resp
    using that less.prems by (intro less.hyps) (auto simp: wf_merge_page)
  show ?case
    using less.prems rec
    by (subst fst_batch_pages) (auto simp: Let_def wf_merge_page split: sum.splits)
qed

lemma bulk_items_ok: "\<forall>e \<in> set (bulk_items c tr batches order). item_ok e"
  by (auto simp: bulk_items_def item_ok_def GetFactValuesBatch_def Let_def intro!: batch_pages_wf)

lemma mset_bulk_items:
  assumes "mset order = mset [0..<length batches]"
  shows "mset (bulk_items c tr batches order) = mset (map (\<lambda>b. (b, fst (GetFactValuesBatch c tr b))) batches)"
proof -
  let ?g = "\<lambda>b. (b, fst (GetFactValuesBatch c tr b))"
  have "mset (bulk_items c tr batches order) = image_mset (\<lambda>i. ?g (batches ! i)) (mset order)"
    by (simp add: bulk_items_def)
  also have "\<dots> = mset (map (\<lambda>i. ?g (batches ! i)) [0..<length batches])"
    by (simp only: assms mset_map)
  also have "map (\<lambda>i. ?g (batches ! i)) [0..<length batches] = map ?g (map ((!) batches) [0..<length batches])"
    by simp
  finally show ?thesis by (simp only: map_nth)
qed

section \<open>Properties of the bulk collection\<close>

abbreviation batch_result :: "HTTPClient \<Rightarrow> transport \<Rightarrow> Host list \<Rightarrow> BatchFactsResult" where
  "batch_result c tr b \<equiv> fst (GetFactValuesBatch c tr b)"

lemma set_bulk_items:
  "set order \<subseteq> {..<length batches} \<Longrightarrow> e \<in> set (bulk_items c tr batches order) \<Longrightarrow>
   \<exists>b \<in> set batches. e = (b, batch_result c tr b)"
  by (auto simp: bulk_items_def)

lemma set_bulk_items_full:
  assumes "mset order = mset [0..<length batches]"
  shows "set (bulk_items c tr batches order) = (\<lambda>b. (b, batch_result c tr b)) ` set batches"
  using mset_eq_setD [OF mset_bulk_items [OF assms]] by simp

lemma splitHosts_single:
  assumes "hosts \<noteq> []" "int (length hosts) \<le> batch_size c" "fits_url c hosts" "is_i64 (batch_size c)"
  shows "splitHosts c hosts = Inr [hosts]"
proof -
  have "batch_end c hosts 0 = int (length hosts)"
    using assms(2,4) by (simp add: batch_end_def Let_def)
  moreover have "go_slice hosts 0 (int (length hosts)) = Inr hosts"
    by (simp add: go_slice_def)
  ultimately show ?thesis
    using assms(1,3)
    by (simp add: splitHosts_def split_from.simps [of c hosts 0] shrink_batch.simps [of c hosts 0]
        split_from.simps [of c hosts "int (length hosts)"])
qed

text \<open>The small server's fleet, in one batch.\<close>

abbreviation two_hosts :: "Host list" where
  "two_hosts \<equiv> [example_host 7 ''a'', example_host 9 ''b'']"

lemma two_hosts_split: "splitHosts two_page_client two_hosts = Inr [two_hosts]"
proof (rule splitHosts_single)
  show "fits_url two_page_client two_hosts"
    by (simp add: fits_url_def searchURLLen_def batch_search_def two_page_client_def default_client_def
        buildFactSearch_def names_part_def ids_part_def FormatInt_def decimal.simps QueryEscape_def escape_byte_def unreserved_def)
qed (simp_all add: batch_size_def two_page_client_def default_client_def i64_def is_i64_def)

lemma two_hosts_batch:
  "batch_result two_page_client two_page_server two_hosts =
    \<lparr>HostIDs = [7, 9], Facts = [(''a'', [(''k'', ''1''), (''l'', ''2'')]), (''b'', [(''k'', ''3'')])],
      Missing = [], Pages = 2, Truncated = False, Err = None\<rparr>"
  by (simp add: GetFactValuesBatch_def Let_def two_page_limits fst_batch_pages two_page_answers
      merge_page_def merge_host_def page_rows_def missingHosts_def)

lemma two_page_filter: "filterFacts two_page_client m = filter (\<lambda>(k, v). v \<noteq> []) m"
  by (simp add: filterFacts_def two_page_client_def default_client_def)

lemma two_hosts_bulk:
  "\<exists>ms. getHostsFactsBulk two_page_client two_page_server two_hosts [0]
     = Returns (([(''a'', [(''k'', ''1''), (''l'', ''2'')]), (''b'', [(''k'', ''3'')])], None), ms)"
proof -
  have "bulk_final two_page_client two_page_server [two_hosts] [0] =
    \<lparr>hostsFacts = [(''a'', [(''k'', ''1''), (''l'', ''2'')]), (''b'', [(''k'', ''3'')])],
      failed = 0, truncated = 0, lostHosts = 0, noFacts = 0, firstErr = None\<rparr>"
    by (simp add: bulk_final_def bulk_items_def two_hosts_batch bulk_step_def init_bulk_def
        store_filtered_def two_page_filter)
  then show ?thesis
    using getHostsFactsBulk_eq [OF two_hosts_split, of two_page_server "[0]"] by (simp add: bulk_error_def)
qed

text \<open>The counts of a bulk error, without the first failure, which is the one that completed first.\<close>

fun error_counts :: "go_error option \<Rightarrow> go_error option" where
  "error_counts (Some (BatchesFailedAndTruncated f n l e t)) = Some (BatchesFailedAndTruncated f n l None t)"
| "error_counts (Some (BatchesFailed f n l e)) = Some (BatchesFailed f n l None)"
| "error_counts e = e"

text \<open>C9: Whatever fails and in whatever order the batches complete, no host is exported with part of
  its facts: each exported host carries the filtered facts that a batch found for it, a batch none
  of whose pages failed and which did not run out of pages.\<close>

theorem bulk_never_half_collected:
  assumes "splitHosts c hosts = Inr batches" "set order \<subseteq> {..<length batches}"
    and "getHostsFactsBulk c tr hosts order = Returns ((F, err), ms)" "map_of F h = Some m"
  shows "\<exists>b \<in> set batches. \<exists>f. Err (batch_result c tr b) = None \<and> \<not> Truncated (batch_result c tr b)
    \<and> map_of (Facts (batch_result c tr b)) h = Some f \<and> m = filterFacts c f"
proof -
  have "F = hostsFacts (bulk_final c tr batches order)"
    using getHostsFactsBulk_eq [OF assms(1), of tr order] assms(3) by auto
  then have "map_of (hostsFacts (fold (bulk_step c) (bulk_items c tr batches order) init_bulk)) h = Some m"
    using assms(4) by (simp add: bulk_final_def)
  from bulk_facts_sound [OF bulk_items_ok this] obtain e f where
    "e \<in> set (bulk_items c tr batches order)" "batch_good e" "map_of (Facts (snd e)) h = Some f" "m = filterFacts c f"
    by (auto simp: init_bulk_def)
  then show ?thesis
    using set_bulk_items [OF assms(2)] by (fastforce simp: batch_good_def)
qed

theorem bulk_never_half_collected_witness:
  "\<exists>f. Err (batch_result two_page_client two_page_server two_hosts) = None
    \<and> \<not> Truncated (batch_result two_page_client two_page_server two_hosts)
    \<and> map_of (Facts (batch_result two_page_client two_page_server two_hosts)) ''a'' = Some f
    \<and> [(''k'', ''1''), (''l'', ''2'')] = filterFacts two_page_client f"
proof -
  obtain ms where run: "getHostsFactsBulk two_page_client two_page_server two_hosts [0]
     = Returns (([(''a'', [(''k'', ''1''), (''l'', ''2'')]), (''b'', [(''k'', ''3'')])], None), ms)"
    using two_hosts_bulk by blast
  show ?thesis
    using bulk_never_half_collected [OF two_hosts_split _ run, of "''a''" "[(''k'', ''1''), (''l'', ''2'')]"] by simp
qed

text \<open>The order in which the batches complete does not matter. If no two whole batches report the
  same host, then every run of the goroutines exports the same facts, and either every run
  reports an error or none does, with the same counts.\<close>

theorem bulk_order_free:
  assumes "splitHosts c hosts = Inr batches"
    and "pool_reach (bulk_concurrency c) (length batches) p" "length (arrivals p) = length batches"
    and "\<And>b d. b \<in> set batches \<Longrightarrow> d \<in> set batches \<Longrightarrow> b \<noteq> d \<Longrightarrow>
       batches_disjoint (b, batch_result c tr b) (d, batch_result c tr d)"
  shows "\<exists>F F' err err' ms ms'.
    getHostsFactsBulk c tr hosts (arrivals p) = Returns ((F, err), ms)
    \<and> getHostsFactsBulk c tr hosts [0..<length batches] = Returns ((F', err'), ms')
    \<and> map_of F = map_of F' \<and> error_counts err = error_counts err'"
proof -
  have perm: "mset (arrivals p) = mset [0..<length batches]"
    using assms(2,3) by (intro length_arrivals_full [OF pool_reach_inv])
  let ?es = "bulk_items c tr batches [0..<length batches]"
  have "batches_disjoint d e" if de: "d \<in> set ?es" "e \<in> set ?es" "d \<noteq> e" for d e
  proof -
    obtain b b' where "b \<in> set batches" "d = (b, batch_result c tr b)"
      "b' \<in> set batches" "e = (b', batch_result c tr b')"
      using de(1,2) by (auto simp: set_bulk_items_full)
    with de(3) show ?thesis by (auto intro: assms(4))
  qed
  moreover have "mset (bulk_items c tr batches (arrivals p)) = mset ?es"
    by (simp only: mset_bulk_items [OF perm] mset_bulk_items [OF refl])
  ultimately have "bulk_view (bulk_final c tr batches (arrivals p)) = bulk_view (bulk_final c tr batches [0..<length batches])"
    unfolding bulk_final_def
    using bulk_items_ok by (intro bulk.any_order)
  then show ?thesis
    using getHostsFactsBulk_eq [OF assms(1), of tr "arrivals p"]
      getHostsFactsBulk_eq [OF assms(1), of tr "[0..<length batches]"]
    by (auto simp: bulk_view_def bulk_error_def)
qed


theorem bulk_order_free_witness:
  "\<exists>p :: pool. length (arrivals p) = 1 \<and> (\<exists>F F' err err' ms ms'.
    getHostsFactsBulk two_page_client two_page_server two_hosts (arrivals p) = Returns ((F, err), ms)
    \<and> getHostsFactsBulk two_page_client two_page_server two_hosts [0] = Returns ((F', err'), ms')
    \<and> map_of F = map_of F' \<and> error_counts err = error_counts err')"
proof -
  have conc: "bulk_concurrency two_page_client = 4"
    by (simp add: bulk_concurrency_def two_page_client_def default_client_def)
  obtain p where p: "pool_reach 4 1 p" "length (arrivals p) = 1"
    using pool_run_exists [of 4 1] by auto
  have "\<exists>F F' err err' ms ms'.
    getHostsFactsBulk two_page_client two_page_server two_hosts (arrivals p) = Returns ((F, err), ms)
    \<and> getHostsFactsBulk two_page_client two_page_server two_hosts [0..<length [two_hosts]] = Returns ((F', err'), ms')
    \<and> map_of F = map_of F' \<and> error_counts err = error_counts err'"
    by (rule bulk_order_free [OF two_hosts_split]) (use p in \<open>simp_all add: conc\<close>)
  with p(2) show ?thesis by - (rule exI [of _ p], simp)
qed

section \<open>What the error says\<close>

text \<open>The batches and hosts that were lost, over all batches.\<close>

definition whole :: "HTTPClient \<Rightarrow> transport \<Rightarrow> Host list \<Rightarrow> bool" where
  "whole c tr b \<longleftrightarrow> Err (batch_result c tr b) = None \<and> \<not> Truncated (batch_result c tr b)"

definition failed_batches :: "HTTPClient \<Rightarrow> transport \<Rightarrow> Host list list \<Rightarrow> nat" where
  "failed_batches c tr bs = length (filter (\<lambda>b. Err (batch_result c tr b) \<noteq> None) bs)"

definition cut_batches :: "HTTPClient \<Rightarrow> transport \<Rightarrow> Host list list \<Rightarrow> nat" where
  "cut_batches c tr bs = length (filter (\<lambda>b. Err (batch_result c tr b) = None \<and> Truncated (batch_result c tr b)) bs)"

definition lost_hosts :: "HTTPClient \<Rightarrow> transport \<Rightarrow> Host list list \<Rightarrow> nat" where
  "lost_hosts c tr bs = sum_list (map length (filter (\<lambda>b. \<not> whole c tr b) bs))"

lemma length_filter_mset: "mset xs = mset ys \<Longrightarrow> length (filter P xs) = length (filter P ys)"
  by (metis mset_filter size_mset)

lemma sum_filter_mset:
  "mset xs = mset ys \<Longrightarrow> sum_list (map f (filter P xs)) = (sum_list (map f (filter P ys)) :: nat)"
  by (metis mset_filter mset_map sum_mset_sum_list)

lemma bulk_final_counters:
  assumes "mset order = mset [0..<length batches]"
  shows "failed (bulk_final c tr batches order) = int (failed_batches c tr batches)"
    "truncated (bulk_final c tr batches order) = int (cut_batches c tr batches)"
    "lostHosts (bulk_final c tr batches order) = int (lost_hosts c tr batches)"
  using length_filter_mset [OF mset_bulk_items [OF assms], of batch_failed]
    length_filter_mset [OF mset_bulk_items [OF assms], of batch_cut]
    sum_filter_mset [OF mset_bulk_items [OF assms], of "\<lambda>e. length (fst e)" "\<lambda>e. \<not> batch_good e"]
  by (simp_all add: bulk_final_def bulk_counters init_bulk_def hosts_in_def failed_batches_def cut_batches_def
      lost_hosts_def whole_def batch_failed_def batch_cut_def batch_good_def filter_map comp_def)

lemma no_lost_batches:
  "failed_batches c tr bs = 0 \<and> cut_batches c tr bs = 0 \<longleftrightarrow> (\<forall>b \<in> set bs. whole c tr b)"
  by (auto simp: failed_batches_def cut_batches_def whole_def filter_empty_conv)

text \<open>C25: A bulk collection reports exactly what it lost: no error if and only if every batch was collected
  whole, and otherwise the number of batches that failed, of batches cut at the page limit and of
  the hosts of both, whatever the order in which the batches complete.\<close>

theorem bulk_error_exact:
  assumes "splitHosts c hosts = Inr batches" "mset order = mset [0..<length batches]"
  shows "\<exists>F err ms. getHostsFactsBulk c tr hosts order = Returns ((F, err), ms)
    \<and> (err = None \<longleftrightarrow> (\<forall>b \<in> set batches. whole c tr b))
    \<and> error_counts err =
       (let n = int (length batches); f = int (failed_batches c tr batches);
            t = int (cut_batches c tr batches); l = int (lost_hosts c tr batches)
        in if f > 0 \<and> t > 0 then Some (BatchesFailedAndTruncated f n l None t)
           else if f > 0 then Some (BatchesFailed f n l None)
           else if t > 0 then Some (BatchesTruncated t n l)
           else None)"
proof -
  obtain ms where "getHostsFactsBulk c tr hosts order = Returns ((hostsFacts (bulk_final c tr batches order),
      bulk_error (int (length batches)) (bulk_final c tr batches order)), ms)"
    using getHostsFactsBulk_eq [OF assms(1)] by blast
  moreover have "bulk_error (int (length batches)) (bulk_final c tr batches order) = None
      \<longleftrightarrow> (\<forall>b \<in> set batches. whole c tr b)"
    unfolding no_lost_batches [symmetric] bulk_error_def bulk_final_counters [OF assms(2)] by auto
  ultimately show ?thesis
    by (simp add: bulk_error_def bulk_final_counters [OF assms(2)] Let_def)
qed

theorem bulk_error_exact_witness:
  "\<exists>F err ms. getHostsFactsBulk two_page_client failing_server two_hosts [0] = Returns ((F, err), ms)
    \<and> error_counts err = Some (BatchesFailed 1 1 2 None)"
proof -
  have "batch_result two_page_client failing_server two_hosts =
    \<lparr>HostIDs = [7, 9], Facts = [(''a'', [(''k'', ''1''), (''l'', ''2'')])],
      Missing = [], Pages = 1, Truncated = False, Err = Some (Transport ''timeout'')\<rparr>"
    by (simp add: GetFactValuesBatch_def Let_def two_page_limits fst_batch_pages two_page_answers
        merge_page_def merge_host_def page_rows_def missingHosts_def)
  then show ?thesis
    using bulk_error_exact [OF two_hosts_split, of "[0]" failing_server]
    by (auto simp: failed_batches_def cut_batches_def lost_hosts_def whole_def)
qed

section \<open>Complete collections\<close>

text \<open>The rows of a foreman's database that belong to the hosts of a batch.\<close>

definition rows_of :: "fact_row list \<Rightarrow> Host list \<Rightarrow> fact_row list" where
  "rows_of db b = filter (\<lambda>r. fst (fst r) \<in> Name ` set b) db"

text \<open>
  An honest foreman, for one batch: it answers the batch's search with the batch's rows, \<open>e\<close> to
  a page, and they fit in the pages the client is ready to read.
\<close>

definition serves_batch :: "HTTPClient \<Rightarrow> transport \<Rightarrow> fact_row list \<Rightarrow> nat \<Rightarrow> Host list \<Rightarrow> bool" where
  "serves_batch c tr db e b \<longleftrightarrow>
     serves_rows (\<lambda>page. GetFactValues c tr (batch_search c b) page (fact_per_page c))
       (fact_per_page c) (nat (fact_max_pages c)) e (rows_of db b)
     \<and> length (rows_of db b) < nat (fact_max_pages c) * e"

lemma serves_batch_result:
  assumes "serves_batch c tr db e b"
  shows "whole c tr b \<and> holds_rows (Facts (batch_result c tr b)) (rows_of db b)"
proof -
  let ?res = "\<lparr>HostIDs = map ID b, Facts = [], Missing = [], Pages = 0, Truncated = False, Err = None\<rparr>"
  obtain F where "holds_rows F (take (nat (fact_max_pages c) * e) (rows_of db b))"
    "batch_result c tr b = ?res\<lparr>Facts := F, Missing := missingHosts b F, Pages := int (length (rows_of db b) div e) + 1\<rparr>"
    using assms batch_pages_serves [of _ "fact_per_page c" "nat (fact_max_pages c)" e "rows_of db b" 0 ?res b]
      fact_max_pages_pos [of c]
    by (auto simp: serves_batch_def GetFactValuesBatch_def Let_def)
  then show ?thesis using assms by (simp add: serves_batch_def whole_def)
qed

lemma map_of_rows_of:
  "h \<in> Name ` set b \<Longrightarrow> map_of (rows_of db b) (h, k) = map_of db (h, k)"
  by (induction db) (auto simp: rows_of_def)

lemma hosts_of_rows_of: "h \<in> fst ` fst ` set (rows_of db b) \<longleftrightarrow> h \<in> Name ` set b \<and> h \<in> fst ` fst ` set db"
  by (force simp: rows_of_def image_image)

lemma one_batch_per_name:
  assumes "distinct (map Name (concat bs))" "b \<in> set bs" "d \<in> set bs" "h \<in> Name ` set b" "h \<in> Name ` set d"
  shows "d = b"
proof (rule ccontr)
  assume "d \<noteq> b"
  obtain x y where xy: "x \<in> set b" "Name x = h" "y \<in> set d" "Name y = h"
    using assms(4,5) by auto
  have "inj_on Name (set (concat bs))" "distinct (concat bs)"
    using assms(1) by (simp_all add: distinct_map)
  moreover have "x \<in> set (concat bs)" "y \<in> set (concat bs)"
    using xy assms(2,3) by auto
  ultimately have "x = y" using xy by (auto dest: inj_onD)
  moreover have "set b \<inter> set d = {}"
    using \<open>distinct (concat bs)\<close> \<open>d \<noteq> b\<close> assms(2,3) by (auto simp: distinct_concat_iff)
  ultimately show False using xy by auto
qed

text \<open>
  What the final map holds when every item was collected whole, has facts of its own hosts
  only and shares no host name with another.
\<close>

definition items_apart :: "(Host list \<times> BatchFactsResult) list \<Rightarrow> bool" where
  "items_apart es \<longleftrightarrow>
     (\<forall>e \<in> set es. item_ok e \<and> batch_good e \<and> fst ` set (Facts (snd e)) \<subseteq> Name ` set (fst e))
     \<and> (\<forall>d \<in> set es. \<forall>e \<in> set es. Name ` set (fst d) \<inter> Name ` set (fst e) \<noteq> {} \<longrightarrow> d = e)"

lemma items_apart_owner:
  assumes "items_apart es" "e \<in> set es" "h \<in> Name ` set (fst e)" "d \<in> set es" "map_of (Facts (snd d)) h = Some f"
  shows "d = e"
proof -
  have "h \<in> Name ` set (fst d)"
    using assms(1,4,5) by (force simp: items_apart_def dest: map_of_SomeD)
  then have "Name ` set (fst d) \<inter> Name ` set (fst e) \<noteq> {}" using assms(3) by blast
  then show ?thesis using assms(1,2,4) by (simp add: items_apart_def)
qed

lemma items_apart_lookup:
  assumes "items_apart es" "e \<in> set es" "h \<in> Name ` set (fst e)"
  shows "map_of (hostsFacts (fold (bulk_step c) es init_bulk)) h
    = map_option (filterFacts c) (map_of (Facts (snd e)) h)"
proof -
  have ok: "\<forall>e \<in> set es. item_ok e" using assms(1) by (simp add: items_apart_def)
  note owner = items_apart_owner [OF assms]
  show ?thesis
  proof (cases "map_of (Facts (snd e)) h")
    case None
    have "map_of (hostsFacts (fold (bulk_step c) es init_bulk)) h = None"
    proof (rule ccontr)
      assume "map_of (hostsFacts (fold (bulk_step c) es init_bulk)) h \<noteq> None"
      then obtain m where "map_of (hostsFacts (fold (bulk_step c) es init_bulk)) h = Some m" by auto
      from bulk_facts_sound [OF ok this] obtain d f
        where "d \<in> set es" "map_of (Facts (snd d)) h = Some f" by (auto simp: init_bulk_def)
      with owner None show False by fastforce
    qed
    with None show ?thesis by simp
  next
    case (Some f)
    have "map_of (hostsFacts (fold (bulk_step c) es init_bulk)) h = Some (filterFacts c f)"
    proof (rule bulk_facts_complete [OF ok assms(2) _ Some])
      show "batch_good e" using assms(1,2) by (simp add: items_apart_def)
      show "d = e" if "d \<in> set es" "map_of (Facts (snd d)) h \<noteq> None" for d
        using that owner by blast
    qed
    with Some show ?thesis by simp
  qed
qed

lemma items_apart_other:
  assumes "items_apart es" "\<forall>e \<in> set es. h \<notin> Name ` set (fst e)"
  shows "map_of (hostsFacts (fold (bulk_step c) es init_bulk)) h = None"
proof (rule ccontr)
  assume "map_of (hostsFacts (fold (bulk_step c) es init_bulk)) h \<noteq> None"
  then obtain m where m: "map_of (hostsFacts (fold (bulk_step c) es init_bulk)) h = Some m" by auto
  have "\<forall>e \<in> set es. item_ok e" using assms(1) by (simp add: items_apart_def)
  from bulk_facts_sound [OF this m] obtain d f
    where "d \<in> set es" "map_of (Facts (snd d)) h = Some f" by (auto simp: init_bulk_def)
  with assms show False by (force simp: items_apart_def dest: map_of_SomeD)
qed

lemma honest_items_apart:
  assumes "\<forall>b \<in> set batches. serves_batch c tr db (e b) b" "distinct (map Name (concat batches))"
    and "set es = (\<lambda>b. (b, batch_result c tr b)) ` set batches" "\<forall>e \<in> set es. item_ok e"
  shows "items_apart es"
proof -
  have served: "whole c tr b" "fst ` set (Facts (batch_result c tr b)) \<subseteq> Name ` set b" if "b \<in> set batches" for b
  proof -
    have "holds_rows (Facts (batch_result c tr b)) (rows_of db b)"
      using assms(1) that serves_batch_result by blast
    note rows = holds_rows_host [OF this]
    show "fst ` set (Facts (batch_result c tr b)) \<subseteq> Name ` set b"
    proof
      fix h
      assume "h \<in> fst ` set (Facts (batch_result c tr b))"
      then have "h \<in> fst ` fst ` set (rows_of db b)"
        using rows [of h] by (simp add: map_of_eq_None_iff)
      then show "h \<in> Name ` set b" by (simp only: hosts_of_rows_of)
    qed
    show "whole c tr b" using assms(1) that serves_batch_result by blast
  qed
  moreover have "b = d" if "b \<in> set batches" "d \<in> set batches" "Name ` set b \<inter> Name ` set d \<noteq> {}" for b d
    using one_batch_per_name [OF assms(2)] that by blast
  ultimately show ?thesis
    using assms(4) by (simp add: items_apart_def assms(3) whole_def batch_good_def) blast
qed

lemma bulk_final_lookup:
  assumes "\<forall>b \<in> set batches. serves_batch c tr db (e b) b" "distinct (map Name (concat batches))"
    and "mset order = mset [0..<length batches]"
  shows "b \<in> set batches \<Longrightarrow> h \<in> Name ` set b \<Longrightarrow>
      map_of (hostsFacts (bulk_final c tr batches order)) h
        = map_option (filterFacts c) (map_of (Facts (batch_result c tr b)) h)"
    and "h \<notin> Name ` set (concat batches) \<Longrightarrow> map_of (hostsFacts (bulk_final c tr batches order)) h = None"
proof -
  let ?es = "bulk_items c tr batches order"
  have items: "set ?es = (\<lambda>b. (b, batch_result c tr b)) ` set batches"
    using assms(3) by (rule set_bulk_items_full)
  have apart: "items_apart ?es"
    using assms(1,2) items bulk_items_ok by (rule honest_items_apart)
  show "map_of (hostsFacts (bulk_final c tr batches order)) h
        = map_option (filterFacts c) (map_of (Facts (batch_result c tr b)) h)"
    if "b \<in> set batches" "h \<in> Name ` set b"
    using items_apart_lookup [OF apart, of "(b, batch_result c tr b)" h] that by (simp add: bulk_final_def items)
  show "map_of (hostsFacts (bulk_final c tr batches order)) h = None" if "h \<notin> Name ` set (concat batches)"
    unfolding bulk_final_def using that by (intro items_apart_other [OF apart]) (auto simp: items)
qed

lemma serves_batch_fact:
  assumes "serves_batch c tr db e b" "h \<in> Name ` set b"
  shows "map_of (Facts (batch_result c tr b)) h = None \<longleftrightarrow> h \<notin> fst ` fst ` set db"
    and "map_of (Facts (batch_result c tr b)) h = Some f \<Longrightarrow> wf_map f \<and> map_of f k = map_of db (h, k)"
proof -
  have rows: "holds_rows (Facts (batch_result c tr b)) (rows_of db b)"
    using assms(1) serves_batch_result by blast
  show "map_of (Facts (batch_result c tr b)) h = None \<longleftrightarrow> h \<notin> fst ` fst ` set db"
    using holds_rows_host [OF rows] assms(2) by (simp only: hosts_of_rows_of) simp
  show "wf_map f \<and> map_of f k = map_of db (h, k)" if f: "map_of (Facts (batch_result c tr b)) h = Some f"
  proof
    show "wf_map f" using rows f by (auto simp: holds_rows_def intro: wf_hosts_facts_lookup)
    have "fact_at (Facts (batch_result c tr b)) (h, k) = map_of (rows_of db b) (h, k)"
      using rows by (simp add: holds_rows_def)
    then show "map_of f k = map_of db (h, k)"
      using f map_of_rows_of [OF assms(2)] by (simp add: fact_at_def)
  qed
qed

lemma bulk_final_facts:
  assumes "\<forall>b \<in> set batches. serves_batch c tr db (e b) b" "distinct (map Name (concat batches))"
    and "mset order = mset [0..<length batches]"
  defines "F \<equiv> hostsFacts (bulk_final c tr batches order)"
  shows "(map_of F h = None \<longleftrightarrow> h \<notin> Name ` set (concat batches) \<or> h \<notin> fst ` fst ` set db)
    \<and> fact_at F (h, k) = (case map_of db (h, k) of None \<Rightarrow> None
        | Some v \<Rightarrow> if h \<in> Name ` set (concat batches) \<and> fact_kept c k v then Some v else None)"
proof (cases "h \<in> Name ` set (concat batches)")
  case False
  then show ?thesis
    using bulk_final_lookup(2) [OF assms(1-3)] by (simp add: F_def fact_at_def split: option.splits)
next
  case True
  then obtain b where b: "b \<in> set batches" "h \<in> Name ` set b" by auto
  note served = serves_batch_fact [OF bspec [OF assms(1) b(1)] b(2)]
  note final = bulk_final_lookup(1) [OF assms(1-3) b]
  show ?thesis
  proof (cases "map_of (Facts (batch_result c tr b)) h")
    case None
    then have none: "h \<notin> fst ` fst ` set db" using served(1) by simp
    then have "(h, k) \<notin> fst ` set db" by (metis fst_conv image_eqI)
    then have "map_of db (h, k) = None" by (simp add: map_of_eq_None_iff)
    with None none show ?thesis by (simp add: F_def fact_at_def final)
  next
    case (Some f)
    then have "h \<in> fst ` fst ` set db" using served(1) by simp
    moreover have "map_of (filterFacts c f) k =
        (case map_of db (h, k) of None \<Rightarrow> None | Some v \<Rightarrow> if fact_kept c k v then Some v else None)"
      using served(2) [OF Some] fact_filter.flt_lookup [of f c k] by simp
    ultimately show ?thesis
      using Some True by (simp add: F_def fact_at_def final split: option.splits)
  qed
qed

lemma bulk_honest:
  assumes "splitHosts c hosts = Inr batches" "concat batches = hosts" "distinct (map Name hosts)"
    and "\<forall>b \<in> set batches. serves_batch c tr db (e b) b"
    and "mset order = mset [0..<length batches]"
  shows "\<exists>F ms. getHostsFactsBulk c tr hosts order = Returns ((F, None), ms)
    \<and> (\<forall>h. map_of F h = None \<longleftrightarrow> h \<notin> Name ` set hosts \<or> h \<notin> fst ` fst ` set db)
    \<and> (\<forall>h k. fact_at F (h, k) =
         (case map_of db (h, k) of None \<Rightarrow> None
          | Some v \<Rightarrow> if h \<in> Name ` set hosts \<and> fact_kept c k v then Some v else None))"
proof -
  have "\<forall>b \<in> set batches. whole c tr b" using assms(4) serves_batch_result by blast
  then have "bulk_error (int (length batches)) (bulk_final c tr batches order) = None"
    unfolding no_lost_batches [symmetric] bulk_error_def bulk_final_counters [OF assms(5)] by simp
  then have "\<exists>ms. getHostsFactsBulk c tr hosts order
      = Returns ((hostsFacts (bulk_final c tr batches order), None), ms)"
    using getHostsFactsBulk_eq [OF assms(1), of tr order] by simp
  moreover have "distinct (map Name (concat batches))" using assms(2,3) by simp
  note bulk_final_facts [OF assms(4) this assms(5)]
  ultimately show ?thesis unfolding assms(2) by blast
qed

text \<open>With an honest foreman and hosts of distinct names, a bulk collection reports no error and
  exports its database, whatever the order in which the batches complete: a host is exported if
  and only if it is one of the hosts asked for and has a fact, and then a fact is exported, with
  its value, if and only if the database has it and the filter keeps it.\<close>

theorem bulk_collects_everything:
  assumes "splitHosts c hosts = Inr batches" "concat batches = hosts" "distinct (map Name hosts)"
    and "\<forall>b \<in> set batches. serves_batch c tr db (e b) b"
    and "mset order = mset [0..<length batches]"
  shows "\<exists>F ms. getHostsFactsBulk c tr hosts order = Returns ((F, None), ms)
    \<and> (\<forall>h. map_of F h = None \<longleftrightarrow> h \<notin> Name ` set hosts \<or> h \<notin> fst ` fst ` set db)
    \<and> (\<forall>h k. fact_at F (h, k) =
         (case map_of db (h, k) of None \<Rightarrow> None
          | Some v \<Rightarrow> if h \<in> Name ` set hosts \<and> fact_kept c k v then Some v else None))"
  by (rule bulk_honest [OF assms])

theorem bulk_collects_everything_witness:
  "\<exists>F ms. getHostsFactsBulk two_page_client two_page_server two_hosts [0] = Returns ((F, None), ms)
    \<and> fact_at F (''b'', ''k'') = Some ''3''"
proof -
  have rows: "rows_of two_page_rows two_hosts = two_page_rows"
    by (simp add: rows_of_def two_page_rows_def)
  have "\<forall>b \<in> set [two_hosts]. serves_batch two_page_client two_page_server two_page_rows 2 b"
    using two_page_serves by (simp add: serves_batch_def rows) (simp add: two_page_rows_def two_page_limits)
  from bulk_collects_everything [OF two_hosts_split _ _ this, of "[0]"] show ?thesis
    by (auto simp: two_page_rows_def fact_kept_def two_page_client_def default_client_def)
qed

section \<open>The collected maps\<close>

lemma wf_store_filtered:
  "wf_hosts_facts acc \<Longrightarrow> (\<forall>e \<in> set facts. wf_map (snd e)) \<Longrightarrow> wf_hosts_facts (store_filtered c facts acc)"
proof (induction facts arbitrary: acc)
  case Nil
  then show ?case by (simp add: store_filtered_def)
next
  case (Cons e facts)
  obtain h m where e: "e = (h, m)" by (cases e)
  have "wf_map (filterFacts c m)" using Cons.prems(2) e by (simp add: fact_filter.flt_wf)
  then have "wf_hosts_facts (AList.update h (filterFacts c m) acc)"
    using Cons.prems(1) by (intro wf_hosts_facts_update)
  from Cons.IH [OF this] Cons.prems(2) show ?case by (simp add: store_filtered_def e)
qed

lemma bulk_step_wf: "item_ok e \<Longrightarrow> wf_hosts_facts (hostsFacts s) \<Longrightarrow> wf_hosts_facts (hostsFacts (bulk_step c e s))"
proof (cases e)
  case (Pair b res)
  assume "item_ok e" "wf_hosts_facts (hostsFacts s)"
  then have "wf_hosts_facts (store_filtered c (Facts res) (hostsFacts s))"
    by (intro wf_store_filtered) (simp_all add: item_ok_def Pair wf_hosts_facts_def)
  with \<open>wf_hosts_facts (hostsFacts s)\<close> show ?thesis by (simp add: bulk_step_def Pair)
qed

lemma bulk_fold_wf:
  "\<forall>e \<in> set es. item_ok e \<Longrightarrow> wf_hosts_facts (hostsFacts s) \<Longrightarrow> wf_hosts_facts (hostsFacts (fold (bulk_step c) es s))"
  by (induction es arbitrary: s) (auto intro: bulk_step_wf)

text \<open>Whatever foreman answers, what is collected is a map of maps: every host and every fact once.\<close>

lemma getHostsFactsBulk_wf:
  assumes "getHostsFactsBulk c tr hosts order = Returns ((F, err), ms)"
  shows "wf_hosts_facts F"
proof -
  obtain batches where "splitHosts c hosts = Inr batches"
    using assms by (auto simp: getHostsFactsBulk_def split: sum.splits)
  then have "F = hostsFacts (bulk_final c tr batches order)"
    using getHostsFactsBulk_eq [of c hosts batches tr order] assms by auto
  then show ?thesis
    by (simp add: bulk_final_def) (rule bulk_fold_wf [OF bulk_items_ok], simp add: init_bulk_def)
qed

end
