(* ===== verification/GoFloat.thy ===== *)
theory GoFloat
  imports Prelude "HOL-Library.Log_Nat"
begin

text \<open>
  Go's \<open>float64\<close> for the one computation the exporter does with it: the quotient of two
  integers. A value is a rational; each operation rounds its exact result to 53 significant
  bits, to the nearest value and to even on a tie (IEEE 754). Underflow and overflow cannot
  happen for quotients of 64-bit integers and are not modelled.
\<close>

section \<open>Rounding\<close>

text \<open>The exponent: \<open>2 powi f64_exp x <= x < 2 powi (f64_exp x + 1)\<close> for positive \<open>x\<close>.\<close>

definition f64_exp :: "rat \<Rightarrow> int" where
  "f64_exp x =
     (let (a, b) = quotient_of x;
          e = int (floorlog 2 (nat a)) - int (floorlog 2 (nat b))
      in if 2 powi e \<le> x then e else e - 1)"

definition round_half_even :: "rat \<Rightarrow> int" where
  "round_half_even x =
     (let q = \<lfloor>x\<rfloor>; r = x - of_int q
      in if r < 1 / 2 \<or> r = 1 / 2 \<and> even q then q else q + 1)"

definition f64 :: "rat \<Rightarrow> rat" where
  "f64 x =
     (if x = 0 then 0
      else let u = 2 powi (f64_exp \<bar>x\<bar> - 52)
           in sgn x * of_int (round_half_even (\<bar>x\<bar> / u)) * u)"

definition f64_div :: "rat \<Rightarrow> rat \<Rightarrow> rat" where
  "f64_div x y = f64 (x / y)"

lemma floorlog_rat:
  assumes "0 < a"
  shows "2 powi (int (floorlog 2 (nat a)) - 1) \<le> (of_int a :: rat)" "(of_int a :: rat) < 2 powi int (floorlog 2 (nat a))"
proof -
  have "floorlog 2 (nat a) \<noteq> 0"
    using assms by (simp add: floorlog_eq_zero_iff)
  then obtain k where k: "floorlog 2 (nat a) = Suc k"
    by (cases "floorlog 2 (nat a)") auto
  have "2 ^ k \<le> nat a" "nat a < 2 ^ Suc k"
    using floorlog_bounds [of "nat a" 2] assms k by auto
  then have "(2 ^ k :: int) \<le> a" "a < 2 ^ Suc k"
    using assms by (auto simp: nat_less_iff le_nat_iff)
  then have "of_int (2 ^ k) \<le> (of_int a :: rat)" "(of_int a :: rat) < of_int (2 ^ Suc k)"
    by (simp_all only: of_int_le_iff of_int_less_iff)
  then show "2 powi (int (floorlog 2 (nat a)) - 1) \<le> (of_int a :: rat)" "(of_int a :: rat) < 2 powi int (floorlog 2 (nat a))"
    by (simp_all add: k power_int_def nat_add_distrib)
qed

lemma f64_exp_bounds:
  assumes "0 < x"
  shows "2 powi f64_exp x \<le> x" "x < 2 * 2 powi f64_exp x"
proof -
  obtain a b where q: "quotient_of x = (a, b)" by (cases "quotient_of x")
  have x: "x = of_int a / of_int b" and b: "0 < b"
    using quotient_of_div [OF q] quotient_of_denom_pos [OF q] by auto
  then have a: "0 < a" using assms by (simp add: zero_less_divide_iff)
  define A where "A = int (floorlog 2 (nat a))"
  define B where "B = int (floorlog 2 (nat b))"
  have pow: "2 powi (A - 1) \<le> (of_int a :: rat)" "(of_int a :: rat) < 2 powi A"
    "2 powi (B - 1) \<le> (of_int b :: rat)" "(of_int b :: rat) < 2 powi B"
    using floorlog_rat [OF a] floorlog_rat [OF b] by (simp_all add: A_def B_def)
  have lower: "2 powi (A - 1 - B) \<le> x"
  proof -
    have "(2 :: rat) powi (A - 1) / 2 powi B \<le> of_int a / of_int b"
      using pow a b by (intro frac_le) (auto intro: less_imp_le)
    then show ?thesis by (simp add: x power_int_diff)
  qed
  have upper: "x < 2 powi (A - (B - 1))"
  proof -
    have "of_int a / of_int b < (2 :: rat) powi A / 2 powi (B - 1)"
      using pow a b by (intro frac_less) auto
    then show ?thesis by (simp add: x power_int_diff [of _ A "B - 1"])
  qed
  have "f64_exp x = (if 2 powi (A - B) \<le> x then A - B else A - B - 1)"
    by (simp add: f64_exp_def q A_def B_def)
  moreover have "(2 :: rat) powi (A - (B - 1)) = 2 * 2 powi (A - B)"
    "(2 :: rat) powi (A - B) = 2 * 2 powi (A - B - 1)" "A - 1 - B = A - B - 1"
    by (simp_all add: power_int_diff)
  ultimately show "2 powi f64_exp x \<le> x" "x < 2 * 2 powi f64_exp x"
    using lower upper by (auto simp only: split: if_splits)
qed

lemma round_half_even_near: "\<bar>of_int (round_half_even x) - x\<bar> \<le> 1 / 2"
proof -
  have "of_int \<lfloor>x\<rfloor> \<le> x" "x < of_int \<lfloor>x\<rfloor> + 1" by linarith+
  then show ?thesis by (auto simp: round_half_even_def Let_def)
qed

lemma round_half_even_int [simp]: "round_half_even (of_int n) = n"
  by (simp add: round_half_even_def)

lemma round_half_even_mono_int:
  assumes "x \<le> of_int n" shows "round_half_even x \<le> n"
proof -
  have "of_int \<lfloor>x\<rfloor> \<le> x" "x < of_int \<lfloor>x\<rfloor> + 1" by linarith+
  then show ?thesis using assms by (auto simp: round_half_even_def Let_def) linarith
qed


text \<open>The spacing of the values around a positive \<open>x\<close>.\<close>

definition ulp :: "rat \<Rightarrow> rat" where
  "ulp x = 2 powi (f64_exp x - 52)"

lemma ulp_pos [simp]: "0 < ulp x"
  by (simp add: ulp_def)

lemma ulp_nz [simp]: "ulp x \<noteq> 0"
  using ulp_pos [of x] by (rule less_imp_neq [symmetric])

lemma f64_pos: "0 < x \<Longrightarrow> f64 x = of_int (round_half_even (x / ulp x)) * ulp x"
  by (simp add: f64_def ulp_def Let_def)

lemma f64_near:
  assumes "0 < x" shows "\<bar>f64 x - x\<bar> \<le> ulp x / 2"
proof -
  have "f64 x - x = (of_int (round_half_even (x / ulp x)) - x / ulp x) * ulp x"
    by (simp add: f64_pos assms algebra_simps)
  moreover have "\<bar>of_int (round_half_even (x / ulp x)) - x / ulp x\<bar> * ulp x \<le> 1 / 2 * ulp x"
    using round_half_even_near by (intro mult_right_mono) (auto intro: less_imp_le)
  ultimately show ?thesis
    using less_imp_le [OF ulp_pos, of x] by (simp add: abs_mult)
qed

lemma ulp_le: "0 < x \<Longrightarrow> ulp x * 2 ^ 52 \<le> x"
  using f64_exp_bounds(1) [of x] by (simp add: ulp_def power_int_diff)

lemma int_multiple_ulp:
  assumes "f64_exp x \<le> 52" shows "\<exists>k. of_int n / ulp x = of_int k"
proof -
  have "inverse (ulp x) = 2 powi (52 - f64_exp x)"
    by (simp add: ulp_def power_int_minus [symmetric])
  also have "\<dots> = of_int (2 ^ nat (52 - f64_exp x))"
    using assms by (simp add: power_int_def)
  finally have "of_int n / ulp x = of_int (n * 2 ^ nat (52 - f64_exp x))"
    by (simp add: divide_inverse)
  then show ?thesis by blast
qed

lemma f64_exp_le:
  assumes "0 < x" "x < 2 powi k" shows "f64_exp x < k"
proof (rule ccontr)
  assume "\<not> f64_exp x < k"
  then have "(2 :: rat) powi k \<le> 2 powi f64_exp x"
    by (intro power_int_increasing) auto
  with f64_exp_bounds(1) [OF assms(1)] assms(2) show False by simp
qed

lemma f64_int:
  assumes "0 < n" "n \<le> 2 ^ 53" shows "f64 (of_int n) = of_int n"
proof -
  have "\<exists>k. of_int n / ulp (of_int n) = of_int k"
  proof (cases "n = 2 ^ 53")
    case True
    have "f64_exp (2 ^ 53) < 54" by (rule f64_exp_le) simp_all
    moreover have "\<not> f64_exp (2 ^ 53) < 53"
    proof
      assume "f64_exp (2 ^ 53) < 53"
      then have "(2 :: rat) powi f64_exp (2 ^ 53) \<le> 2 powi 52"
        by (intro power_int_increasing) auto
      with f64_exp_bounds(2) [of "2 ^ 53"] show False by simp
    qed
    ultimately have "f64_exp (of_int n) = 53" by (simp add: True)
    then have "of_int n / ulp (of_int n) = of_int (2 ^ 52)"
      by (simp add: ulp_def True)
    then show ?thesis by blast
  next
    case False
    then have "n < 2 ^ 53" using assms by simp
    then have "of_int n < (of_int (2 ^ 53) :: rat)" by (simp only: of_int_less_iff)
    then have "f64_exp (of_int n) < 53"
      using assms by (intro f64_exp_le) auto
    then show ?thesis by (intro int_multiple_ulp) simp
  qed
  then obtain k where "of_int n / ulp (of_int n) = of_int k" by blast
  moreover have "f64 (of_int n) = of_int (round_half_even (of_int n / ulp (of_int n))) * ulp (of_int n)"
    using assms by (intro f64_pos) simp
  ultimately have "f64 (of_int n) = of_int n / ulp (of_int n) * ulp (of_int n)" by simp
  then show ?thesis by simp
qed


lemma half_ulp_less:
  assumes "1 < x" "x \<noteq> of_int \<lceil>x\<rceil>" "0 < b" "of_int b * x = of_int a" "a \<le> 2 ^ 53"
  shows "ulp x / 2 < 1 / of_int b"
proof -
  have x: "0 < x" using assms(1) by simp
  have "0 \<le> f64_exp x"
  proof -
    have "(2 :: rat) * 2 powi f64_exp x \<le> 1" if "f64_exp x \<le> - 1"
    proof -
      have "(2 :: rat) powi f64_exp x \<le> 2 powi (- 1)"
        using that by (intro power_int_increasing) auto
      then show ?thesis by (simp add: power_int_minus)
    qed
    with assms(1) f64_exp_bounds(2) [OF x] show ?thesis by force
  qed
  then have "(2 :: rat) powi f64_exp x = of_int (2 ^ nat (f64_exp x))"
    by (simp add: power_int_def)
  then have "ulp x * 2 ^ 52 = of_int (2 ^ nat (f64_exp x))"
    by (simp add: ulp_def power_int_diff)
  moreover have "x \<noteq> of_int k" for k
  proof
    assume k: "x = of_int k"
    then have "\<lceil>x\<rceil> = k" by simp
    with k assms(2) show False by simp
  qed
  ultimately have "ulp x * 2 ^ 52 < x"
    using ulp_le [OF x] by (metis order_le_less)
  then have "of_int b * (ulp x * 2 ^ 52) < of_int b * x"
    using assms(3) by (intro mult_strict_left_mono) auto
  also have "of_int b * x \<le> of_int (2 ^ 53)"
    using assms(5) by (simp only: assms(4) of_int_le_iff)
  finally show ?thesis
    using assms(3) by (simp add: field_simps)
qed

text \<open>
  Rounding the quotient of two integers of at most 53 bits does not change its ceiling: the
  exact quotient is further above the integer below it than half the spacing.
\<close>

lemma ceiling_f64_div:
  assumes "0 < a" "a \<le> 2 ^ 53" "0 < b"
  shows "\<lceil>f64 (of_int a / of_int b)\<rceil> = \<lceil>of_int a / of_int b :: rat\<rceil>"
proof -
  define x :: rat where "x = of_int a / of_int b"
  define n where "n = \<lceil>x\<rceil>"
  have x: "0 < x" using assms by (simp add: x_def)
  have ba: "of_int b * x = of_int a" using assms by (simp add: x_def)
  have "x \<le> of_int a" using assms by (simp add: x_def field_simps)
  then have "n \<le> a" by (simp add: n_def ceiling_le_iff)
  then have "n \<le> 2 ^ 53" using assms(2) by (rule order_trans)
  moreover have "0 < n" using x by (simp add: n_def)
  ultimately have n: "0 < n" "n \<le> 2 ^ 53" by auto
  show ?thesis
  proof (cases "x = of_int n")
    case True
    then show ?thesis using f64_int [OF n] by (simp add: x_def)
  next
    case False
    note False' = False
    have below: "of_int n - 1 < x" "x < of_int n"
      using False by (simp_all add: n_def) linarith+
    have "x < of_int (2 ^ 53)"
      using below(2) n(2) by (metis of_int_le_iff order_less_le_trans)
    then have e: "f64_exp x \<le> 52"
      using x f64_exp_le [of x 53] by simp
    have "f64 x \<le> of_int n"
    proof -
      obtain k where k: "of_int n / ulp x = of_int k" using int_multiple_ulp [OF e] by blast
      have "x / ulp x \<le> of_int n / ulp x" using below by (intro divide_right_mono) (auto intro: less_imp_le)
      then have "round_half_even (x / ulp x) \<le> k" by (intro round_half_even_mono_int) (simp add: k)
      then have "of_int (round_half_even (x / ulp x)) * ulp x \<le> of_int k * ulp x"
        by (intro mult_right_mono) (auto intro: less_imp_le)
      also have "of_int k * ulp x = of_int n" using k by (simp add: nonzero_divide_eq_eq)
      finally show ?thesis by (simp add: f64_pos x)
    qed
    moreover have "of_int n - 1 < f64 x"
    proof (cases "n = 1")
      case True
      have "ulp x / 2 < x" using ulp_le [OF x, simplified] ulp_pos [of x] by linarith
      then have "0 < f64 x" using f64_near [OF x] unfolding abs_le_iff by linarith
      then show ?thesis using True by simp
    next
      case False
      have gap: "of_int n - 1 + 1 / of_int b \<le> x"
      proof -
        have "of_int b * (of_int n - 1) < (of_int a :: rat)"
          using below(1) assms(3) ba mult_strict_left_mono [of "of_int n - 1" x "of_int b"] by simp
        then have "of_int (b * (n - 1)) < (of_int a :: rat)" by simp
        then have "b * (n - 1) + 1 \<le> a" by (simp only: of_int_less_iff)
        then have "of_int (b * (n - 1) + 1) \<le> (of_int a :: rat)" by (simp only: of_int_le_iff)
        then have "of_int b * (of_int n - 1 + 1 / of_int b) \<le> of_int b * x"
          using assms(3) by (simp add: ba ring_distribs)
        then show ?thesis using assms(3) by (simp only: mult_le_cancel_left_pos of_int_0_less_iff)
      qed
      have "1 < x"
      proof -
        have "2 \<le> n" using False n(1) by simp
        then have "(2 :: rat) \<le> of_int n" by (metis of_int_le_iff of_int_numeral)
        then show ?thesis using below(1) by linarith
      qed
      then have "ulp x / 2 < 1 / of_int b"
        using False' assms(2,3) ba by (intro half_ulp_less) (auto simp: n_def)
      then show ?thesis using gap f64_near [OF x] unfolding abs_le_iff by linarith
    qed
    ultimately have "\<lceil>f64 x\<rceil> = n" by (intro ceiling_unique) auto
    then show ?thesis by (simp add: x_def [symmetric] n_def)
  qed
qed

end
