(* ===== verification/HostList.thy ===== *)
theory HostList
  imports FactBulk GoFloat
begin

text \<open>
  The host list (foreman/foreman.go): how many pages to ask for, \<open>GetHostsFiltered\<close> for the
  host collector and \<open>GetHostsFactsFiltered\<close> for the fact collector, which lists the hosts
  before it collects their facts in bulk or one by one.
\<close>

section \<open>Counting pages\<close>

definition expectedHosts :: "HostResponse \<Rightarrow> int" where
  "expectedHosts resp = (case Subtotal resp of Some n \<Rightarrow> n | None \<Rightarrow> Total resp)"

text \<open>What the limit leaves of a number of hosts.\<close>

definition limited :: "HTTPClient \<Rightarrow> int \<Rightarrow> int" where
  "limited c n = (if Limit c \<noteq> 0 \<and> Limit c < n then Limit c else n)"

text \<open>
  The conversion to \<open>int64\<close> is the one of amd64; only the quotient \<open>2 ^ 63\<close> is out of range.
\<close>

definition pageCount :: "HTTPClient \<Rightarrow> int \<Rightarrow> int \<Rightarrow> int" where
  "pageCount c expected perPage =
     (if perPage \<le> 0 \<or> expected \<le> 0 then 0
      else i64 \<lceil>f64_div (f64 (of_int (limited c expected))) (f64 (of_int perPage))\<rceil>)"

section \<open>The hosts of the host collector\<close>

text \<open>Results of pages, in the order of the pages.\<close>

definition page_hosts :: "(nat \<times> (go_error + HostResponse)) list \<Rightarrow> Host list" where
  "page_hosts results = concat (map (\<lambda>(i, r). case r of Inl _ \<Rightarrow> [] | Inr resp \<Rightarrow> Results resp) results)"

definition failed_items :: "(nat \<times> (go_error + 'r)) list \<Rightarrow> int" where
  "failed_items results = int (length (filter (\<lambda>(i, r). case r of Inl _ \<Rightarrow> True | Inr _ \<Rightarrow> False) results))"

definition GetHostsFiltered :: "HTTPClient \<Rightarrow> transport \<Rightarrow> int \<Rightarrow> nat list
    \<Rightarrow> ((Host list \<times> go_error option) \<times> metric list) outcome" where
  "GetHostsFiltered c tr perPage arr =
     (let perPage = limited c perPage
      in case GetHosts c tr ''true'' 1 1 of
           (Inl e, ms) \<Rightarrow> Returns (([], Some (CannotGetHosts e)), ms)
         | (Inr hostsFirstPage, ms) \<Rightarrow>
             (let expected = expectedHosts hostsFirstPage;
                  pages = pageCount c expected perPage
              in if pages = 0 then Returns (([], None), ms)
                 else if pages < 0 then Panics MakeSlice
                 else bind_outcome (GetHostWithConcurrency c tr ''false'' [1..pages] perPage arr)
                   (\<lambda>(results, ms').
                      let hostResults = page_hosts results;
                          errCount = failed_items results;
                          expected = limited c expected
                      in Returns ((hostResults,
                           if errCount > 0 \<or> int (length hostResults) < expected
                           then Some (IncompleteHosts expected (int (length hostResults)) errCount pages)
                           else None), ms @ ms'))))"

section \<open>The facts of the fact collector\<close>

definition first_failed :: "(nat \<times> (go_error + 'r)) list \<Rightarrow> (nat \<times> go_error) option" where
  "first_failed results =
     (case filter (\<lambda>(i, r). case r of Inl _ \<Rightarrow> True | Inr _ \<Rightarrow> False) results of
        (i, Inl e) # _ \<Rightarrow> Some (i, e)
      | _ \<Rightarrow> None)"

text \<open>The host list: the first page, then the others at once. An error anywhere ends it.\<close>

definition list_hosts :: "HTTPClient \<Rightarrow> transport \<Rightarrow> nat list
    \<Rightarrow> ((go_error + Host list) \<times> metric list) outcome" where
  "list_hosts c tr arr =
     (let perPage = limited c (if HostListPerPage c \<le> 0 then defaultHostListPerPage else HostListPerPage c)
      in case GetHosts c tr ''true'' 1 perPage of
           (Inl e, ms) \<Rightarrow> Returns (Inl (CannotGetHosts e), ms)
         | (Inr hostsFirstPage, ms) \<Rightarrow>
             (let effPerPage = (if PerPage hostsFirstPage \<le> 0 then perPage else PerPage hostsFirstPage);
                  pages = pageCount c (expectedHosts hostsFirstPage) effPerPage
              in if pages > 1
                 then bind_outcome
                   (GetHostWithConcurrency c tr ''true'' [i64 (Page hostsFirstPage + 1)..pages] perPage arr)
                   (\<lambda>(results, ms').
                      case first_failed results of
                        Some (i, e) \<Rightarrow> Returns (Inl (CannotGetPage (int i + 2) pages e), ms @ ms')
                      | None \<Rightarrow> Returns (Inr (Results hostsFirstPage @ page_hosts results), ms @ ms'))
                 else Returns (Inr (Results hostsFirstPage), ms)))"

text \<open>The facts of each host by a request of its own.\<close>

definition collect_facts :: "HTTPClient \<Rightarrow> (nat \<times> (go_error + HostFactsResponse)) list \<Rightarrow> hosts_facts" where
  "collect_facts c results =
     fold (\<lambda>(i, r) acc. case r of Inl _ \<Rightarrow> acc | Inr resp \<Rightarrow> store_filtered c (FResults resp) acc) results []"

definition getHostsFactsEach :: "HTTPClient \<Rightarrow> transport \<Rightarrow> Host list \<Rightarrow> nat list
    \<Rightarrow> ((hosts_facts \<times> go_error option) \<times> metric list) outcome" where
  "getHostsFactsEach c tr hosts arr =
     bind_outcome (GetHostFactsWithConcurrency c tr hosts arr)
       (\<lambda>(results, ms).
          let errCount = failed_items results; hostsTotal = int (length hosts)
          in Returns ((collect_facts c results,
               if errCount > 0 then Some (ExpectedGot hostsTotal (hostsTotal - errCount)) else None), ms))"

definition GetHostsFactsFiltered :: "HTTPClient \<Rightarrow> transport \<Rightarrow> nat list \<Rightarrow> nat list
    \<Rightarrow> ((hosts_facts \<times> go_error option) \<times> metric list) outcome" where
  "GetHostsFactsFiltered c tr arr1 arr2 =
     bind_outcome (list_hosts c tr arr1)
       (\<lambda>(listed, ms). case listed of
          Inl e \<Rightarrow> Returns (([], Some e), ms)
        | Inr hosts \<Rightarrow>
            bind_outcome (if BulkFacts c then getHostsFactsBulk c tr hosts arr2
                          else getHostsFactsEach c tr hosts arr2)
              (\<lambda>(r, ms'). Returns (r, ms @ [SetElapsed ''hostListDurationMetric''] @ ms')))"

section \<open>Page arithmetic\<close>

lemma i64_small: "0 \<le> n \<Longrightarrow> n < 2 ^ 63 \<Longrightarrow> i64 n = n"
  by (simp add: is_i64_def)

text \<open>\<open>ceil_div n p\<close> pages of \<open>p\<close> items cover \<open>n\<close> items.\<close>

definition ceil_div :: "int \<Rightarrow> int \<Rightarrow> int" where
  "ceil_div n p = (n + p - 1) div p"

lemma ceil_div_bounds:
  assumes "0 < p" "0 < n"
  shows "n \<le> ceil_div n p * p" "ceil_div n p * p < n + p" "1 \<le> ceil_div n p" "ceil_div n p \<le> n"
proof -
  have m: "ceil_div n p * p + (n + p - 1) mod p = n + p - 1"
    by (simp add: ceil_div_def)
  moreover have "0 \<le> (n + p - 1) mod p" "(n + p - 1) mod p < p" using assms by simp_all
  ultimately show bounds: "n \<le> ceil_div n p * p" "ceil_div n p * p < n + p" by linarith+
  show "1 \<le> ceil_div n p"
  proof (rule ccontr)
    assume "\<not> 1 \<le> ceil_div n p"
    then have "ceil_div n p * p \<le> 0" using assms by (simp add: mult_nonpos_nonneg)
    with bounds(1) assms show False by simp
  qed
  show "ceil_div n p \<le> n"
  proof (rule ccontr)
    assume "\<not> ceil_div n p \<le> n"
    then have "(n + 1) * p \<le> ceil_div n p * p" using assms by (intro mult_right_mono) auto
    moreover have "n \<le> n * p" using assms by simp
    ultimately show False using bounds(2) by (simp add: distrib_right)
  qed
qed

lemma ceiling_ceil_div:
  assumes "0 < p" "0 < n"
  shows "\<lceil>of_int n / of_int p :: rat\<rceil> = ceil_div n p"
proof -
  have "- n div p = - ceil_div n p"
    using ceil_div_bounds [OF assms] by (intro int_div_pos_eq [where r = "ceil_div n p * p - n"]) (auto simp: algebra_simps)
  then show ?thesis by (simp add: ceiling_divide_eq_div)
qed

text \<open>The number of pages is the exact ceiling, although the code computes it with floats.\<close>

lemma pageCount_ceil:
  assumes "0 < perPage" "perPage \<le> 2 ^ 53" "0 < expected" "0 < limited c expected" "limited c expected \<le> 2 ^ 53"
  shows "pageCount c expected perPage = ceil_div (limited c expected) perPage"
proof -
  let ?n = "limited c expected"
  have "f64_div (f64 (of_int ?n)) (f64 (of_int perPage)) = f64 (of_int ?n / of_int perPage)"
    using assms by (simp only: f64_div_def f64_int)
  then have "\<lceil>f64_div (f64 (of_int ?n)) (f64 (of_int perPage))\<rceil> = ceil_div ?n perPage"
    using ceiling_f64_div [OF assms(4,5,1)] ceiling_ceil_div [OF assms(1,4)] by simp
  moreover have "i64 (ceil_div ?n perPage) = ceil_div ?n perPage"
    using ceil_div_bounds(3,4) [OF assms(1,4)] assms(5) by (intro i64_small) auto
  ultimately show ?thesis using assms(1,3) by (simp add: pageCount_def)
qed

section \<open>Pages of hosts\<close>

text \<open>Page \<open>k\<close> (from 1) of a list in pages of \<open>p\<close>.\<close>

definition host_page :: "int \<Rightarrow> Host list \<Rightarrow> int \<Rightarrow> Host list" where
  "host_page p hs k = take (nat p) (drop (nat ((k - 1) * p)) hs)"

lemma concat_pages:
  assumes "0 < p"
  shows "concat (map (host_page p hs) [1..int n]) = take (n * nat p) hs"
proof (induction n)
  case (Suc n)
  have "[1..int (Suc n)] = [1..int n] @ [int n + 1]"
    by (simp add: upto_rec2)
  moreover have "host_page p hs (int n + 1) = take (nat p) (drop (n * nat p) hs)"
    using assms by (simp add: host_page_def nat_mult_distrib)
  ultimately show ?case
    using Suc by (simp add: take_add [symmetric] add.commute)
qed simp

text \<open>
  Foreman's documented paging for hosts: the pages asked for answer with the hosts' slices of
  the page size that the server applied.
\<close>

definition serves_pages :: "HTTPClient \<Rightarrow> transport \<Rightarrow> string \<Rightarrow> int \<Rightarrow> int \<Rightarrow> Host list \<Rightarrow> int list \<Rightarrow> bool" where
  "serves_pages c tr thin perPage p hs ks \<longleftrightarrow>
     0 < p \<and> list_all (\<lambda>k. case fst (GetHosts c tr thin k perPage) of
        Inl _ \<Rightarrow> False | Inr resp \<Rightarrow> Results resp = host_page p hs k) ks"

text \<open>The results of a complete run over the pages \<open>ks\<close>.\<close>

definition page_results :: "HTTPClient \<Rightarrow> transport \<Rightarrow> string \<Rightarrow> int \<Rightarrow> int list \<Rightarrow> (nat \<times> (go_error + HostResponse)) list" where
  "page_results c tr thin perPage ks = map (\<lambda>i. (i, fst (GetHosts c tr thin (ks ! i) perPage))) [0..<length ks]"

lemma GetHostWithConcurrency_returns:
  assumes "1 \<le> Concurrency c" "mset arr = mset [0..<length ks]"
  shows "\<exists>ms. GetHostWithConcurrency c tr thin ks perPage arr = Returns (page_results c tr thin perPage ks, ms)"
  using assms
  by (cases "ks = []")
    (simp_all add: GetHostWithConcurrency_def fan_out_def page_results_def sort_key_map_upt)

lemma serves_pages_results:
  assumes "serves_pages c tr thin perPage p hs ks"
  shows "failed_items (page_results c tr thin perPage ks) = 0"
    and "first_failed (page_results c tr thin perPage ks) = None"
    and "page_hosts (page_results c tr thin perPage ks) = concat (map (host_page p hs) ks)"
proof -
  have served: "\<exists>resp. fst (GetHosts c tr thin (ks ! i) perPage) = Inr resp \<and> Results resp = host_page p hs (ks ! i)"
    if "i < length ks" for i
  proof -
    have "case fst (GetHosts c tr thin (ks ! i) perPage) of
        Inl _ \<Rightarrow> False | Inr resp \<Rightarrow> Results resp = host_page p hs (ks ! i)"
      using assms that by (simp add: serves_pages_def list_all_length)
    then show ?thesis by (auto split: sum.splits)
  qed
  then have none: "filter (\<lambda>(i, r). case r of Inl _ \<Rightarrow> True | Inr _ \<Rightarrow> False) (page_results c tr thin perPage ks) = []"
    by (force simp: page_results_def filter_empty_conv)
  then show "failed_items (page_results c tr thin perPage ks) = 0"
    "first_failed (page_results c tr thin perPage ks) = None"
    by (simp_all add: failed_items_def first_failed_def)
  have "map (\<lambda>i. case fst (GetHosts c tr thin (ks ! i) perPage) of Inl _ \<Rightarrow> [] | Inr resp \<Rightarrow> Results resp) [0..<length ks]
      = map (\<lambda>i. host_page p hs (ks ! i)) [0..<length ks]"
    by (intro map_cong) (auto dest: served split: sum.splits)
  also have "\<dots> = map (host_page p hs) ks"
    by (auto intro: nth_equalityI)
  finally show "page_hosts (page_results c tr thin perPage ks) = concat (map (host_page p hs) ks)"
    by (simp add: page_hosts_def page_results_def comp_def)
qed

section \<open>Properties of the host collector's list\<close>

text \<open>C32: The number of pages is exactly the ceiling of the number of hosts wanted over the page size, for
  every count and page size up to \<open>2 ^ 53\<close>, although the code divides two rounded floats and rounds
  the quotient again before it takes the ceiling.\<close>

theorem pageCount_exact:
  assumes "0 < perPage" "perPage \<le> 2 ^ 53" "0 < expected" "0 < limited c expected" "limited c expected \<le> 2 ^ 53"
  shows "(pageCount c expected perPage - 1) * perPage < limited c expected
    \<and> limited c expected \<le> pageCount c expected perPage * perPage"
  using ceil_div_bounds [OF assms(1,4)] by (simp add: pageCount_ceil [OF assms] left_diff_distrib)

theorem pageCount_exact_witness:
  "(pageCount default_client 1001 250 - 1) * 250 < 1001 \<and> 1001 \<le> pageCount default_client 1001 250 * 250"
  using pageCount_exact [of 250 1001 default_client] by (simp add: limited_def default_client_def)

text \<open>The list that an honest foreman of the hosts \<open>hs\<close> gives.\<close>

lemma GetHostsFiltered_honest:
  assumes "1 \<le> Concurrency c" "0 < limited c perPage" "limited c perPage \<le> 2 ^ 53"
    and "fst (GetHosts c tr ''true'' 1 1) = Inr first" "expectedHosts first = int (length hs)" "hs \<noteq> []"
    and "0 < limited c (int (length hs))" "limited c (int (length hs)) \<le> 2 ^ 53"
    and "serves_pages c tr ''false'' (limited c perPage) (limited c perPage) hs
           [1..ceil_div (limited c (int (length hs))) (limited c perPage)]"
    and "mset arr = mset [0..<nat (ceil_div (limited c (int (length hs))) (limited c perPage))]"
  shows "\<exists>ms. GetHostsFiltered c tr perPage arr = Returns
    ((take (nat (ceil_div (limited c (int (length hs))) (limited c perPage) * limited c perPage)) hs, None), ms)"
proof -
  let ?p = "limited c perPage" let ?n = "limited c (int (length hs))" let ?k = "ceil_div ?n ?p"
  have k: "1 \<le> ?k" "?n \<le> ?k * ?p" using ceil_div_bounds [OF assms(2,7)] by auto
  have pages: "pageCount c (expectedHosts first) ?p = ?k"
    using assms(2,3,5-8) by (simp add: pageCount_ceil)
  have "length [1..?k] = nat ?k" by simp
  then obtain ms where run: "GetHostWithConcurrency c tr ''false'' [1..?k] ?p arr
      = Returns (page_results c tr ''false'' ?p [1..?k], ms)"
    using GetHostWithConcurrency_returns [OF assms(1), of arr "[1..?k]"] assms(10) by fastforce
  have "int (nat ?k) = ?k" using k by simp
  then have "concat (map (host_page ?p hs) [1..?k]) = take (nat ?k * nat ?p) hs"
    using concat_pages [OF assms(2), of hs "nat ?k"] by simp
  then have hosts: "page_hosts (page_results c tr ''false'' ?p [1..?k]) = take (nat (?k * ?p)) hs"
    using k assms(2) serves_pages_results(3) [OF assms(9)] by (simp add: nat_mult_distrib)
  have "?n \<le> int (length hs)" by (simp add: limited_def)
  then have enough: "\<not> int (length (take (nat (?k * ?p)) hs)) < ?n"
    using k by simp
  obtain ms' where "GetHosts c tr ''true'' 1 1 = (Inr first, ms')"
    using assms(4) by (metis prod.collapse)
  then show ?thesis
    using k enough
    by (simp add: GetHostsFiltered_def Let_def pages run hosts serves_pages_results(1) [OF assms(9)])
      (simp add: assms(5))
qed


text \<open>A fleet of four hosts that a foreman lists in pages of two, for examples.\<close>

definition fleet :: "Host list" where
  "fleet = [example_host 7 ''a'', example_host 9 ''b'', example_host 11 ''c'', example_host 13 ''d'']"

definition fleet_page :: "Host list \<Rightarrow> string + http_response" where
  "fleet_page hs = Inr \<lparr>StatusCode = 200, Body = Inr \<lparr>body_text = [], body_json = Some (JObj
     [(''subtotal'', JInt 4), (''page'', JInt 1), (''per_page'', JInt 2),
      (''results'', JArr (map (\<lambda>h. JObj [(''id'', JInt (ID h)), (''name'', JStr (Name h))]) hs))])\<rparr>\<rparr>"

definition fleet_server :: transport where
  "fleet_server r = fleet_page (if take 6 (req_query r) = ''page=1'' then take 2 fleet else drop 2 fleet)"

definition fleet_client :: HTTPClient where
  "fleet_client = default_client\<lparr>FactPerPage := 2, FactMaxPages := 2\<rparr>"

lemma fleet_fields [simp]:
  "Limit fleet_client = 0" "Concurrency fleet_client = 4" "Search fleet_client = []" "HostListPerPage fleet_client = 5000"
  "BulkFacts fleet_client = True"
  by (simp_all add: fleet_client_def default_client_def)

lemma Values_Encode_thin:
  "Values_Encode [(''search'', s), (''thin'', t), (''page'', p), (''per_page'', q)]
    = ''page='' @ QueryEscape p @ ''&per_page='' @ QueryEscape q @ ''&search='' @ QueryEscape s @ ''&thin='' @ QueryEscape t"
  by (simp add: Values_Encode_def QueryEscape_def escape_byte_def unreserved_def)

lemmas eval_host_page =
  GetHosts_def DoWithContext_def newJSONRequest_def Let_def decode_HostResponse_def
  set_HostResponse_field_def zero_HostResponse_def set_Host_field_def lower_def is_i64_def

definition fleet_answer :: "nat \<Rightarrow> HostResponse" where
  "fleet_answer k = \<lparr>Total = 0, Subtotal = Some 4, Page = 1, PerPage = 2,
     Results = (if k = 1 then take 2 fleet else drop 2 fleet)\<rparr>"

lemma fleet_size [simp]: "length fleet = 4" "fleet \<noteq> []"
  by (simp_all add: fleet_def)

text \<open>What the fleet's server answers to the client, whatever the page size asked for.\<close>

lemma fleet_answers:
  assumes "thin = ''true'' \<or> thin = ''false''" "Search c = []"
  shows "fst (GetHosts c fleet_server thin 1 p)
      = Inr (fleet_answer 1)"
    and "fst (GetHosts c fleet_server thin 2 p)
      = Inr (fleet_answer 2)"
  using assms
  by (auto simp: eval_host_page fleet_server_def fleet_page_def fleet_answer_def Values_Encode_thin Values_Encode_paged fleet_def
      FormatInt_def decimal.simps QueryEscape_def escape_byte_def unreserved_def example_host_def zero_Host_def)

text \<open>Against a foreman that pages as documented and with no limit set, the host collector gets every
  host, in the foreman's order, and reports no error.\<close>

theorem GetHostsFiltered_complete:
  assumes "1 \<le> Concurrency c" "Limit c = 0" "0 < perPage" "perPage \<le> 2 ^ 53"
    and "fst (GetHosts c tr ''true'' 1 1) = Inr first" "expectedHosts first = int (length hs)"
    and "hs \<noteq> []" "int (length hs) \<le> 2 ^ 53"
    and "serves_pages c tr ''false'' perPage perPage hs [1..ceil_div (int (length hs)) perPage]"
    and "mset arr = mset [0..<nat (ceil_div (int (length hs)) perPage)]"
  shows "\<exists>ms. GetHostsFiltered c tr perPage arr = Returns ((hs, None), ms)"
proof -
  have lim: "limited c n = n" for n using assms(2) by (simp add: limited_def)
  have "int (length hs) \<le> ceil_div (int (length hs)) perPage * perPage"
    using assms(3,7) by (intro ceil_div_bounds) auto
  then show ?thesis
    using GetHostsFiltered_honest [of c perPage tr first hs arr] assms by (simp add: lim)
qed

lemma two_pages:
  "ceil_div 4 2 = 2" "ceil_div 3 2 = 2" "[1..2] = [1, 2 :: int]" "mset_set {0..<2} = {#0, Suc 0#}"
proof -
  have "[0..<2] = [0, Suc 0]" by (simp add: upt_rec)
  then show "mset_set {0..<2} = {#0, Suc 0#}" by (metis mset_upt mset.simps)
qed (simp_all add: ceil_div_def upto.simps)

theorem GetHostsFiltered_complete_witness:
  "\<exists>ms. GetHostsFiltered fleet_client fleet_server 2 [1, 0] = Returns ((fleet, None), ms)"
proof -
  have "serves_pages fleet_client fleet_server ''false'' 2 2 fleet [1, 2]"
    by (simp add: serves_pages_def fleet_answers fleet_answer_def host_page_def)
  then show ?thesis
    using GetHostsFiltered_complete [of fleet_client 2 fleet_server "fleet_answer 1" fleet "[1, 0]"]
    by (simp add: two_pages fleet_answers expectedHosts_def fleet_answer_def)
qed

text \<open>The limit is rounded up to whole pages: with a limit above the page size the collector returns
  \<open>ceil (limit / page size)\<close> full pages of hosts, more than the limit when it is no multiple of the
  page size and the foreman has more hosts.\<close>

theorem GetHostsFiltered_limit_rounds_up:
  assumes "1 \<le> Concurrency c" "0 < perPage" "perPage \<le> Limit c" "Limit c \<le> 2 ^ 53"
    and "fst (GetHosts c tr ''true'' 1 1) = Inr first" "expectedHosts first = int (length hs)"
    and "Limit c < int (length hs)"
    and "serves_pages c tr ''false'' perPage perPage hs [1..ceil_div (Limit c) perPage]"
    and "mset arr = mset [0..<nat (ceil_div (Limit c) perPage)]"
  shows "\<exists>ms. GetHostsFiltered c tr perPage arr
      = Returns ((take (nat (ceil_div (Limit c) perPage * perPage)) hs, None), ms)
    \<and> (\<not> perPage dvd Limit c \<longrightarrow>
        Limit c < int (length (take (nat (ceil_div (Limit c) perPage * perPage)) hs)))"
proof -
  have L: "0 < Limit c" using assms(2,3) by simp
  have lim: "limited c perPage = perPage" "limited c (int (length hs)) = Limit c"
    using assms(3,7) L by (auto simp: limited_def)
  have "hs \<noteq> []" using assms(7) L by auto
  then have "\<exists>ms. GetHostsFiltered c tr perPage arr
      = Returns ((take (nat (ceil_div (Limit c) perPage * perPage)) hs, None), ms)"
    using GetHostsFiltered_honest [of c perPage tr first hs arr] assms L by (simp add: lim)
  moreover have "Limit c < ceil_div (Limit c) perPage * perPage" if "\<not> perPage dvd Limit c"
    using that ceil_div_bounds(1) [OF assms(2) L] by (metis dvd_triv_right order_le_less)
  ultimately show ?thesis using assms(7) by auto
qed

theorem GetHostsFiltered_limit_rounds_up_witness:
  "\<exists>ms. GetHostsFiltered (fleet_client\<lparr>Limit := 3\<rparr>) fleet_server 2 [0, 1] = Returns ((fleet, None), ms)
    \<and> 3 < int (length fleet)"
proof -
  let ?c = "fleet_client\<lparr>Limit := 3\<rparr>"
  have "serves_pages ?c fleet_server ''false'' 2 2 fleet [1, 2]"
    by (simp add: serves_pages_def fleet_answers fleet_answer_def host_page_def)
  then show ?thesis
    using GetHostsFiltered_limit_rounds_up [of ?c 2 fleet_server "fleet_answer 1" fleet "[0, 1]"]
    by (simp add: two_pages fleet_answers expectedHosts_def fleet_answer_def)
qed

lemma complete_without_error:
  assumes "1 \<le> Concurrency c" "fst (GetHosts c tr ''true'' 1 1) = Inr first"
    and "pageCount c (expectedHosts first) (limited c perPage) = pages" "0 < pages"
    and "mset arr = mset [0..<nat pages]"
    and "GetHostsFiltered c tr perPage arr = Returns ((hs, None), ms)"
  shows "limited c (expectedHosts first) \<le> int (length hs)
    \<and> (\<forall>k. 1 \<le> k \<and> k \<le> pages \<longrightarrow> (\<exists>resp. fst (GetHosts c tr ''false'' k (limited c perPage)) = Inr resp))
    \<and> hs = page_hosts (page_results c tr ''false'' (limited c perPage) [1..pages])"
proof -
  let ?rs = "page_results c tr ''false'' (limited c perPage) [1..pages]"
  obtain ms' where run: "GetHostWithConcurrency c tr ''false'' [1..pages] (limited c perPage) arr = Returns (?rs, ms')"
    using GetHostWithConcurrency_returns [OF assms(1), of arr "[1..pages]"] assms(5) by fastforce
  obtain ms1 where first: "GetHosts c tr ''true'' 1 1 = (Inr first, ms1)"
    using assms(2) by (metis prod.collapse)
  have res: "hs = page_hosts ?rs" "failed_items ?rs = 0" "limited c (expectedHosts first) \<le> int (length hs)"
    using assms(3,4,6)
    by (auto simp: GetHostsFiltered_def Let_def first run failed_items_def split: if_splits)
  have "\<exists>resp. fst (GetHosts c tr ''false'' k (limited c perPage)) = Inr resp" if "1 \<le> k" "k \<le> pages" for k
  proof -
    have k: "nat (k - 1) < length [1..pages]" "[1..pages] ! nat (k - 1) = k" using that by auto
    then have "(nat (k - 1), fst (GetHosts c tr ''false'' k (limited c perPage))) \<in> set ?rs"
      unfolding page_results_def by (metis (no_types, lifting) atLeastLessThan_iff image_eqI le0 list.set_map set_upt)
    with res(2) show ?thesis
      by (fastforce simp: failed_items_def filter_empty_conv split: sum.splits)
  qed
  with res show ?thesis by simp
qed

text \<open>C24: The host collector never passes a partial list off as complete: whatever the foreman answers, a
  list without an error is made of the results of all its pages, each of which was answered,
  and has at least as many hosts as the foreman announced, or as the limit asks for.\<close>

theorem GetHostsFiltered_no_silent_loss:
  assumes "1 \<le> Concurrency c" "fst (GetHosts c tr ''true'' 1 1) = Inr first"
    and "pageCount c (expectedHosts first) (limited c perPage) = pages" "0 < pages"
    and "mset arr = mset [0..<nat pages]"
    and "GetHostsFiltered c tr perPage arr = Returns ((hs, None), ms)"
  shows "limited c (expectedHosts first) \<le> int (length hs)
    \<and> (\<forall>k. 1 \<le> k \<and> k \<le> pages \<longrightarrow> (\<exists>resp. fst (GetHosts c tr ''false'' k (limited c perPage)) = Inr resp))
    \<and> hs = page_hosts (page_results c tr ''false'' (limited c perPage) [1..pages])"
  by (rule complete_without_error [OF assms])

theorem GetHostsFiltered_no_silent_loss_witness:
  "limited fleet_client (expectedHosts (fleet_answer 1)) \<le> int (length fleet)
    \<and> fleet = page_hosts (page_results fleet_client fleet_server ''false'' 2 [1, 2])"
proof -
  have lim: "limited fleet_client n = n" for n by (simp add: limited_def)
  have pages: "pageCount fleet_client (expectedHosts (fleet_answer 1)) (limited fleet_client 2) = 2"
    by (simp add: lim expectedHosts_def fleet_answer_def pageCount_ceil two_pages)
  have "serves_pages fleet_client fleet_server ''false'' 2 2 fleet [1, 2]"
    by (simp add: serves_pages_def fleet_answers fleet_answer_def host_page_def)
  then obtain ms where "GetHostsFiltered fleet_client fleet_server 2 [1, 0] = Returns ((fleet, None), ms)"
    using GetHostsFiltered_honest [of fleet_client 2 fleet_server "fleet_answer 1" fleet "[1, 0]"]
    by (auto simp: two_pages fleet_answers expectedHosts_def fleet_answer_def lim)
  then show ?thesis
    using GetHostsFiltered_no_silent_loss [OF _ _ pages, of fleet_server "[1, 0]" fleet ms]
    by (simp add: two_pages fleet_answers lim)
qed

section \<open>Properties of the fact collector's list\<close>

definition list_per_page :: "HTTPClient \<Rightarrow> int" where
  "list_per_page c = limited c (if HostListPerPage c \<le> 0 then defaultHostListPerPage else HostListPerPage c)"

definition applied_per_page :: "HTTPClient \<Rightarrow> HostResponse \<Rightarrow> int" where
  "applied_per_page c first = (if PerPage first \<le> 0 then list_per_page c else PerPage first)"

text \<open>
  An honest foreman of the hosts \<open>hs\<close>, for the list of the fact collector: it may apply a smaller
  page size than the one asked for, if it says so, and counts pages from 1.
\<close>

definition serves_list :: "HTTPClient \<Rightarrow> transport \<Rightarrow> HostResponse \<Rightarrow> Host list \<Rightarrow> bool" where
  "serves_list c tr first hs \<longleftrightarrow>
     fst (GetHosts c tr ''true'' 1 (list_per_page c)) = Inr first \<and> Page first = 1
     \<and> expectedHosts first = int (length hs) \<and> int (length hs) \<le> 2 ^ 53
     \<and> 0 < applied_per_page c first \<and> applied_per_page c first \<le> 2 ^ 53
     \<and> serves_pages c tr ''true'' (list_per_page c) (applied_per_page c first) hs
         [1..max 1 (ceil_div (int (length hs)) (applied_per_page c first))]"

text \<open>The pages left after the first.\<close>

definition rest_pages :: "HTTPClient \<Rightarrow> HostResponse \<Rightarrow> Host list \<Rightarrow> nat" where
  "rest_pages c first hs = nat (ceil_div (int (length hs)) (applied_per_page c first) - 1)"

lemma serves_list_first:
  assumes "serves_list c tr first hs"
  shows "Results first = host_page (applied_per_page c first) hs 1"
proof -
  let ?m = "max 1 (ceil_div (int (length hs)) (applied_per_page c first))"
  have "[1..?m] = 1 # [2..?m]" by (simp add: upto_rec1)
  then show ?thesis
    using assms by (auto simp: serves_list_def serves_pages_def)
qed

lemma list_hosts_honest:
  assumes "1 \<le> Concurrency c" "Limit c = 0" "serves_list c tr first hs"
    and "mset arr = mset [0..<rest_pages c first hs]"
  shows "\<exists>ms. list_hosts c tr arr = Returns (Inr hs, ms)"
proof -
  let ?p = "applied_per_page c first" let ?k = "ceil_div (int (length hs)) ?p"
  have lim: "limited c n = n" for n using assms(2) by (simp add: limited_def)
  have first: "fst (GetHosts c tr ''true'' 1 (list_per_page c)) = Inr first" "Page first = 1"
    and count: "expectedHosts first = int (length hs)" "int (length hs) \<le> 2 ^ 53" "0 < ?p" "?p \<le> 2 ^ 53"
    and pages: "serves_pages c tr ''true'' (list_per_page c) ?p hs [1..max 1 ?k]"
    using assms(3) by (simp_all add: serves_list_def)
  obtain ms1 where get: "GetHosts c tr ''true'' 1 (list_per_page c) = (Inr first, ms1)"
    using first(1) by (metis prod.collapse)
  note per = list_per_page_def [symmetric] applied_per_page_def [symmetric]
  have page_count: "pageCount c (expectedHosts first) ?p = (if hs = [] then 0 else ?k)"
    using count by (simp add: pageCount_ceil lim) (simp add: pageCount_def)
  show ?thesis
  proof (cases "1 < ?k \<and> hs \<noteq> []")
    case False
    have "length hs \<le> nat ?p"
    proof (cases "hs = []")
      case False
      with \<open>\<not> (1 < ?k \<and> hs \<noteq> [])\<close> ceil_div_bounds(1,3) [OF count(3), of "int (length hs)"]
      have "?k = 1" "int (length hs) \<le> ?k * ?p" by auto
      then show ?thesis by simp
    qed simp
    then have "Results first = hs"
      using serves_list_first [OF assms(3)] by (simp add: host_page_def)
    then show ?thesis
      using False page_count by (auto simp: list_hosts_def Let_def per get)
  next
    case True
    then have ks: "[1..max 1 ?k] = 1 # [2..?k]" "max 1 ?k = int (nat ?k)"
      by (simp_all add: upto_rec1)
    have rest: "serves_pages c tr ''true'' (list_per_page c) ?p hs [2..?k]"
      using pages unfolding ks(1) by (simp add: serves_pages_def)
    have "length [2..?k] = rest_pages c first hs"
      by (simp add: rest_pages_def)
    then obtain ms where run: "GetHostWithConcurrency c tr ''true'' [2..?k] (list_per_page c) arr
        = Returns (page_results c tr ''true'' (list_per_page c) [2..?k], ms)"
      using GetHostWithConcurrency_returns [OF assms(1), of arr "[2..?k]"] assms(4) by fastforce
    have "Results first @ concat (map (host_page ?p hs) [2..?k]) = concat (map (host_page ?p hs) [1..int (nat ?k)])"
      unfolding ks(2) [symmetric] ks(1) using serves_list_first [OF assms(3)] by simp
    also have "\<dots> = hs"
      using count(3) True ceil_div_bounds(1) [OF count(3), of "int (length hs)"]
      by (subst concat_pages) (simp_all add: nat_mult_distrib [symmetric])
    finally show ?thesis
      using True page_count run
      by (simp add: list_hosts_def Let_def per get first(2) i64_small serves_pages_results [OF rest])
  qed
qed

section \<open>Facts by one request per host\<close>

text \<open>A host's result seen as a batch of that host, so that the lemmas of the bulk collection apply.\<close>

definition each_item :: "Host list \<Rightarrow> nat \<times> (go_error + HostFactsResponse) \<Rightarrow> Host list \<times> BatchFactsResult" where
  "each_item hosts e =
     ([hosts ! fst e], \<lparr>HostIDs = [ID (hosts ! fst e)],
        Facts = (case snd e of Inl _ \<Rightarrow> [] | Inr resp \<Rightarrow> FResults resp), Missing = [], Pages = 1, Truncated = False,
        Err = (case snd e of Inl err \<Rightarrow> Some err | Inr _ \<Rightarrow> None)\<rparr>)"

lemma collect_facts_items:
  "collect_facts c results = hostsFacts (fold (bulk_step c) (map (each_item hosts) results) init_bulk)"
proof -
  have "fold (\<lambda>(i, r) acc. case r of Inl _ \<Rightarrow> acc | Inr resp \<Rightarrow> store_filtered c (FResults resp) acc) results (hostsFacts s)
      = hostsFacts (fold (bulk_step c) (map (each_item hosts) results) s)" for s
  proof (induction results arbitrary: s)
    case (Cons e results)
    have "(case e of (i, r) \<Rightarrow> case r of Inl _ \<Rightarrow> hostsFacts s | Inr resp \<Rightarrow> store_filtered c (FResults resp) (hostsFacts s))
        = hostsFacts (bulk_step c (each_item hosts e) s)"
      by (simp add: bulk_step_def each_item_def split: prod.splits sum.splits)
    then show ?case using Cons.IH by (simp split: prod.splits sum.splits)
  qed simp
  from this [of init_bulk] show ?thesis by (simp add: collect_facts_def init_bulk_def)
qed

text \<open>An honest foreman for one host: the first 1000 rows of the host.\<close>

definition serves_host :: "HTTPClient \<Rightarrow> transport \<Rightarrow> fact_row list \<Rightarrow> Host \<Rightarrow> bool" where
  "serves_host c tr db h \<longleftrightarrow>
     (case fst (GetHostFacts c tr (ID h) 1 1000) of
        Inl _ \<Rightarrow> False | Inr resp \<Rightarrow> holds_rows (FResults resp) (take 1000 (rows_of db [h])))"

definition each_results :: "HTTPClient \<Rightarrow> transport \<Rightarrow> Host list \<Rightarrow> (nat \<times> (go_error + HostFactsResponse)) list" where
  "each_results c tr hosts = map (\<lambda>i. (i, fst (GetHostFacts c tr (ID (hosts ! i)) 1 1000))) [0..<length hosts]"

lemma GetHostFactsWithConcurrency_returns:
  assumes "1 \<le> Concurrency c" "mset arr = mset [0..<length hosts]"
  shows "\<exists>ms. GetHostFactsWithConcurrency c tr hosts arr = Returns (each_results c tr hosts, ms)"
  using assms
  by (cases "hosts = []")
    (simp_all add: GetHostFactsWithConcurrency_def fan_out_def each_results_def sort_key_map_upt)

lemma set_each_items:
  "set (map (each_item hosts) (each_results c tr hosts))
    = (\<lambda>i. each_item hosts (i, fst (GetHostFacts c tr (ID (hosts ! i)) 1 1000))) ` {..<length hosts}"
  by (auto simp: each_results_def)

lemma served_item:
  assumes "serves_host c tr db (hosts ! i)"
  defines "e \<equiv> each_item hosts (i, fst (GetHostFacts c tr (ID (hosts ! i)) 1 1000))"
  shows "fst e = [hosts ! i]" "batch_good e" "holds_rows (Facts (snd e)) (take 1000 (rows_of db [hosts ! i]))"
  using assms by (auto simp: each_item_def serves_host_def batch_good_def split: sum.splits)

lemma each_items_apart:
  assumes "list_all (serves_host c tr db) hosts" "distinct (map Name hosts)"
  shows "items_apart (map (each_item hosts) (each_results c tr hosts))"
proof -
  let ?e = "\<lambda>i. each_item hosts (i, fst (GetHostFacts c tr (ID (hosts ! i)) 1 1000))"
  have good: "item_ok (?e i) \<and> batch_good (?e i) \<and> fst ` set (Facts (snd (?e i))) \<subseteq> Name ` set (fst (?e i))"
    if "i < length hosts" for i
  proof -
    have served: "serves_host c tr db (hosts ! i)"
      using assms(1) that by (simp add: list_all_length)
    note item = served_item [OF served]
    have "h = Name (hosts ! i)" if "h \<in> fst ` set (Facts (snd (?e i)))" for h
    proof -
      have "h \<in> fst ` fst ` set (take 1000 (rows_of db [hosts ! i]))"
        using holds_rows_host [OF item(3), of h] that by (simp add: map_of_eq_None_iff)
      then show ?thesis by (auto simp: rows_of_def dest!: in_set_takeD)
    qed
    then show ?thesis using item by (auto simp: item_ok_def holds_rows_def)
  qed
  have apart: "i = j" if "i < length hosts" "j < length hosts" "Name (hosts ! i) = Name (hosts ! j)" for i j
    using that assms(2) by (metis length_map nth_eq_iff_index_eq nth_map)
  have "?e i = ?e j"
    if "i < length hosts" "j < length hosts" "Name ` set (fst (?e i)) \<inter> Name ` set (fst (?e j)) \<noteq> {}" for i j
    using apart [OF that(1,2)] that(3) by (auto simp: each_item_def)
  with good show ?thesis
    unfolding items_apart_def set_each_items by blast
qed

text \<open>The rows a request per host can bring: the first 1000 of each host.\<close>

definition first_rows :: "fact_row list \<Rightarrow> string \<Rightarrow> fact_row list" where
  "first_rows db h = take 1000 (filter (\<lambda>r. fst (fst r) = h) db)"

lemma first_rows_of: "take 1000 (rows_of db [x]) = first_rows db (Name x)"
  by (simp add: first_rows_def rows_of_def)

lemma each_facts:
  assumes "list_all (serves_host c tr db) hosts" "distinct (map Name hosts)"
  shows "fact_at (collect_facts c (each_results c tr hosts)) (h, k) =
    (case map_of (first_rows db h) (h, k) of None \<Rightarrow> None
     | Some v \<Rightarrow> if h \<in> Name ` set hosts \<and> fact_kept c k v then Some v else None)"
proof -
  let ?es = "map (each_item hosts) (each_results c tr hosts)"
  have apart: "items_apart ?es" using assms by (rule each_items_apart)
  note F = collect_facts_items [of c "each_results c tr hosts" hosts]
  show ?thesis
  proof (cases "h \<in> Name ` set hosts")
    case False
    have "h \<notin> Name ` set (fst e)" if "e \<in> set ?es" for e
      using that False unfolding set_each_items by (auto simp: each_item_def)
    then have "map_of (hostsFacts (fold (bulk_step c) ?es init_bulk)) h = None"
      by (intro items_apart_other [OF apart]) blast
    with False show ?thesis by (simp add: F fact_at_def split: option.splits)
  next
    case True
    then obtain i where i: "i < length hosts" "Name (hosts ! i) = h"
      by (auto simp: in_set_conv_nth)
    let ?e = "each_item hosts (i, fst (GetHostFacts c tr (ID (hosts ! i)) 1 1000))"
    have served: "serves_host c tr db (hosts ! i)"
      using assms(1) i by (simp add: list_all_length)
    note item = served_item [OF served]
    have e: "?e \<in> set ?es" using i unfolding set_each_items by blast
    have final: "map_of (hostsFacts (fold (bulk_step c) ?es init_bulk)) h
        = map_option (filterFacts c) (map_of (Facts (snd ?e)) h)"
      using i item(1) by (intro items_apart_lookup [OF apart e]) auto
    have rows: "fact_at (Facts (snd ?e)) (h, k) = map_of (first_rows db h) (h, k)"
      using item(3) i(2) by (simp add: holds_rows_def first_rows_of)
    have "wf_hosts_facts (Facts (snd ?e))" using item(3) by (simp add: holds_rows_def)
    then have wf: "map_of (Facts (snd ?e)) h = Some f \<Longrightarrow> wf_map f" for f
      by (rule wf_hosts_facts_lookup)
    show ?thesis
      using rows final wf True
      by (cases "map_of (Facts (snd ?e)) h")
        (auto simp: F fact_at_def fact_filter.flt_lookup split: option.splits)
  qed
qed

lemma each_results_no_failure:
  assumes "list_all (serves_host c tr db) hosts"
  shows "failed_items (each_results c tr hosts) = 0"
proof -
  have "\<exists>resp. fst (GetHostFacts c tr (ID (hosts ! i)) 1 1000) = Inr resp" if "i < length hosts" for i
  proof -
    have "serves_host c tr db (hosts ! i)" using assms that by (simp add: list_all_length)
    then show ?thesis by (auto simp: serves_host_def split: sum.splits)
  qed
  then show ?thesis
    by (force simp: failed_items_def each_results_def filter_empty_conv)
qed

lemma each_honest:
  assumes "1 \<le> Concurrency c" "list_all (serves_host c tr db) hosts" "mset arr = mset [0..<length hosts]"
  shows "\<exists>ms. getHostsFactsEach c tr hosts arr = Returns ((collect_facts c (each_results c tr hosts), None), ms)"
proof -
  obtain ms where "GetHostFactsWithConcurrency c tr hosts arr = Returns (each_results c tr hosts, ms)"
    using GetHostFactsWithConcurrency_returns [OF assms(1,3)] by blast
  then show ?thesis
    by (simp add: getHostsFactsEach_def Let_def each_results_no_failure [OF assms(2)])
qed

text \<open>Without the bulk mode the collector exports at most the first 1000 facts of a host: of a host
  with more it exports those 1000 (less what the filter drops), and no error says that some are missing.\<close>

theorem facts_per_host_capped:
  assumes "1 \<le> Concurrency c" "list_all (serves_host c tr db) hosts" "distinct (map Name hosts)"
    and "mset arr = mset [0..<length hosts]"
  shows "\<exists>F ms. getHostsFactsEach c tr hosts arr = Returns ((F, None), ms)
    \<and> (\<forall>h k. fact_at F (h, k) = (case map_of (first_rows db h) (h, k) of None \<Rightarrow> None
         | Some v \<Rightarrow> if h \<in> Name ` set hosts \<and> fact_kept c k v then Some v else None))"
  using each_honest [OF assms(1,2,4)] each_facts [OF assms(2,3)] by blast


lemma two_page_host_facts:
  "fst (GetHostFacts two_page_client two_page_server 9 1 1000)
    = Inr \<lparr>FTotal = 0, FPage = 0, FPerPage = 2, FResults = [(''b'', [(''k'', ''3'')])]\<rparr>"
  by (simp add: GetHostFacts_def eval_fact_page two_page_server_def Values_Encode_paged
      FormatInt_def decimal.simps QueryEscape_def escape_byte_def unreserved_def)

theorem facts_per_host_capped_witness:
  "\<exists>F ms. getHostsFactsEach two_page_client two_page_server [example_host 9 ''b''] [0] = Returns ((F, None), ms)
    \<and> fact_at F (''b'', ''k'') = Some ''3''"
proof -
  have "list_all (serves_host two_page_client two_page_server two_page_rows) [example_host 9 ''b'']"
    by (simp add: serves_host_def two_page_host_facts rows_of_def two_page_rows_def holds_rows_def
        wf_hosts_facts_def wf_map_def fact_at_def fun_eq_iff)
  then obtain F ms where
    run: "getHostsFactsEach two_page_client two_page_server [example_host 9 ''b''] [0] = Returns ((F, None), ms)"
    and facts: "\<And>h k. fact_at F (h, k) = (case map_of (first_rows two_page_rows h) (h, k) of None \<Rightarrow> None
         | Some v \<Rightarrow> if h \<in> Name ` set [example_host 9 ''b''] \<and> fact_kept two_page_client k v then Some v else None)"
    using facts_per_host_capped [of two_page_client two_page_server two_page_rows "[example_host 9 ''b'']" "[0]"]
    by (auto simp: two_page_client_def default_client_def)
  have "fact_at F (''b'', ''k'') = Some ''3''"
    by (simp add: facts first_rows_def two_page_rows_def fact_kept_def two_page_client_def default_client_def)
  with run show ?thesis by blast
qed

end
