(* ===== verification/ClientSetup.thy ===== *)
theory ClientSetup
  imports ForemanTypes Complex_Main
begin

text \<open>
  The client's set-up and what sits below its requests (foreman/foreman.go,
  foreman/ratelimit.go): the delay before a retry, the rate limiter, the idle connection pool,
  and \<open>NewHTTPClient\<close>. A \<open>time.Duration\<close> is its number of nanoseconds, a \<open>float64\<close> a
  rational. Parameters stand for what is not in the repository (retryablehttp's exponential
  backoff, the token bucket, cleanhttp's defaults), for the clock and for the parser of
  HTTP dates.
\<close>

section \<open>Retry-After\<close>

definition second :: int where "second = 1000000000"

text \<open>\<open>time.Until\<close> saturates.\<close>

definition until :: "int \<Rightarrow> int \<Rightarrow> int" where
  "until now t = max (- (2 ^ 63)) (min (2 ^ 63 - 1) (t - now))"

definition parseRetryAfter :: "(string \<Rightarrow> int option) \<Rightarrow> int \<Rightarrow> string \<Rightarrow> int \<times> bool" where
  "parseRetryAfter ParseTime now v =
     (if v = [] then (0, False)
      else case Atoi v of
             Some secs \<Rightarrow> if secs < 0 then (0, False) else (i64 (secs * second), True)
           | None \<Rightarrow>
               (case ParseTime v of
                  Some t \<Rightarrow> (let d = until now t in if d > 0 then (d, True) else (0, True))
                | None \<Rightarrow> (0, False)))"

text \<open>A response, for the backoff: its status and its \<open>Retry-After\<close> header (empty when absent).\<close>

type_synonym retry_response = "int \<times> string"

definition retryAfterBackoff :: "(string \<Rightarrow> int option) \<Rightarrow> int \<Rightarrow> (retry_response option \<Rightarrow> int) \<Rightarrow> int
    \<Rightarrow> retry_response option \<Rightarrow> int \<times> metric list" where
  "retryAfterBackoff ParseTime now DefaultBackoff retryMaxWait resp =
     (case resp of
        None \<Rightarrow> (DefaultBackoff resp, [])
      | Some (status, header) \<Rightarrow>
          (if status = 429 \<or> status = 503
           then (case parseRetryAfter ParseTime now header of
                   (sleep, True) \<Rightarrow>
                     (let capped = retryMaxWait > 0 \<and> sleep > retryMaxWait;
                          sleep = (if capped then retryMaxWait else sleep)
                      in (sleep, [ObserveNanos ''retryAfterMetric'' [FormatInt status] sleep]))
                 | (_, False) \<Rightarrow> (DefaultBackoff resp, []))
           else (DefaultBackoff resp, [])))"

section \<open>Rate limiting\<close>

definition resolveBurst :: "rat \<Rightarrow> int \<Rightarrow> int" where
  "resolveBurst requestsPerSecond burst =
     (if burst > 0 then burst
      else let b = \<lfloor>requestsPerSecond\<rfloor> in if b > 1 then b else 1)"

text \<open>The value the rate gauge is set to, and the limiter: its rate and its bucket depth.\<close>

definition newRateLimiter :: "rat \<Rightarrow> int \<Rightarrow> rat \<times> (rat \<times> int) option" where
  "newRateLimiter requestsPerSecond burst =
     (requestsPerSecond,
      if requestsPerSecond \<le> 0 then None
      else Some (requestsPerSecond, resolveBurst requestsPerSecond burst))"

text \<open>
  One request through the limiter: \<open>allow\<close> and \<open>wait\<close> are the token bucket's answers, as
  functions of its state; a request either takes a token, waits for one, or fails while waiting.
\<close>

definition RoundTrip :: "('l \<Rightarrow> bool \<times> 'l) \<Rightarrow> ('l \<Rightarrow> (string + unit) \<times> 'l) \<Rightarrow> ('q \<Rightarrow> string + 'a)
    \<Rightarrow> 'q \<Rightarrow> 'l \<Rightarrow> (string + 'a) \<times> metric list \<times> 'l" where
  "RoundTrip allow wait next r l =
     (case allow l of
        (True, l) \<Rightarrow> (next r, [], l)
      | (False, l) \<Rightarrow>
          (case wait l of
             (Inl e, l) \<Rightarrow> (Inl e, [], l)
           | (Inr _, l) \<Rightarrow> (next r, [AddElapsed ''rateLimitWaitMetric'', Inc ''rateLimitDelayedMetric'' []], l)))"

section \<open>The idle connection pool\<close>

definition resolveIdleConns :: "int \<Rightarrow> int \<Rightarrow> int" where
  "resolveIdleConns maxConnsPerHost concurrency =
     (if maxConnsPerHost > 0 then maxConnsPerHost else max concurrency 4)"

record transport_pool =
  MaxIdleConns :: int
  MaxIdleConnsPerHost :: int
  InsecureSkipVerify :: bool

definition newTransport :: "transport_pool \<Rightarrow> bool \<Rightarrow> int \<Rightarrow> transport_pool" where
  "newTransport DefaultPooledTransport skipTLSVerify idleConnsPerHost =
     (let t = DefaultPooledTransport\<lparr>InsecureSkipVerify := skipTLSVerify\<rparr>;
          t = (if MaxIdleConnsPerHost t < idleConnsPerHost then t\<lparr>MaxIdleConnsPerHost := idleConnsPerHost\<rparr> else t)
      in if MaxIdleConns t < MaxIdleConnsPerHost t then t\<lparr>MaxIdleConns := MaxIdleConnsPerHost t\<rparr> else t)"

section \<open>The client\<close>

record ClientConfig =
  cfg_BaseURL :: string
  cfg_Username :: string
  cfg_Password :: string
  cfg_SkipTLSVerify :: bool
  cfg_Concurrency :: int
  cfg_MaxConnsPerHost :: int
  cfg_Limit :: int
  cfg_RetryMax :: int
  cfg_RetryMaxWait :: int
  cfg_RateLimit :: rat
  cfg_RateLimitBurst :: int
  cfg_Search :: string
  cfg_SearchHostFact :: string
  cfg_IncludeHostFactRegex :: regex
  cfg_ExcludeHostFactRegex :: regex
  cfg_BulkFacts :: bool
  cfg_FactBatchSize :: int
  cfg_FactPerPage :: int
  cfg_FactMaxPages :: int
  cfg_FactNames :: "string list"
  cfg_FactInOperator :: string
  cfg_MaxURLLength :: int
  cfg_HostListPerPage :: int

text \<open>\<open>sort.Strings\<close> compares bytes.\<close>

definition SortedFactNames :: "string list \<Rightarrow> string list" where
  "SortedFactNames names = sort names"

text \<open>The client, with the rate gauge, the limiter and the pool of its transport and the number of retries.\<close>

definition NewHTTPClient :: "transport_pool \<Rightarrow> ClientConfig
    \<Rightarrow> HTTPClient \<times> (rat \<times> (rat \<times> int) option) \<times> transport_pool \<times> int" where
  "NewHTTPClient defaults cfg =
     (\<lparr>BaseURL = cfg_BaseURL cfg, Username = cfg_Username cfg, Password = cfg_Password cfg,
       Concurrency = cfg_Concurrency cfg, Limit = cfg_Limit cfg, Search = cfg_Search cfg,
       SearchHostFact = cfg_SearchHostFact cfg, IncludeHostFactRegex = cfg_IncludeHostFactRegex cfg,
       ExcludeHostFactRegex = cfg_ExcludeHostFactRegex cfg, BulkFacts = cfg_BulkFacts cfg,
       FactBatchSize = cfg_FactBatchSize cfg, FactPerPage = cfg_FactPerPage cfg,
       FactMaxPages = cfg_FactMaxPages cfg, FactNames = SortedFactNames (cfg_FactNames cfg),
       FactInOperator = cfg_FactInOperator cfg, MaxURLLength = cfg_MaxURLLength cfg,
       HostListPerPage = cfg_HostListPerPage cfg\<rparr>,
      newRateLimiter (cfg_RateLimit cfg) (cfg_RateLimitBurst cfg),
      newTransport defaults (cfg_SkipTLSVerify cfg) (resolveIdleConns (cfg_MaxConnsPerHost cfg) (cfg_Concurrency cfg)),
      i64 (cfg_RetryMax cfg))"

section \<open>Properties\<close>

lemma parseRetryAfter_delay:
  assumes "parseRetryAfter ParseTime now header = (sleep, True)"
    and "\<And>secs. Atoi header = Some secs \<Longrightarrow> secs * second < 2 ^ 63"
  shows "0 \<le> sleep \<and> (\<forall>secs. Atoi header = Some secs \<longrightarrow> sleep = secs * second)"
proof (cases "Atoi header")
  case None
  with assms(1) show ?thesis
    by (auto simp: parseRetryAfter_def Let_def split: if_splits option.splits)
next
  case (Some secs)
  then have "0 \<le> secs" "sleep = i64 (secs * second)"
    using assms(1) by (auto simp: parseRetryAfter_def split: if_splits)
  moreover have "is_i64 (secs * second)"
    using assms(2) [OF Some] \<open>0 \<le> secs\<close> by (simp add: is_i64_def second_def)
  ultimately show ?thesis using Some by (simp add: second_def)
qed

text \<open>When foreman answers 429 or 503 with a Retry-After that can be read, and its seconds fit a
  Duration, the client waits for exactly that delay, or for the configured maximum if it is
  longer; never less than nothing and never more than the maximum; and what it records is what it waits.\<close>

theorem retryAfter_capped:
  assumes "status = 429 \<or> status = 503" "parseRetryAfter ParseTime now header = (sleep, True)"
    and "\<And>secs. Atoi header = Some secs \<Longrightarrow> secs * second < 2 ^ 63" "0 < retryMaxWait"
  shows "retryAfterBackoff ParseTime now DefaultBackoff retryMaxWait (Some (status, header))
      = (min sleep retryMaxWait, [ObserveNanos ''retryAfterMetric'' [FormatInt status] (min sleep retryMaxWait)])
    \<and> 0 \<le> min sleep retryMaxWait
    \<and> (\<forall>secs. Atoi header = Some secs \<longrightarrow> sleep = secs * second)"
proof -
  have "retryAfterBackoff ParseTime now DefaultBackoff retryMaxWait (Some (status, header))
      = (min sleep retryMaxWait, [ObserveNanos ''retryAfterMetric'' [FormatInt status] (min sleep retryMaxWait)])"
    using assms(1,2,4) by (auto simp: retryAfterBackoff_def Let_def)
  with parseRetryAfter_delay [OF assms(2,3)] assms(4) show ?thesis by simp
qed

lemma Atoi_120: "Atoi ''120'' = Some 120"
  by (simp add: Atoi_def Atoi_unsigned_def is_digit_def digit_val_def is_i64_def)

theorem retryAfter_capped_witness:
  "retryAfterBackoff (\<lambda>_. None) 0 (\<lambda>_. 1) (60 * second) (Some (429, ''120''))
      = (60 * second, [ObserveNanos ''retryAfterMetric'' [FormatInt 429] (60 * second)])"
proof -
  have parse: "parseRetryAfter (\<lambda>_. None) 0 ''120'' = (120 * second, True)"
    by (simp add: parseRetryAfter_def Atoi_120) (simp add: second_def is_i64_def)
  show ?thesis
    using retryAfter_capped [OF _ parse, of 429 "60 * second" "\<lambda>_. 1"]
    by (simp add: Atoi_120) (simp add: second_def min_def)
qed

text \<open>A delay of more than about 292 years wraps around: from 9223372037 seconds to twice that, the
  client reads a negative delay, which no maximum caps, and so it retries at once.\<close>

theorem retryAfter_overflow_not_capped:
  assumes "status = 429 \<or> status = 503" "2 ^ 63 \<le> secs * second" "secs * second < 2 ^ 64" "0 \<le> retryMaxWait"
  shows "fst (retryAfterBackoff ParseTime now DefaultBackoff retryMaxWait (Some (status, FormatInt secs)))
      = secs * second - 2 ^ 64
    \<and> fst (retryAfterBackoff ParseTime now DefaultBackoff retryMaxWait (Some (status, FormatInt secs))) < 0"
proof -
  have secs: "0 \<le> secs" "is_i64 secs" using assms(2,3) by (auto simp: second_def is_i64_def)
  then have "FormatInt secs \<noteq> []" by (simp add: FormatInt_def)
  then have "parseRetryAfter ParseTime now (FormatInt secs) = (secs * second - 2 ^ 64, True)"
    using assms(2,3) secs by (simp add: parseRetryAfter_def Atoi_FormatInt i64_nonneg_less second_def)
  then have "fst (retryAfterBackoff ParseTime now DefaultBackoff retryMaxWait (Some (status, FormatInt secs)))
      = secs * second - 2 ^ 64"
    using assms by (auto simp: retryAfterBackoff_def Let_def)
  with assms(3) show ?thesis by simp
qed

theorem retryAfter_overflow_not_capped_witness:
  "fst (retryAfterBackoff (\<lambda>_. None) 0 (\<lambda>_. 1) (60 * second) (Some (503, FormatInt 9223372037))) < 0"
  using retryAfter_overflow_not_capped [of 503 9223372037 "60 * second" "\<lambda>_. None" 0 "\<lambda>_. 1"]
  by (simp add: second_def)

text \<open>The order of the configured fact names does not matter: configurations that list the same names
  build the same client, whose searches ask for exactly those names.\<close>

theorem NewHTTPClient_names_order:
  assumes "mset names = mset names'"
  shows "NewHTTPClient defaults (cfg\<lparr>cfg_FactNames := names\<rparr>) = NewHTTPClient defaults (cfg\<lparr>cfg_FactNames := names'\<rparr>)
    \<and> mset (FactNames (fst (NewHTTPClient defaults (cfg\<lparr>cfg_FactNames := names\<rparr>)))) = mset names
    \<and> sorted (FactNames (fst (NewHTTPClient defaults (cfg\<lparr>cfg_FactNames := names\<rparr>))))"
proof -
  have "SortedFactNames names = SortedFactNames names'"
    unfolding SortedFactNames_def using assms by (metis mset_sort properties_for_sort sorted_sort)
  then show ?thesis using assms by (simp add: NewHTTPClient_def) (simp add: SortedFactNames_def)
qed

definition example_config :: ClientConfig where
  "example_config = \<lparr>cfg_BaseURL = ''https://foreman'', cfg_Username = ''u'', cfg_Password = ''p'', cfg_SkipTLSVerify = False,
     cfg_Concurrency = 50, cfg_MaxConnsPerHost = 0, cfg_Limit = 0, cfg_RetryMax = 3, cfg_RetryMaxWait = 60 * second,
     cfg_RateLimit = 5 / 2, cfg_RateLimitBurst = 0, cfg_Search = [], cfg_SearchHostFact = [],
     cfg_IncludeHostFactRegex = None, cfg_ExcludeHostFactRegex = None, cfg_BulkFacts = True, cfg_FactBatchSize = 20,
     cfg_FactPerPage = 10000, cfg_FactMaxPages = 10, cfg_FactNames = [], cfg_FactInOperator = ''^'',
     cfg_MaxURLLength = 6000, cfg_HostListPerPage = 5000\<rparr>"

theorem NewHTTPClient_names_order_witness:
  "NewHTTPClient \<lparr>MaxIdleConns = 100, MaxIdleConnsPerHost = 5, InsecureSkipVerify = False\<rparr> (example_config\<lparr>cfg_FactNames := [''b'', ''a'']\<rparr>)
    = NewHTTPClient \<lparr>MaxIdleConns = 100, MaxIdleConnsPerHost = 5, InsecureSkipVerify = False\<rparr> (example_config\<lparr>cfg_FactNames := [''a'', ''b'']\<rparr>)"
  using NewHTTPClient_names_order [of "[''b'', ''a'']" "[''a'', ''b'']"] by simp

text \<open>The client's transport can keep a connection idle for every request a collector has in flight: when
  the pool size is left to its default, the per-host pool is at least the concurrency, the whole pool
  at least the per-host one, and neither is smaller than the library's default; and a rate limit, if
  there is one, has a bucket that is never empty and, by default, holds at most one second's requests
  (or one).\<close>

theorem NewHTTPClient_resources:
  assumes "cfg_MaxConnsPerHost cfg \<le> 0"
    and "NewHTTPClient defaults cfg = (client, (gauge, limiter), pool, retries)"
  shows "Concurrency client \<le> MaxIdleConnsPerHost pool \<and> MaxIdleConnsPerHost pool \<le> MaxIdleConns pool
    \<and> MaxIdleConnsPerHost defaults \<le> MaxIdleConnsPerHost pool \<and> MaxIdleConns defaults \<le> MaxIdleConns pool
    \<and> (limiter = None \<longleftrightarrow> gauge \<le> 0)
    \<and> (\<forall>r b. limiter = Some (r, b) \<longrightarrow> 1 \<le> b \<and> (cfg_RateLimitBurst cfg \<le> 0 \<longrightarrow> of_int b \<le> max 1 r))"
proof -
  have pool: "pool = newTransport defaults (cfg_SkipTLSVerify cfg) (max (cfg_Concurrency cfg) 4)" "Concurrency client = cfg_Concurrency cfg"
    and limiter: "newRateLimiter (cfg_RateLimit cfg) (cfg_RateLimitBurst cfg) = (gauge, limiter)"
    using assms by (auto simp: NewHTTPClient_def resolveIdleConns_def)
  have "1 \<le> b \<and> (cfg_RateLimitBurst cfg \<le> 0 \<longrightarrow> of_int b \<le> max 1 r)" if "limiter = Some (r, b)" for r b
    using limiter that by (auto simp: newRateLimiter_def resolveBurst_def Let_def le_max_iff_disj split: if_splits)
  with limiter show ?thesis
    by (auto simp: pool newTransport_def Let_def newRateLimiter_def split: if_splits)
qed

theorem NewHTTPClient_resources_witness:
  "\<exists>client gauge limiter pool retries.
    NewHTTPClient \<lparr>MaxIdleConns = 100, MaxIdleConnsPerHost = 5, InsecureSkipVerify = False\<rparr> example_config = (client, (gauge, limiter), pool, retries)
    \<and> 50 \<le> MaxIdleConnsPerHost pool \<and> limiter = Some (5 / 2, 2)"
proof -
  have floor: "\<lfloor>5 / 2 :: rat\<rfloor> = 2" by (rule floor_unique) simp_all
  have eq: "NewHTTPClient \<lparr>MaxIdleConns = 100, MaxIdleConnsPerHost = 5, InsecureSkipVerify = False\<rparr> example_config
      = (fst (NewHTTPClient \<lparr>MaxIdleConns = 100, MaxIdleConnsPerHost = 5, InsecureSkipVerify = False\<rparr> example_config),
         (5 / 2, Some (5 / 2, 2)), \<lparr>MaxIdleConns = 100, MaxIdleConnsPerHost = 50, InsecureSkipVerify = False\<rparr>, 3)"
    by (simp add: NewHTTPClient_def example_config_def newRateLimiter_def resolveBurst_def newTransport_def
        resolveIdleConns_def Let_def is_i64_def floor)
  have "Concurrency (fst (NewHTTPClient \<lparr>MaxIdleConns = 100, MaxIdleConnsPerHost = 5, InsecureSkipVerify = False\<rparr> example_config)) = 50"
    "cfg_MaxConnsPerHost example_config \<le> 0"
    by (simp_all add: NewHTTPClient_def example_config_def)
  with NewHTTPClient_resources [OF _ eq] eq show ?thesis by metis
qed

end
