(* ===== verification/Metrics.thy ===== *)
theory Metrics
  imports HostList ClientSetup
begin

text \<open>
  The Prometheus metrics of the exporter: their declarations (the \<open>var\<close> blocks of
  foreman/foreman.go, foreman/factvalues.go, foreman/ratelimit.go, ring.go and the two
  collectors), the registries they are put into, and what a call on one of them does. The calls
  that the client makes are the \<open>metric\<close> values its operations return; here they are typed
  against the declarations.
\<close>

section \<open>Declarations\<close>

text \<open>The buckets of a histogram: the library's default ones, or listed.\<close>

datatype buckets = DefBuckets | Buckets "rat list"

text \<open>The constructors of the Prometheus client that the code uses; a \<open>Vec\<close> has label names.\<close>

datatype collector_type =
    Gauge
  | Counter
  | CounterVec "string list"
  | Histogram buckets
  | HistogramVec "string list" buckets

text \<open>A declaration: the variable, the name of the metric (its help text is left out), and its type.\<close>

type_synonym metric_decl = "string \<times> string \<times> collector_type"

definition client_metrics :: "metric_decl list" where
  "client_metrics =
     [(''inFlightGaugeMetric'', ''foreman_exporter_client_in_flight_requests'', Gauge),
      (''counterMetric'', ''foreman_exporter_client_requests_total'', CounterVec [''code'', ''method'']),
      (''histVecMetric'', ''foreman_exporter_client_request_duration_seconds'', HistogramVec [] DefBuckets),
      (''hostsHistVecMetric'', ''foreman_exporter_client_hosts_request_duration_seconds'', HistogramVec [] DefBuckets),
      (''hostsCounterMetric'', ''foreman_exporter_client_hosts_requests_total'', CounterVec [''status'']),
      (''hostsFactsHistVecMetric'', ''foreman_exporter_client_hosts_facts_request_duration_seconds'', HistogramVec [] DefBuckets),
      (''hostsFactsCounterMetric'', ''foreman_exporter_client_hosts_facts_requests_total'', CounterVec [''status'']),
      (''retryAfterMetric'', ''foreman_exporter_client_retry_after_seconds'',
        HistogramVec [''status''] (Buckets [1, 2, 5, 10, 30, 60, 120, 300, 600]))]"

definition fact_values_metrics :: "metric_decl list" where
  "fact_values_metrics =
     [(''factValuesHistVecMetric'', ''foreman_exporter_client_fact_values_request_duration_seconds'',
        HistogramVec [''status''] (Buckets [1/2, 1, 5/2, 5, 15/2, 10, 15, 30, 60, 90, 120, 300])),
      (''factValuesCounterMetric'', ''foreman_exporter_client_fact_values_requests_total'', CounterVec [''status'']),
      (''factValuesRowsMetric'', ''foreman_exporter_host_facts_page_rows'',
        Histogram (Buckets [100, 500, 1000, 2500, 5000, 7500, 9000, 10000, 20000, 50000])),
      (''factValuesPageFillMetric'', ''foreman_exporter_host_facts_page_fill_ratio'',
        Histogram (Buckets [1/10, 1/4, 1/2, 7/10, 4/5, 9/10, 19/20, 99/100, 1])),
      (''factValuesPagesContinuedMetric'', ''foreman_exporter_host_facts_pages_continued_total'', Counter),
      (''factValuesClampedMetric'', ''foreman_exporter_host_facts_per_page_clamped_total'', Counter),
      (''factValuesBatchesMetric'', ''foreman_exporter_host_facts_batches_total'', Counter),
      (''factValuesBatchFailedMetric'', ''foreman_exporter_host_facts_batches_failed_total'', Counter),
      (''factValuesMaxPagesMetric'', ''foreman_exporter_host_facts_batches_maxpages_total'', Counter),
      (''factValuesHostsLostMetric'', ''foreman_exporter_host_facts_hosts_lost_total'', Counter),
      (''hostListDurationMetric'', ''foreman_exporter_host_facts_host_list_duration_seconds'', Gauge),
      (''factValuesNoFactsMetric'', ''foreman_exporter_host_facts_hosts_without_facts'', Gauge),
      (''factValuesBatchHostsMetric'', ''foreman_exporter_host_facts_batch_hosts'',
        Histogram (Buckets [1, 2, 5, 10, 20, 50, 100, 250, 500]))]"

definition rate_limit_metrics :: "metric_decl list" where
  "rate_limit_metrics =
     [(''rateLimitWaitMetric'', ''foreman_exporter_client_rate_limit_wait_seconds_total'', Counter),
      (''rateLimitDelayedMetric'', ''foreman_exporter_client_rate_limit_delayed_requests_total'', Counter),
      (''rateLimitMetric'', ''foreman_exporter_client_rate_limit_requests_per_second'', Gauge)]"

definition hostScrapeDurationMetric :: metric_decl where
  "hostScrapeDurationMetric = (''hostScrapeDurationMetric'', ''foreman_exporter_host_scrape_duration_seconds'', Gauge)"

definition hostFactScrapeDurationMetric :: metric_decl where
  "hostFactScrapeDurationMetric =
     (''hostFactScrapeDurationMetric'', ''foreman_exporter_host_facts_scrape_duration_seconds'', Gauge)"

definition ringLeaderLookupErrorsMetric :: metric_decl where
  "ringLeaderLookupErrorsMetric =
     (''ringLeaderLookupErrorsMetric'', ''foreman_exporter_ring_leader_lookup_errors_total'', Counter)"

text \<open>The description that the collector of the node's role sends instead of a declared metric.\<close>

definition nodeRoleDesc :: string where
  "nodeRoleDesc = ''foreman_exporter_node_role''"

definition declared :: "metric_decl list" where
  "declared = client_metrics @ fact_values_metrics @ rate_limit_metrics
     @ [hostScrapeDurationMetric, hostFactScrapeDurationMetric, ringLeaderLookupErrorsMetric]"

definition name_of :: "string \<Rightarrow> string" where
  "name_of v = (case map_of declared v of Some (n, _) \<Rightarrow> n | None \<Rightarrow> [])"

section \<open>Registries\<close>

text \<open>
  A registry, as the names of what it holds. \<open>MustRegister\<close> panics at the first metric whose
  name is already there.
\<close>

fun MustRegister :: "string list \<Rightarrow> string list \<Rightarrow> string list outcome" where
  "MustRegister [] reg = Returns reg"
| "MustRegister (n # ns) reg =
     (if List.member reg n then Panics AlreadyRegistered else MustRegister ns (reg @ [n]))"

text \<open>\<open>Register\<close> answers with an error instead, which the caller logs.\<close>

definition Register :: "string \<Rightarrow> string list \<Rightarrow> string list" where
  "Register n reg = (if List.member reg n then reg else reg @ [n])"

text \<open>The \<open>init\<close> function of package foreman.\<close>

definition init_metrics :: "string list" where
  "init_metrics =
     [''counterMetric'', ''histVecMetric'', ''inFlightGaugeMetric'', ''retryAfterMetric'', ''rateLimitWaitMetric'',
      ''rateLimitDelayedMetric'', ''rateLimitMetric'', ''factValuesHistVecMetric'', ''factValuesCounterMetric'',
      ''factValuesRowsMetric'', ''factValuesPagesContinuedMetric'', ''factValuesPageFillMetric'',
      ''factValuesClampedMetric'', ''factValuesBatchesMetric'', ''factValuesBatchFailedMetric'',
      ''factValuesMaxPagesMetric'', ''factValuesHostsLostMetric'', ''factValuesNoFactsMetric'',
      ''hostListDurationMetric'', ''factValuesBatchHostsMetric'']"

definition hosts_registry_metrics :: "string list" where
  "hosts_registry_metrics = [''hostsCounterMetric'', ''hostsHistVecMetric'']"

definition SetHostsRegistry :: "string list \<Rightarrow> string list outcome" where
  "SetHostsRegistry reg = MustRegister (map name_of hosts_registry_metrics) reg"

definition facts_registry_metrics :: "string list" where
  "facts_registry_metrics = [''hostsFactsHistVecMetric'', ''hostsFactsCounterMetric'']"

definition SetHostsFactsRegistry :: "string list \<Rightarrow> string list outcome" where
  "SetHostsFactsRegistry reg = MustRegister (map name_of facts_registry_metrics) reg"

text \<open>
  \<open>newRing\<close> gives the ring's services a registry that puts a prefix before their metrics; what goes
  into the default registry at start-up, and when, is MainConfig's \<open>main_start\<close>.
\<close>

definition metric_prefix :: string where
  "metric_prefix = ''foreman_exporter_''"

section \<open>Calls\<close>

text \<open>What a call does: add to a counter, set a gauge, or observe a value; on the series of its labels.\<close>

datatype metric_op = Add rat | Put rat | Seen

definition metric_call :: "rat \<Rightarrow> metric \<Rightarrow> string \<times> string list \<times> metric_op" where
  "metric_call elapsed m =
     (case m of
        Inc v ls \<Rightarrow> (v, ls, Add 1)
      | AddTo v n \<Rightarrow> (v, [], Add (of_int n))
      | AddElapsed v \<Rightarrow> (v, [], Add elapsed)
      | Observe v _ \<Rightarrow> (v, [], Seen)
      | ObserveRatio v _ _ \<Rightarrow> (v, [], Seen)
      | ObserveElapsed v ls \<Rightarrow> (v, ls, Seen)
      | ObserveNanos v ls _ \<Rightarrow> (v, ls, Seen)
      | SetGauge v n \<Rightarrow> (v, [], Put (of_int n))
      | SetElapsed v \<Rightarrow> (v, [], Put elapsed))"

definition label_names :: "collector_type \<Rightarrow> string list" where
  "label_names t = (case t of CounterVec ns \<Rightarrow> ns | HistogramVec ns _ \<Rightarrow> ns | _ \<Rightarrow> [])"

fun op_of :: "collector_type \<Rightarrow> metric_op \<Rightarrow> bool" where
  "op_of Gauge (Put _) = True"
| "op_of Counter (Add _) = True"
| "op_of (CounterVec _) (Add _) = True"
| "op_of (Histogram _) Seen = True"
| "op_of (HistogramVec _ _) Seen = True"
| "op_of _ _ = False"

text \<open>
  The value of each series: a counter's sum, a gauge's value, a histogram's number of
  observations. \<open>WithLabelValues\<close> panics when the number of labels is wrong, \<open>Add\<close> when the
  value is negative; a call that the type does not have, or on a variable that is not declared,
  the compiler refuses (\<open>BadTypeAssertion\<close>, \<open>NilDereference\<close>).
\<close>

type_synonym series = "string \<times> string list"
type_synonym metric_store = "series \<Rightarrow> rat"

definition perform :: "rat \<Rightarrow> metric \<Rightarrow> metric_store \<Rightarrow> metric_store outcome" where
  "perform elapsed m store =
     (case metric_call elapsed m of
        (v, ls, op) \<Rightarrow>
          (case map_of declared v of
             None \<Rightarrow> Panics NilDereference
           | Some (_, t) \<Rightarrow>
               (if length ls \<noteq> length (label_names t) then Panics InvalidMetric
                else if \<not> op_of t op then Panics BadTypeAssertion
                else case op of
                       Add x \<Rightarrow> if x < 0 then Panics InvalidMetric else Returns (store((v, ls) := store (v, ls) + x))
                     | Put x \<Rightarrow> Returns (store((v, ls) := x))
                     | Seen \<Rightarrow> Returns (store((v, ls) := store (v, ls) + 1)))))"

text \<open>The calls one after the other, each with the time it measured.\<close>

fun perform_all :: "(rat \<times> metric) list \<Rightarrow> metric_store \<Rightarrow> metric_store outcome" where
  "perform_all [] store = Returns store"
| "perform_all (em # ms) store = bind_outcome (perform (fst em) (snd em) store) (perform_all ms)"

section \<open>The calls of the client\<close>

lemma list_all_concat_map: "(\<And>x. x \<in> set xs \<Longrightarrow> list_all P (f x)) \<Longrightarrow> list_all P (concat (map f xs))"
  by (auto simp: list_all_iff)

text \<open>
  What holds of every call that a request for hosts makes, for any property of calls; then of
  every call of a collection of facts; then of what the transport below them makes. Each is
  proved once, and used for the types of the calls and for the registries they are exported by.
\<close>

locale host_calls =
  fixes ok :: "metric \<Rightarrow> bool"
  assumes hosts_counter: "List.member [''failed'', ''success''] l \<Longrightarrow> ok (Inc ''hostsCounterMetric'' [l])"
    and hosts_hist: "ok (ObserveElapsed ''hostsHistVecMetric'' [])"
begin

lemma status_two: "List.member [''failed'', ''success''] (status_label r)"
  by (simp add: status_label_def split: sum.split)

lemma hosts_status: "ok (Inc ''hostsCounterMetric'' [status_label r])"
  by (rule hosts_counter) (rule status_two)

lemma GetHosts_calls: "list_all ok (snd (GetHosts c tr thin page perPage))"
  by (simp add: GetHosts_def Let_def hosts_status)

lemma fan_out_calls:
  assumes "fan_out conc n work hist arr = Returns (results, ms)" "\<And>i. list_all ok (snd (work i))"
    and "ok (ObserveElapsed hist [])"
  shows "list_all ok ms"
  using assms by (auto simp: fan_out_def intro!: list_all_concat_map split: if_splits)

lemma GetHostWithConcurrency_calls:
  "GetHostWithConcurrency c tr thin pages perPage arr = Returns (r, ms) \<Longrightarrow> list_all ok ms"
  unfolding GetHostWithConcurrency_def by (rule fan_out_calls [OF _ GetHosts_calls hosts_hist])

lemma GetHostsFiltered_calls:
  assumes "GetHostsFiltered c tr perPage arr = Returns (r, ms)"
  shows "list_all ok ms"
proof -
  obtain a ms1 where first: "GetHosts c tr ''true'' 1 1 = (a, ms1)" by (cases "GetHosts c tr ''true'' 1 1")
  then have "list_all ok ms1" using GetHosts_calls [of c tr "''true''" 1 1] by simp
  then show ?thesis
    using assms unfolding GetHostsFiltered_def Let_def first
    by (auto simp: bind_outcome_Returns_iff split: sum.splits if_splits dest: GetHostWithConcurrency_calls)
qed

lemma list_hosts_calls:
  assumes "list_hosts c tr arr = Returns (r, ms)"
  shows "list_all ok ms"
proof -
  obtain a ms1 where first: "GetHosts c tr ''true'' 1 (limited c (if HostListPerPage c \<le> 0 then defaultHostListPerPage
      else HostListPerPage c)) = (a, ms1)" by (rule prod.exhaust)
  have "list_all ok ms1"
    using GetHosts_calls [of c tr "''true''" 1 "limited c (if HostListPerPage c \<le> 0 then defaultHostListPerPage
      else HostListPerPage c)"] by (simp only: first snd_conv)
  then show ?thesis
    using assms unfolding list_hosts_def Let_def first
    by (auto simp: bind_outcome_Returns_iff split: sum.splits if_splits option.splits dest: GetHostWithConcurrency_calls)
qed

end

locale fact_calls = host_calls +
  assumes facts_counter: "List.member [''failed'', ''success''] l \<Longrightarrow> ok (Inc ''hostsFactsCounterMetric'' [l])"
    and facts_hist: "ok (ObserveElapsed ''hostsFactsHistVecMetric'' [])"
    and values_counter: "List.member [''failed'', ''success''] l \<Longrightarrow> ok (Inc ''factValuesCounterMetric'' [l])"
    and values_hist: "List.member [''failed'', ''success''] l \<Longrightarrow> ok (ObserveElapsed ''factValuesHistVecMetric'' [l])"
    and list_duration: "ok (SetElapsed ''hostListDurationMetric'')"
    and page_calls: "ok (Inc ''factValuesClampedMetric'' [])" "ok (Observe ''factValuesRowsMetric'' n)"
      "ok (ObserveRatio ''factValuesPageFillMetric'' n k)" "ok (Inc ''factValuesPagesContinuedMetric'' [])"
    and batch_calls: "ok (Inc ''factValuesBatchesMetric'' [])" "ok (Observe ''factValuesBatchHostsMetric'' n)"
      "ok (Inc ''factValuesBatchFailedMetric'' [])" "ok (Inc ''factValuesMaxPagesMetric'' [])"
      "0 \<le> n \<Longrightarrow> ok (AddTo ''factValuesHostsLostMetric'' n)" "ok (SetGauge ''factValuesNoFactsMetric'' n)"
begin

lemma GetHostFacts_calls: "list_all ok (snd (GetHostFacts c tr i page perPage))"
  by (simp add: GetHostFacts_def Let_def facts_counter [OF status_two])

lemma GetFactValues_calls: "list_all ok (snd (GetFactValues c tr search page perPage))"
  by (simp add: GetFactValues_def Let_def values_counter [OF status_two] values_hist [OF status_two])

lemma batch_pages_calls:
  assumes "\<And>p. list_all ok (snd (get p))"
  shows "list_all ok (snd (batch_pages get hosts perPage maxPages page res))"
  using assms
proof (induction get hosts perPage maxPages page res rule: batch_pages.induct)
  case (1 get hosts perPage maxPages page res)
  show ?case
  proof (cases "page \<le> maxPages")
    case True
    obtain r ms where get: "get page = (r, ms)" by (cases "get page")
    then have ms: "list_all ok ms" using 1(2) [of page] by simp
    show ?thesis
    proof (cases r)
      case (Inl e)
      then show ?thesis using True ms by (subst batch_pages.simps) (simp add: get)
    next
      case (Inr resp)
      note next_page = 1(1) [OF True get [symmetric] Inr refl refl refl refl _ 1(2)]
      from Inr ms show ?thesis
        by (subst batch_pages.simps) (simp add: get Let_def True page_calls case_prod_beta next_page)
    qed
  qed (subst batch_pages.simps, simp)
qed

lemma GetFactValuesBatch_calls: "list_all ok (snd (GetFactValuesBatch c tr hosts))"
  unfolding GetFactValuesBatch_def Let_def by (rule batch_pages_calls) (rule GetFactValues_calls)

lemma bulk_metrics_calls: "list_all ok (bulk_metrics e)"
  by (cases e) (simp add: bulk_metrics_def batch_calls)

lemma getHostsFactsBulk_calls: "getHostsFactsBulk c tr hosts order = Returns (r, ms) \<Longrightarrow> list_all ok ms"
  by (auto simp: getHostsFactsBulk_def Let_def batch_calls bulk_metrics_calls GetFactValuesBatch_calls comp_def
      intro!: list_all_concat_map split: sum.splits)

lemma getHostsFactsEach_calls: "getHostsFactsEach c tr hosts arr = Returns (r, ms) \<Longrightarrow> list_all ok ms"
  by (auto simp: getHostsFactsEach_def GetHostFactsWithConcurrency_def bind_outcome_Returns_iff Let_def
      intro: fan_out_calls [OF _ GetHostFacts_calls facts_hist])

lemma GetHostsFactsFiltered_calls:
  assumes "GetHostsFactsFiltered c tr arr1 arr2 = Returns (r, ms)"
  shows "list_all ok ms"
proof -
  obtain listed ms1 where first: "list_hosts c tr arr1 = Returns (listed, ms1)"
    using assms by (auto simp: GetHostsFactsFiltered_def bind_outcome_Returns_iff)
  then have ms1: "list_all ok ms1" by (rule list_hosts_calls)
  show ?thesis
  proof (cases listed)
    case (Inl e)
    then show ?thesis using assms ms1 by (simp add: GetHostsFactsFiltered_def first)
  next
    case (Inr hosts)
    then obtain r' ms' where facts: "(if BulkFacts c then getHostsFactsBulk c tr hosts arr2
        else getHostsFactsEach c tr hosts arr2) = Returns (r', ms')"
      and ms: "ms = ms1 @ [SetElapsed ''hostListDurationMetric''] @ ms'"
      using assms by (auto simp: GetHostsFactsFiltered_def first bind_outcome_Returns_iff)
    from facts have "list_all ok ms'"
      by (auto split: if_splits dest: getHostsFactsBulk_calls getHostsFactsEach_calls)
    with ms1 show ?thesis by (simp add: ms list_duration)
  qed
qed

end

locale transport_calls =
  fixes ok :: "metric \<Rightarrow> bool"
  assumes retry_after: "s = 429 \<or> s = 503 \<Longrightarrow> ok (ObserveNanos ''retryAfterMetric'' [FormatInt s] n)"
    and limiter: "ok (AddElapsed ''rateLimitWaitMetric'')" "ok (Inc ''rateLimitDelayedMetric'' [])"
begin

lemma retryAfterBackoff_calls: "list_all ok (snd (retryAfterBackoff ParseTime now DefaultBackoff retryMaxWait resp))"
  by (auto simp: retryAfterBackoff_def Let_def retry_after split: option.split prod.split bool.split)

lemma RoundTrip_calls: "list_all ok (fst (snd (RoundTrip allow wait next r l)))"
  by (auto simp: RoundTrip_def limiter split: prod.split bool.split sum.split)

end

section \<open>Typing\<close>

text \<open>A call that its metric's declaration accepts, on labels from a fixed set.\<close>

definition known_labels :: "string list" where
  "known_labels = [''failed'', ''success'', ''429'', ''503'']"

fun not_negative :: "metric_op \<Rightarrow> bool" where
  "not_negative (Add x) = (0 \<le> x)"
| "not_negative (Put x) = True"
| "not_negative Seen = True"

definition typed :: "metric \<Rightarrow> bool" where
  "typed m =
     (case metric_call 0 m of
        (v, ls, op) \<Rightarrow>
          (case map_of declared v of
             None \<Rightarrow> False
           | Some (_, t) \<Rightarrow> length ls = length (label_names t) \<and> op_of t op \<and> not_negative op
                          \<and> list_all (List.member known_labels) ls))"

lemmas declared_defs = declared_def client_metrics_def fact_values_metrics_def rate_limit_metrics_def
  hostScrapeDurationMetric_def hostFactScrapeDurationMetric_def ringLeaderLookupErrorsMetric_def

lemmas typed_defs = typed_def metric_call_def label_names_def declared_defs

lemma request_calls_typed:
  "List.member [''failed'', ''success''] l \<Longrightarrow> typed (Inc ''hostsCounterMetric'' [l])"
  "List.member [''failed'', ''success''] l \<Longrightarrow> typed (Inc ''hostsFactsCounterMetric'' [l])"
  "List.member [''failed'', ''success''] l \<Longrightarrow> typed (ObserveElapsed ''factValuesHistVecMetric'' [l])"
  "List.member [''failed'', ''success''] l \<Longrightarrow> typed (Inc ''factValuesCounterMetric'' [l])"
  "typed (ObserveElapsed ''hostsHistVecMetric'' [])"
  "typed (ObserveElapsed ''hostsFactsHistVecMetric'' [])"
  "typed (SetElapsed ''hostListDurationMetric'')"
  by (auto simp add: typed_defs known_labels_def)

lemma bulk_calls_typed:
  "typed (Inc ''factValuesClampedMetric'' [])" "typed (Observe ''factValuesRowsMetric'' n)"
  "typed (ObserveRatio ''factValuesPageFillMetric'' n k)" "typed (Inc ''factValuesPagesContinuedMetric'' [])"
  "typed (Inc ''factValuesBatchesMetric'' [])" "typed (Observe ''factValuesBatchHostsMetric'' n)"
  "typed (Inc ''factValuesBatchFailedMetric'' [])" "typed (Inc ''factValuesMaxPagesMetric'' [])"
  "0 \<le> n \<Longrightarrow> typed (AddTo ''factValuesHostsLostMetric'' n)" "typed (SetGauge ''factValuesNoFactsMetric'' n)"
  by (simp_all add: typed_defs)

lemma transport_calls_typed:
  "s = 429 \<or> s = 503 \<Longrightarrow> typed (ObserveNanos ''retryAfterMetric'' [FormatInt s] n)"
  "typed (AddElapsed ''rateLimitWaitMetric'')" "typed (Inc ''rateLimitDelayedMetric'' [])"
proof -
  have "FormatInt 429 = ''429''" "FormatInt 503 = ''503''" by code_simp+
  then show "s = 429 \<or> s = 503 \<Longrightarrow> typed (ObserveNanos ''retryAfterMetric'' [FormatInt s] n)"
    by (auto simp add: typed_defs known_labels_def)
qed (simp_all add: typed_defs)
text \<open>The calls of all operations are of the declared types.\<close>

interpretation typed: fact_calls typed
  by unfold_locales (rule request_calls_typed bulk_calls_typed, assumption?)+

interpretation typed: transport_calls typed
  by unfold_locales (simp_all add: transport_calls_typed)

section \<open>Calls do not fail\<close>

definition is_counter :: "string \<Rightarrow> bool" where
  "is_counter v =
     (case map_of declared v of
        Some (_, t) \<Rightarrow> t = Counter \<or> (case t of CounterVec _ \<Rightarrow> True | _ \<Rightarrow> False)
      | None \<Rightarrow> False)"

text \<open>Only declared metrics have series, with as many labels as they declare, all from the fixed set.\<close>

definition series_ok :: "series \<Rightarrow> bool" where
  "series_ok s =
     (case map_of declared (fst s) of
        None \<Rightarrow> False
      | Some (_, t) \<Rightarrow> length (snd s) = length (label_names t) \<and> list_all (List.member known_labels) (snd s))"

definition store_ok :: "metric_store \<Rightarrow> bool" where
  "store_ok store \<longleftrightarrow> (\<forall>s. store s \<noteq> 0 \<longrightarrow> series_ok s)"

definition counters_kept :: "metric_store \<Rightarrow> metric_store \<Rightarrow> bool" where
  "counters_kept store store' \<longleftrightarrow> (\<forall>v ls. is_counter v \<longrightarrow> store (v, ls) \<le> store' (v, ls))"

lemma metric_call_elapsed:
  "\<exists>v ls. fst (metric_call elapsed m) = v \<and> fst (metric_call 0 m) = v
     \<and> fst (snd (metric_call elapsed m)) = ls \<and> fst (snd (metric_call 0 m)) = ls
     \<and> (\<forall>t. op_of t (snd (snd (metric_call elapsed m))) = op_of t (snd (snd (metric_call 0 m))))"
proof -
  have "op_of t (Add x) = op_of t (Add y)" "op_of t (Put x) = op_of t (Put y)" for t x y
    by (cases t; simp)+
  then show ?thesis by (cases m) (simp_all add: metric_call_def)
qed

lemma op_counter: "op_of t (Put x) \<Longrightarrow> t = Gauge" "op_of t Seen \<Longrightarrow> t \<noteq> Counter \<and> (\<forall>ns. t \<noteq> CounterVec ns)"
  by (cases t; simp)+

lemma perform_typed:
  assumes "typed m" "0 \<le> elapsed" "store_ok store"
  shows "\<exists>store'. perform elapsed m store = Returns store' \<and> store_ok store' \<and> counters_kept store store'"
proof -
  obtain v ls op where call: "metric_call elapsed m = (v, ls, op)" by (cases "metric_call elapsed m")
  obtain op0 where call0: "metric_call 0 m = (v, ls, op0)" "\<And>t. op_of t op0 = op_of t op"
    using metric_call_elapsed [of elapsed m] by (cases "metric_call 0 m") (auto simp: call)
  have op: "not_negative op0 \<Longrightarrow> not_negative op"
    using call call0 assms(2) by (cases m) (auto simp: metric_call_def)
  obtain n t where d: "map_of declared v = Some (n, t)" "length ls = length (label_names t)" "op_of t op"
      "not_negative op" "list_all (List.member known_labels) ls"
    using assms(1) call0 op by (auto simp: typed_def split: option.splits)
  have s: "series_ok (v, ls)" using d by (simp add: series_ok_def)
  have upd: "store_ok (store((v, ls) := x))" for x
    using assms(3) s by (simp add: store_ok_def)
  show ?thesis
  proof (cases op)
    case (Add x)
    then have "perform elapsed m store = Returns (store((v, ls) := store (v, ls) + x))" "0 \<le> x"
      using d by (simp_all add: perform_def call)
    then show ?thesis using upd by (simp add: counters_kept_def)
  next
    case (Put x)
    then have "perform elapsed m store = Returns (store((v, ls) := x))" "\<not> is_counter v"
      using d by (auto simp: perform_def call is_counter_def dest: op_counter)
    then show ?thesis using upd by (auto simp: counters_kept_def)
  next
    case Seen
    then have "perform elapsed m store = Returns (store((v, ls) := store (v, ls) + 1))"
      using d by (simp add: perform_def call)
    then show ?thesis using upd by (simp add: counters_kept_def)
  qed
qed

lemma counters_kept_trans: "counters_kept a b \<Longrightarrow> counters_kept b c \<Longrightarrow> counters_kept a c"
  by (meson counters_kept_def order_trans)

lemma perform_all_typed:
  assumes "list_all typed ms" "length ts = length ms" "\<forall>t \<in> set ts. 0 \<le> t" "store_ok store"
  shows "\<exists>store'. perform_all (zip ts ms) store = Returns store' \<and> store_ok store' \<and> counters_kept store store'"
  using assms
proof (induction ms arbitrary: ts store)
  case Nil
  then show ?case by (simp add: counters_kept_def)
next
  case (Cons m ms)
  then obtain t ts' where ts: "ts = t # ts'" by (cases ts) auto
  obtain store1 where first: "perform t m store = Returns store1" "store_ok store1" "counters_kept store store1"
    using perform_typed [of m t store] Cons.prems ts by auto
  obtain store' where "perform_all (zip ts' ms) store1 = Returns store'" "store_ok store'" "counters_kept store1 store'"
    using Cons.IH [of ts' store1] Cons.prems ts first(2) by auto
  with first ts show ?case using counters_kept_trans by auto
qed

text \<open>C17: Every metric call that the client makes is accepted by the metric's declaration: whatever foreman
  answers and in whatever order the requests complete, no call of a collection of hosts or facts, of a
  retry or of the rate limiter panics; counters never decrease; and only declared metrics get series,
  with the declared number of labels, whose values are known in advance, so that their number is bounded.\<close>

theorem client_metrics_typed:
  assumes "GetHostsFiltered c tr perPage arr = Returns (r, ms)
      \<or> GetHostsFactsFiltered c tr arr1 arr2 = Returns (r', ms)
      \<or> retryAfterBackoff ParseTime t DefaultBackoff retryMaxWait resp = (delay, ms)
      \<or> RoundTrip allow wait request q l = (answer, ms, l')"
    and "length ts = length ms" "\<forall>t \<in> set ts. 0 \<le> t" "store_ok store"
  shows "\<exists>store'. perform_all (zip ts ms) store = Returns store' \<and> store_ok store' \<and> counters_kept store store'"
proof -
  have "list_all typed ms"
    using assms(1) typed.retryAfterBackoff_calls [of ParseTime t DefaultBackoff retryMaxWait resp]
      typed.RoundTrip_calls [of allow wait request q l]
    by (elim disjE) (rule typed.GetHostsFiltered_calls typed.GetHostsFactsFiltered_calls; assumption | simp)+
  then show ?thesis using assms(2-) by (rule perform_all_typed)
qed

theorem client_metrics_typed_witness:
  "\<exists>store'. perform_all [(3, ObserveNanos ''retryAfterMetric'' [FormatInt 429] (60 * second))] (\<lambda>_. 0) = Returns store'
    \<and> store_ok store'"
proof -
  have parse: "parseRetryAfter (\<lambda>_. None) 0 ''120'' = (120 * second, True)"
    by (simp add: parseRetryAfter_def Atoi_120) (simp add: second_def is_i64_def)
  have "retryAfterBackoff (\<lambda>_. None) 0 (\<lambda>_. 1) (60 * second) (Some (429, ''120''))
      = (60 * second, [ObserveNanos ''retryAfterMetric'' [FormatInt 429] (60 * second)])"
    by (simp add: retryAfterBackoff_def parse Let_def) (simp add: second_def)
  from client_metrics_typed [OF disjI2 [OF disjI2 [OF disjI1 [OF this]]], of "[3]" "\<lambda>_. 0"]
  show ?thesis by (auto simp: store_ok_def)
qed

section \<open>Registration\<close>

lemma MustRegister_Returns:
  "MustRegister ns reg = Returns reg' \<longleftrightarrow> distinct ns \<and> set ns \<inter> set reg = {} \<and> reg' = reg @ ns"
  by (induction ns arbitrary: reg) auto

definition our_names :: "string list" where
  "our_names = map (\<lambda>(_, n, _). n) declared @ [nodeRoleDesc]"

text \<open>The names are distinct and carry the exporter's prefix; and every registered variable is declared.\<close>

lemma our_names_distinct: "distinct our_names" "list_all (\<lambda>n. take 17 n = metric_prefix) our_names"
    "\<not> List.member our_names ''foreman_exporter_build_info''"
  by code_simp+

lemma registered_names:
  "list_all (\<lambda>v. List.member our_names (name_of v))  (init_metrics @ hosts_registry_metrics @ facts_registry_metrics
     @ [''ringLeaderLookupErrorsMetric'', ''hostFactScrapeDurationMetric'', ''hostScrapeDurationMetric''])"
  "distinct (map name_of (init_metrics @ hosts_registry_metrics @ facts_registry_metrics)
    @ [name_of ''ringLeaderLookupErrorsMetric'', nodeRoleDesc, name_of ''hostFactScrapeDurationMetric'',
       name_of ''hostScrapeDurationMetric''])"
  by code_simp+

text \<open>The names that the start-up registers, in order.\<close>

definition start_names :: "bool \<Rightarrow> bool \<Rightarrow> bool \<Rightarrow> string list \<Rightarrow> string list" where
  "start_names ring_on facts_on hosts_on libs =
     map name_of init_metrics @ [''foreman_exporter_build_info'']
     @ (if ring_on then map (\<lambda>n. metric_prefix @ n) libs @ [name_of ''ringLeaderLookupErrorsMetric'', nodeRoleDesc] else [])
     @ (if facts_on then [name_of ''hostFactScrapeDurationMetric''] else [])
     @ (if hosts_on then [name_of ''hostScrapeDurationMetric''] else [])"

lemma distinct_parts:
  assumes "distinct r" "distinct l" "distinct w" "set r \<inter> insert b A = {}" "set l \<inter> insert b A = {}"
    and "set l \<inter> set r = {}" "b \<notin> A" "set w \<subseteq> A"
  shows "distinct (r @ [b] @ l @ w)"
  using assms by auto

lemma distinct_optional:
  "distinct (r @ I @ B @ R @ F @ H) \<Longrightarrow>
    distinct (r @ I @ B @ (if x then R else []) @ (if y then F else []) @ (if z then H else []))"
  by auto

lemma distinct_shuffle:
  "distinct (r @ [b] @ l @ I @ [e, n, f, h]) \<Longrightarrow> distinct (r @ I @ [b] @ (l @ [e, n]) @ [f] @ [h])"
  by auto

lemma start_names_distinct:
  assumes "\<forall>n \<in> set reg. take 17 n \<noteq> metric_prefix" "distinct reg"
    and "distinct libs" "\<forall>n \<in> set libs. metric_prefix @ n \<notin> set (''foreman_exporter_build_info'' # our_names)"
  shows "distinct (reg @ start_names ring_on facts_on hosts_on libs)"
proof -
  let ?own = "map name_of init_metrics @ [name_of ''ringLeaderLookupErrorsMetric'', nodeRoleDesc,
    name_of ''hostFactScrapeDurationMetric'', name_of ''hostScrapeDurationMetric'']"
  let ?b = "''foreman_exporter_build_info''" and ?l = "map (\<lambda>n. metric_prefix @ n) libs"
  have own: "list_all (List.member our_names) ?own" "distinct ?own" "metric_prefix = take 17 ?b"
    by (code_simp, code_simp, code_simp)
  have own': "set ?own \<subseteq> set our_names" using own(1) by (auto simp: list_all_iff simp del: set_map)
  have free: "set reg \<inter> insert ?b (set our_names) = {}"
    using assms(1) our_names_distinct(2) own(3) by (auto simp: list_all_iff)
  have l: "distinct ?l" "set ?l \<inter> insert ?b (set our_names) = {}" "set ?l \<inter> set reg = {}"
    using assms(1,3,4) by (auto simp: distinct_map inj_on_def metric_prefix_def)
  have b: "?b \<notin> set our_names" using our_names_distinct(3) by simp
  have all: "distinct (reg @ [?b] @ ?l @ ?own)"
    using assms(2) l(1) own(2) free l(2,3) b own' by (rule distinct_parts)
  show ?thesis
    unfolding start_names_def by (rule distinct_optional, rule distinct_shuffle) (use all in \<open>simp only: append.assoc\<close>)
qed

text \<open>Every request for hosts or facts can register the client's metrics of its kind in its new registry.\<close>

lemma request_registries:
  "SetHostsRegistry [] = Returns (map name_of hosts_registry_metrics)"
  "SetHostsFactsRegistry [] = Returns (map name_of facts_registry_metrics)"
proof -
  have "distinct (map name_of hosts_registry_metrics)" "distinct (map name_of facts_registry_metrics)"
    by (code_simp, code_simp)
  then show "SetHostsRegistry [] = Returns (map name_of hosts_registry_metrics)"
    "SetHostsFactsRegistry [] = Returns (map name_of facts_registry_metrics)"
    by (simp_all add: SetHostsRegistry_def SetHostsFactsRegistry_def MustRegister_Returns)
qed

section \<open>What is exported\<close>

text \<open>A call is visible when a registry holds the metric it is made on.\<close>

definition exported :: "string list \<Rightarrow> metric \<Rightarrow> bool" where
  "exported vars m \<longleftrightarrow> List.member vars (fst (metric_call 0 m))"

interpretation exported_hosts: host_calls "exported (init_metrics @ hosts_registry_metrics)"
  by unfold_locales (simp_all add: exported_def metric_call_def hosts_registry_metrics_def)

interpretation exported_transport: transport_calls "exported init_metrics"
  by unfold_locales (simp_all add: exported_def metric_call_def init_metrics_def)

lemma facts_list_calls:
  assumes "GetHostsFactsFiltered c tr arr1 arr2 = Returns (r, ms)"
  shows "\<exists>listed ms1. list_hosts c tr arr1 = Returns (listed, ms1) \<and> set ms1 \<subseteq> set ms"
proof -
  obtain listed ms1 where first: "list_hosts c tr arr1 = Returns (listed, ms1)"
    using assms by (auto simp: GetHostsFactsFiltered_def bind_outcome_Returns_iff)
  then show ?thesis
    using assms by (cases listed) (auto simp: GetHostsFactsFiltered_def bind_outcome_Returns_iff)
qed

lemma list_hosts_counted:
  assumes "list_hosts c tr arr = Returns (r, ms)"
  shows "\<exists>l. Inc ''hostsCounterMetric'' [l] \<in> set ms"
proof -
  obtain a ms1 where first: "GetHosts c tr ''true'' 1 (limited c (if HostListPerPage c \<le> 0 then defaultHostListPerPage
      else HostListPerPage c)) = (a, ms1)" by (rule prod.exhaust)
  have "Inc ''hostsCounterMetric'' [status_label a] \<in> set ms1"
    using first by (auto simp: GetHosts_def Let_def)
  then show ?thesis
    using assms unfolding list_hosts_def Let_def first
    by (auto simp: bind_outcome_Returns_iff split: sum.splits if_splits option.splits)
qed

text \<open>C40: Every call of a request for hosts, and of the transport below it, is on a metric that is exported: by
  the default registry or by the registry of the request. Not so for facts: each collection of facts
  counts its requests for the host list on a metric that neither the default registry nor the registry of
  the request holds, so that with the fact collector alone nobody ever sees it.\<close>

theorem host_list_of_facts_not_exported:
  assumes "GetHostsFiltered c tr perPage arr = Returns (r, ms)"
    and "GetHostsFactsFiltered c' tr' arr1 arr2 = Returns (r', ms')"
  shows "list_all (exported (init_metrics @ hosts_registry_metrics)) ms
    \<and> (\<exists>l. Inc ''hostsCounterMetric'' [l] \<in> set ms'
          \<and> \<not> exported (init_metrics @ facts_registry_metrics) (Inc ''hostsCounterMetric'' [l]))"
proof -
  obtain listed ms1 where first: "list_hosts c' tr' arr1 = Returns (listed, ms1)" "set ms1 \<subseteq> set ms'"
    using facts_list_calls [OF assms(2)] by blast
  have "\<not> exported (init_metrics @ facts_registry_metrics) (Inc ''hostsCounterMetric'' [l])" for l
    by (simp add: exported_def metric_call_def init_metrics_def facts_registry_metrics_def)
  then show ?thesis
    using list_hosts_counted [OF first(1)] first(2) exported_hosts.GetHostsFiltered_calls [OF assms(1)] by blast
qed

theorem host_list_of_facts_not_exported_witness:
  "\<exists>ms. GetHostsFactsFiltered default_client down_server [] [] = Returns (([], Some (CannotGetHosts (Transport ''connection refused''))), ms)
    \<and> (\<exists>l. Inc ''hostsCounterMetric'' [l] \<in> set ms)"
proof -
  let ?answer = "([], Some (CannotGetHosts (Transport ''connection refused'')))"
  have down: "GetHosts c down_server t p q = (Inl (Transport ''connection refused''), [Inc ''hostsCounterMetric'' [''failed'']])"
    for c t p q by (simp add: GetHosts_def Let_def DoWithContext_def down_server_def status_label_def)
  then have "\<exists>ms. GetHostsFiltered default_client down_server 1 [] = Returns (?answer, ms)"
    by (simp add: GetHostsFiltered_def Let_def)
  moreover have "\<exists>ms. GetHostsFactsFiltered default_client down_server [] [] = Returns (?answer, ms)"
    by (simp add: GetHostsFactsFiltered_def list_hosts_def Let_def down)
  ultimately show ?thesis
    using host_list_of_facts_not_exported by blast
qed

end
