(* ===== verification/Ring.thy ===== *)
theory Ring
  imports Collector
begin

text \<open>
  The cluster of exporters (ring.go): how an instance joins the ring, who leads it, and the role
  that an instance reports. The ring, the gossip and their services are dskit's: what the code
  calls of them is in the records \<open>ring_client\<close> and \<open>ring_services\<close>.
\<close>

section \<open>Constants and settings\<close>

definition ringKey :: string where "ringKey = ''foreman-exporter''"
definition ringNumTokens :: int where "ringNumTokens = 1"
definition ringAutoForgetUnhealthyPeriods :: int where "ringAutoForgetUnhealthyPeriods = 3"
definition leaderToken :: int where "leaderToken = 0"
definition ringOp :: "string list" where "ringOp = [''ACTIVE'', ''LEAVING'']"

record RingLifecyclerConfig =
  HeartbeatPeriod :: int
  HeartbeatTimeout :: int
  KeepInstanceInTheRingOnShutdown :: bool

text \<open>An instance of the ring: its id, its address, and its state as the ring prints it.\<close>

record InstanceDesc =
  InstanceId :: string
  InstanceAddr :: string
  InstanceState :: string

record ring_client =
  ring_Get :: "int \<Rightarrow> string list \<Rightarrow> string + InstanceDesc list"
  ring_GetAllHealthy :: "string list \<Rightarrow> string + InstanceDesc list"

text \<open>The ring as an instance sees it, and the address that its lifecycler registered.\<close>

record ExporterRing =
  ring_on :: bool
  ring_view :: ring_client
  self_addr :: string

section \<open>The leader\<close>

definition ringLeader :: "ring_client \<Rightarrow> string + InstanceDesc" where
  "ringLeader r =
     (case ring_Get r leaderToken ringOp of
        Inl err \<Rightarrow> Inl (''failed to get a healthy instance for token '' @ FormatInt leaderToken @ '': '' @ err)
      | Inr instances \<Rightarrow>
          (if length instances \<noteq> 1
           then Inl (''got '' @ FormatInt (int (length instances)) @ '' instances for token ''
                  @ FormatInt leaderToken @ '' (but expected 1)'')
           else Inr (instances ! 0)))"

definition isLeader :: "ExporterRing \<Rightarrow> string + bool" where
  "isLeader expRing =
     (case ringLeader (ring_view expRing) of
        Inl err \<Rightarrow> Inl err
      | Inr rl \<Rightarrow> Inr (InstanceAddr rl = self_addr expRing))"

definition nodeRoleUnknown :: int where "nodeRoleUnknown = 0"
definition nodeRoleLeader :: int where "nodeRoleLeader = 1"
definition nodeRoleFollower :: int where "nodeRoleFollower = 2"

text \<open>The role's gauge, and by how much the counter of lookup errors grows.\<close>

definition nodeRoleCollector_Collect :: "(string + bool) \<Rightarrow> int \<times> nat" where
  "nodeRoleCollector_Collect leaderFn =
     (case leaderFn of
        Inl err \<Rightarrow> (nodeRoleUnknown, 1)
      | Inr isLeaderNow \<Rightarrow> (if isLeaderNow then nodeRoleLeader else nodeRoleFollower, 0))"

section \<open>Joining the ring\<close>

text \<open>The settings of the gossip that this code touches; the others are the record's extension.\<close>

record KVConfig =
  Codecs :: "string list"
  BindPort :: int
  BindAddrs :: "string list"
  NodeName :: string
  JoinMembers :: "string list"

definition SimpleMemberlistKV :: "string list \<Rightarrow> 'a KVConfig_scheme \<Rightarrow> string \<Rightarrow> string \<Rightarrow> int \<Rightarrow> string list
    \<Rightarrow> 'a KVConfig_scheme" where
  "SimpleMemberlistKV codecs config instanceID instanceAddr instancePort joinMembers =
     (let config = config\<lparr>Codecs := codecs, BindPort := instancePort, BindAddrs := [instanceAddr],
                          NodeName := instanceID\<rparr>
      in if length joinMembers > 0 then config\<lparr>JoinMembers := joinMembers\<rparr> else config)"

record BasicLifecyclerConfig =
  lc_ID :: string
  lc_Addr :: string
  lc_HeartbeatPeriod :: int
  lc_HeartbeatTimeout :: int
  lc_TokensObservePeriod :: int
  lc_NumTokens :: int
  lc_KeepInstanceInTheRingOnShutdown :: bool
  lc_registered_as :: string
  lc_forget_after :: int

text \<open>\<open>GetInstanceAddr\<close> looks an address up on the named interfaces when none is given.\<close>

definition SimpleRingLifecycler :: "(string \<Rightarrow> string list \<Rightarrow> string + string) \<Rightarrow> string \<Rightarrow> string \<Rightarrow> int
    \<Rightarrow> string list \<Rightarrow> RingLifecyclerConfig \<Rightarrow> string + BasicLifecyclerConfig" where
  "SimpleRingLifecycler GetInstanceAddr instanceID instanceAddr instancePort instanceInterfaceNames cfg =
     (case GetInstanceAddr instanceAddr instanceInterfaceNames of
        Inl err \<Rightarrow> Inl err
      | Inr addr \<Rightarrow>
          Inr \<lparr>lc_ID = instanceID, lc_Addr = addr @ '':'' @ FormatInt instancePort,
               lc_HeartbeatPeriod = HeartbeatPeriod cfg, lc_HeartbeatTimeout = HeartbeatTimeout cfg,
               lc_TokensObservePeriod = 0, lc_NumTokens = ringNumTokens,
               lc_KeepInstanceInTheRingOnShutdown = KeepInstanceInTheRingOnShutdown cfg,
               lc_registered_as = ''ACTIVE'',
               lc_forget_after = i64 (ringAutoForgetUnhealthyPeriods * HeartbeatPeriod cfg)\<rparr>)"

record ring_config =
  ReplicationFactor :: int
  SubringCacheDisabled :: bool

definition SimpleRing :: "ring_config \<Rightarrow> ring_config" where
  "SimpleRing defaults = defaults\<lparr>ReplicationFactor := 1, SubringCacheDisabled := True\<rparr>"

text \<open>The services: each call answers with an error, or with nothing more than success.\<close>

record 'a ring_services =
  os_Hostname :: "string option"
  ring_codecs :: "string list"
  start_memberlist :: "'a KVConfig_scheme \<Rightarrow> string option"
  GetMemberlistKV :: "string option"
  NewClient_ring :: "string option"
  NewClient_cache :: "string option"
  GetInstanceAddr :: "string \<Rightarrow> string list \<Rightarrow> string + string"
  NewBasicLifecycler :: "BasicLifecyclerConfig \<Rightarrow> string option"
  start_lifecycler :: "BasicLifecyclerConfig \<Rightarrow> string option"
  ring_defaults :: ring_config
  NewRing :: "ring_config \<Rightarrow> string option"
  start_ring :: "ring_config \<Rightarrow> string option"

datatype 'a ring_setup =
    ExitProcess int
  | SetupFailed string
  | RingUp "'a KVConfig_scheme" BasicLifecyclerConfig ring_config

fun and_then :: "string option \<Rightarrow> 'a ring_setup \<Rightarrow> 'a ring_setup" where
  "and_then (Some err) rest = SetupFailed err"
| "and_then None rest = rest"

definition split_members :: "string \<Rightarrow> string list" where
  "split_members s = (if s \<noteq> [] then strings_Split s (CHR '','') else [])"

text \<open>An empty instance id is replaced by the host's name, or else the process exits.\<close>

definition newRing :: "'a ring_services \<Rightarrow> string \<Rightarrow> string \<Rightarrow> string \<Rightarrow> string \<Rightarrow> int \<Rightarrow> 'a KVConfig_scheme
    \<Rightarrow> RingLifecyclerConfig \<Rightarrow> 'a ring_setup" where
  "newRing sv instanceID instanceAddr joinMembers instanceInterfaceNames instancePort mlKVConfig lifecyclerCfg =
     (let joinMembersSlice = split_members joinMembers;
          instanceInterfaceNamesSlice = split_members instanceInterfaceNames
      in case (if instanceID = [] then os_Hostname sv else Some instanceID) of
           None \<Rightarrow> ExitProcess 1
         | Some instanceID \<Rightarrow>
             (let kvc = SimpleMemberlistKV (ring_codecs sv) mlKVConfig instanceID instanceAddr instancePort
                          joinMembersSlice
              in and_then (start_memberlist sv kvc)
                (and_then (GetMemberlistKV sv)
                (and_then (NewClient_ring sv)
                (and_then (NewClient_cache sv)
                (case SimpleRingLifecycler (GetInstanceAddr sv) instanceID instanceAddr instancePort
                        instanceInterfaceNamesSlice lifecyclerCfg of
                   Inl err \<Rightarrow> SetupFailed err
                 | Inr lfc \<Rightarrow>
                     and_then (NewBasicLifecycler sv lfc)
                     (and_then (start_lifecycler sv lfc)
                     (let ringsvc = SimpleRing (ring_defaults sv)
                      in and_then (NewRing sv ringsvc)
                         (and_then (start_ring sv ringsvc)
                         (RingUp kvc lfc ringsvc))))))))))"

section \<open>Elections\<close>

text \<open>
  What the collectors rely on: a replica is told the address of the leader, or an error, and
  takes itself for the leader if the address is its own.
\<close>

locale election =
  fixes elected :: "'r \<Rightarrow> 'e + 'a"
    and self :: "'r \<Rightarrow> 'a"
    and asks :: "'r \<Rightarrow> 'e + bool"
  assumes asks_elected: "asks r = (case elected r of Inl err \<Rightarrow> Inl err | Inr a \<Rightarrow> Inr (a = self r))"
begin

lemma leader_iff: "asks r = Inr True \<longleftrightarrow> elected r = Inr (self r)"
  by (simp add: asks_elected split: sum.split)

lemma unresolved_iff: "(\<exists>err. asks r = Inl err) \<longleftrightarrow> (\<exists>err. elected r = Inl err)"
  by (simp add: asks_elected split: sum.split)

lemma at_most_one:
  "elected r = elected s \<Longrightarrow> self r \<noteq> self s \<Longrightarrow> asks r = Inr True \<Longrightarrow> asks s = Inr False"
  by (auto simp: asks_elected split: sum.splits)

lemma exactly_one:
  assumes "\<forall>r \<in> R. elected r = Inr a" "inj_on self R" "a \<in> self ` R"
  shows "\<exists>r \<in> R. asks r = Inr True \<and> (\<forall>s \<in> R. s \<noteq> r \<longrightarrow> asks s = Inr False)"
proof -
  from assms(3) obtain r where r: "r \<in> R" "self r = a" by auto
  then have "asks r = Inr True" using assms(1) by (simp add: leader_iff)
  moreover have "asks s = Inr False" if "s \<in> R" "s \<noteq> r" for s
    using that r assms(1,2) by (auto simp: asks_elected inj_on_def)
  ultimately show ?thesis using r(1) by blast
qed

end

definition leader_addr :: "ExporterRing \<Rightarrow> string + string" where
  "leader_addr r = map_sum id InstanceAddr (ringLeader (ring_view r))"

interpretation exporters: election leader_addr self_addr isLeader
  by unfold_locales (simp add: isLeader_def leader_addr_def split: sum.split)

text \<open>The answer of the ring is what the collectors' leader check sees.\<close>

definition with_ring :: "ExporterRing \<Rightarrow> env \<Rightarrow> env" where
  "with_ring r e = e\<lparr>leader := isLeader r\<rparr>"

lemma not_leader_silent:
  assumes "ring_enabled c" "UseCache c" "isLeader r \<noteq> Inr True"
  shows "HostCollector_Collect desc_ok lk c inc exc cd (with_ring r e) answer race = Returns []
    \<and> HostFactCollector_Collect desc_ok lk c cd (with_ring r e) answer' race = Returns []"
  by (rule not_leader_nothing) (use assms in \<open>simp_all add: with_ring_def\<close>)

section \<open>Properties\<close>

text \<open>C8: In a cluster whose replicas agree on the ring and have distinct addresses, one of which the ring's
  leader has, exactly one replica reports the role of leader; every other one reports the role of
  follower and its collectors export nothing, so every host is exported by one replica.\<close>

theorem one_replica_exports:
  assumes "\<forall>r \<in> R. ring_view r = view" "ringLeader view = Inr rl"
    and "inj_on self_addr R" "InstanceAddr rl \<in> self_addr ` R" "ring_enabled c" "UseCache c"
  shows "\<exists>r \<in> R. nodeRoleCollector_Collect (isLeader r) = (nodeRoleLeader, 0)
    \<and> (\<forall>s \<in> R. s \<noteq> r \<longrightarrow> nodeRoleCollector_Collect (isLeader s) = (nodeRoleFollower, 0)
         \<and> HostCollector_Collect desc_ok lk c inc exc cd (with_ring s e) answer race = Returns []
         \<and> HostFactCollector_Collect desc_ok lk c cd (with_ring s e) answer' race = Returns [])"
proof -
  have "\<forall>r \<in> R. leader_addr r = Inr (InstanceAddr rl)"
    using assms(1,2) by (simp add: leader_addr_def)
  from exporters.exactly_one [OF this assms(3,4)] obtain r where
    r: "r \<in> R" "isLeader r = Inr True" "\<forall>s \<in> R. s \<noteq> r \<longrightarrow> isLeader s = Inr False" by blast
  then show ?thesis
    using not_leader_silent [OF assms(5,6)] by (intro bexI [OF _ r(1)]) (simp add: nodeRoleCollector_Collect_def)
qed

definition example_view :: ring_client where
  "example_view = \<lparr>ring_Get = (\<lambda>_ _. Inr [\<lparr>InstanceId = ''a'', InstanceAddr = ''10.0.0.1:7946'', InstanceState = ''ACTIVE''\<rparr>]),
     ring_GetAllHealthy = (\<lambda>_. Inr [\<lparr>InstanceId = ''b'', InstanceAddr = ''10.0.0.2:7946'', InstanceState = ''ACTIVE''\<rparr>,
        \<lparr>InstanceId = ''a'', InstanceAddr = ''10.0.0.1:7946'', InstanceState = ''ACTIVE''\<rparr>])\<rparr>"

definition example_replica :: "string \<Rightarrow> ExporterRing" where
  "example_replica a = \<lparr>ring_on = True, ring_view = example_view, self_addr = a\<rparr>"

lemma example_leader:
  "ringLeader example_view = Inr \<lparr>InstanceId = ''a'', InstanceAddr = ''10.0.0.1:7946'', InstanceState = ''ACTIVE''\<rparr>"
  by (simp add: ringLeader_def example_view_def)

theorem one_replica_exports_witness:
  "nodeRoleCollector_Collect (isLeader (example_replica ''10.0.0.1:7946'')) = (1, 0)
   \<and> HostFactCollector_Collect (\<lambda>_. True) True (example_collector\<lparr>ring_enabled := True\<rparr>) example_codec
       (with_ring (example_replica ''10.0.0.2:7946'') example_env) ([(''web1'', [])], None) Finished = Returns []"
proof -
  let ?R = "example_replica ` {''10.0.0.1:7946'', ''10.0.0.2:7946''}"
  have role: "nodeRoleCollector_Collect (isLeader (example_replica ''10.0.0.1:7946'')) = (1, 0)"
    "nodeRoleCollector_Collect (isLeader (example_replica ''10.0.0.2:7946'')) = (2, 0)"
    by (simp_all add: nodeRoleCollector_Collect_def nodeRoleLeader_def nodeRoleFollower_def isLeader_def
        example_replica_def example_leader)
  have "\<exists>r \<in> ?R. nodeRoleCollector_Collect (isLeader r) = (nodeRoleLeader, 0)
    \<and> (\<forall>s \<in> ?R. s \<noteq> r \<longrightarrow> nodeRoleCollector_Collect (isLeader s) = (nodeRoleFollower, 0)
         \<and> HostCollector_Collect (\<lambda>_. True) True (example_collector\<lparr>ring_enabled := True\<rparr>) None None example_codec
             (with_ring s example_env) ([], None) Finished = Returns []
         \<and> HostFactCollector_Collect (\<lambda>_. True) True (example_collector\<lparr>ring_enabled := True\<rparr>) example_codec
             (with_ring s example_env) ([(''web1'', [])], None) Finished = Returns [])"
    by (rule one_replica_exports [OF _ example_leader])
      (simp_all add: example_replica_def example_collector_def inj_on_def)
  then show ?thesis using role by (auto simp: nodeRoleLeader_def nodeRoleFollower_def example_replica_def)
qed

text \<open>C29: An instance that cannot resolve the ring's leader (the ring answers with an error, or with none or
  several instances for the leader's token) never looks like a follower: it reports the role unknown
  and counts the lookup error, and it reports unknown only then; meanwhile its collectors export nothing.\<close>

theorem unresolved_ring_is_unknown:
  assumes "ring_enabled c" "UseCache c"
  shows "(fst (nodeRoleCollector_Collect (isLeader r)) = nodeRoleUnknown \<longleftrightarrow>
        (\<forall>i. ring_Get (ring_view r) leaderToken ringOp \<noteq> Inr [i]))
    \<and> snd (nodeRoleCollector_Collect (isLeader r)) = (if fst (nodeRoleCollector_Collect (isLeader r)) = nodeRoleUnknown then 1 else 0)
    \<and> (fst (nodeRoleCollector_Collect (isLeader r)) = nodeRoleUnknown \<longrightarrow>
         HostCollector_Collect desc_ok lk c inc exc cd (with_ring r e) answer race = Returns []
         \<and> HostFactCollector_Collect desc_ok lk c cd (with_ring r e) answer' race = Returns [])"
proof -
  have role: "fst (nodeRoleCollector_Collect a) = nodeRoleUnknown \<longleftrightarrow> (\<exists>err. a = Inl err)"
    "snd (nodeRoleCollector_Collect a) = (if \<exists>err. a = Inl err then 1 else 0)" for a
    by (cases a; simp add: nodeRoleCollector_Collect_def nodeRoleUnknown_def nodeRoleLeader_def nodeRoleFollower_def)+
  have "(\<exists>err. isLeader r = Inl err) \<longleftrightarrow> (\<exists>err. leader_addr r = Inl err)"
    by (rule exporters.unresolved_iff)
  also have "\<dots> \<longleftrightarrow> (\<forall>i. ring_Get (ring_view r) leaderToken ringOp \<noteq> Inr [i])"
    by (auto simp: leader_addr_def ringLeader_def length_Suc_conv split: sum.split)
  finally show ?thesis
    unfolding role using not_leader_silent [OF assms, of r] by (metis sum.distinct(1))
qed

theorem unresolved_ring_is_unknown_witness:
  "\<exists>r. fst (nodeRoleCollector_Collect (isLeader r)) = nodeRoleUnknown
    \<and> HostFactCollector_Collect (\<lambda>_. True) True (example_collector\<lparr>ring_enabled := True\<rparr>) example_codec
       (with_ring r example_env) ([(''web1'', [])], None) Finished = Returns []"
proof -
  let ?r = "example_replica ''x''\<lparr>ring_view := example_view\<lparr>ring_Get := (\<lambda>_ _. Inr [])\<rparr>\<rparr>"
  have c: "ring_enabled (example_collector\<lparr>ring_enabled := True\<rparr>)" "UseCache (example_collector\<lparr>ring_enabled := True\<rparr>)"
    by (simp_all add: example_collector_def)
  show ?thesis
    using unresolved_ring_is_unknown [OF c, of ?r "\<lambda>_. True" True None None example_codec example_env "([], None)" Finished "([(''web1'', [])], None)"]
    by (intro exI [of _ ?r]) simp
qed

section \<open>What a ring is set up with\<close>

lemma and_then_RingUp [simp]: "and_then a s = RingUp k l r \<longleftrightarrow> a = None \<and> s = RingUp k l r"
  by (cases a) auto

text \<open>When the ring comes up, every service was started without an error; the gossip's node, and the
  ring's instance have the same name, which is the configured one or else the host's; the members to
  join are those of the flag, in order, or what the gossip was configured with; every gossip setting
  that has no flag of its own is kept as configured; and the instance has one token and is forgotten
  after three heartbeat periods.\<close>

theorem newRing_settings:
  assumes "newRing sv instanceID instanceAddr joinMembers interfaces port kvc cfg = RingUp kvc' lfc rc"
    and "is_i64 (3 * HeartbeatPeriod cfg)"
  shows "(if instanceID = [] then os_Hostname sv else Some instanceID) = Some (NodeName kvc')
    \<and> lc_ID lfc = NodeName kvc' \<and> BindAddrs kvc' = [instanceAddr] \<and> BindPort kvc' = port
    \<and> (if joinMembers = [] then JoinMembers kvc' = JoinMembers kvc else strings_Join (JoinMembers kvc') '','' = joinMembers)
    \<and> KVConfig.more kvc' = KVConfig.more kvc
    \<and> (\<exists>addr. GetInstanceAddr sv instanceAddr (split_members interfaces) = Inr addr
         \<and> lc_Addr lfc = addr @ '':'' @ FormatInt port)
    \<and> lc_NumTokens lfc = 1 \<and> lc_forget_after lfc = 3 * lc_HeartbeatPeriod lfc \<and> ReplicationFactor rc = 1
    \<and> start_memberlist sv kvc' = None \<and> start_lifecycler sv lfc = None \<and> start_ring sv rc = None"
proof -
  obtain ID where ID: "(if instanceID = [] then os_Hostname sv else Some instanceID) = Some ID"
    using assms(1) by (cases "if instanceID = [] then os_Hostname sv else Some instanceID")
      (simp_all add: newRing_def split: if_splits)
  let ?kvc = "SimpleMemberlistKV (ring_codecs sv) kvc ID instanceAddr port (split_members joinMembers)"
  obtain addr where addr: "GetInstanceAddr sv instanceAddr (split_members interfaces) = Inr addr"
    using assms(1) ID by (cases "GetInstanceAddr sv instanceAddr (split_members interfaces)")
      (simp_all add: newRing_def SimpleRingLifecycler_def Let_def)
  have up: "kvc' = ?kvc" "rc = SimpleRing (ring_defaults sv)" "start_memberlist sv kvc' = None"
    "start_lifecycler sv lfc = None" "start_ring sv rc = None"
    "SimpleRingLifecycler (GetInstanceAddr sv) ID instanceAddr port (split_members interfaces) cfg = Inr lfc"
    using assms(1) ID addr by (simp_all add: newRing_def SimpleRingLifecycler_def Let_def) auto
  have "if joinMembers = [] then JoinMembers kvc' = JoinMembers kvc else strings_Join (JoinMembers kvc') '','' = joinMembers"
    by (simp add: up(1) SimpleMemberlistKV_def Let_def split_members_def strings_Join_Split)
  moreover have "NodeName kvc' = ID" "BindAddrs kvc' = [instanceAddr]" "BindPort kvc' = port"
    "KVConfig.more kvc' = KVConfig.more kvc"
    by (simp_all add: up(1) SimpleMemberlistKV_def Let_def)
  moreover have "lc_ID lfc = ID" "lc_NumTokens lfc = 1" "lc_forget_after lfc = 3 * lc_HeartbeatPeriod lfc"
    "lc_Addr lfc = addr @ '':'' @ FormatInt port"
    using up(6) addr assms(2)
    by (auto simp: SimpleRingLifecycler_def ringNumTokens_def ringAutoForgetUnhealthyPeriods_def)
  ultimately show ?thesis
    using ID addr up(2-5) by (simp add: SimpleRing_def)
qed

definition example_services :: "unit ring_services" where
  "example_services = \<lparr>os_Hostname = Some ''exporter1'', ring_codecs = [''ringDesc'', ''cacheProtoCodec''],
     start_memberlist = (\<lambda>_. None), GetMemberlistKV = None, NewClient_ring = None, NewClient_cache = None,
     GetInstanceAddr = (\<lambda>a _. if a = [] then Inr ''10.0.0.1'' else Inr a), NewBasicLifecycler = (\<lambda>_. None),
     start_lifecycler = (\<lambda>_. None), ring_defaults = \<lparr>ReplicationFactor = 3, SubringCacheDisabled = False\<rparr>,
     NewRing = (\<lambda>_. None), start_ring = (\<lambda>_. None)\<rparr>"

theorem newRing_settings_witness:
  "\<exists>kvc lfc rc. newRing example_services [] [] ''a,b'' [] 7946
      \<lparr>Codecs = [], BindPort = 1, BindAddrs = [], NodeName = [], JoinMembers = []\<rparr> \<lparr>HeartbeatPeriod = 15, HeartbeatTimeout = 60, KeepInstanceInTheRingOnShutdown = True\<rparr>
     = RingUp kvc lfc rc \<and> NodeName kvc = ''exporter1'' \<and> strings_Join (JoinMembers kvc) '','' = ''a,b''
     \<and> lc_forget_after lfc < lc_HeartbeatTimeout lfc"
proof -
  let ?cfg = "\<lparr>HeartbeatPeriod = 15, HeartbeatTimeout = 60, KeepInstanceInTheRingOnShutdown = True\<rparr>"
  let ?kvc = "\<lparr>Codecs = [], BindPort = 1, BindAddrs = [], NodeName = [], JoinMembers = []\<rparr>"
  obtain kvc lfc rc where up: "newRing example_services [] [] ''a,b'' [] 7946 ?kvc ?cfg = RingUp kvc lfc rc"
    "lc_HeartbeatPeriod lfc = 15" "lc_HeartbeatTimeout lfc = 60"
    by (auto simp: newRing_def example_services_def SimpleRingLifecycler_def Let_def)
  from newRing_settings [OF up(1)] up show ?thesis
    by (intro exI [of _ kvc] exI [of _ lfc] exI [of _ rc]) (simp add: is_i64_def example_services_def)
qed

end
