(* ===== verification/Handlers.thy ===== *)
theory Handlers
  imports Ring "HOL-Library.Product_Lexorder"
begin

text \<open>
  The HTTP side (handlers.go): the parameters of a scrape request, the status of the ring with a
  link to every member, and the groups of links of the index page. The pages themselves
  are in StatusPages, the routes in MainConfig.
\<close>

section \<open>Sorting a slice\<close>

text \<open>\<open>sort.Slice\<close> promises a sorted permutation, not a stable one.\<close>

definition slice_sorted :: "('a \<Rightarrow> 'a \<Rightarrow> bool) \<Rightarrow> 'a list \<Rightarrow> 'a list \<Rightarrow> bool" where
  "slice_sorted lt xs ys \<longleftrightarrow> mset ys = mset xs \<and> sorted_wrt (\<lambda>a b. \<not> lt b a) ys"

text \<open>When the order compares a key, the result is sorted by it, and determined if keys are distinct.\<close>

locale slice_order =
  fixes lt :: "'a \<Rightarrow> 'a \<Rightarrow> bool" and key :: "'a \<Rightarrow> 'k :: linorder"
  assumes lt_key: "lt a b \<longleftrightarrow> key a < key b"
begin

lemma sorted_keys: "slice_sorted lt xs ys \<Longrightarrow> sorted (map key ys)"
  by (simp add: slice_sorted_def lt_key sorted_map not_less)

lemma sort_key_sorted: "slice_sorted lt xs (sort_key key xs)"
  using sorted_sort_key [of key xs] by (simp add: slice_sorted_def lt_key sorted_map not_less)

lemma determined:
  assumes "slice_sorted lt xs ys" "distinct (map key xs)"
  shows "ys = sort_key key xs"
proof -
  have "mset ys = mset (sort_key key xs)" using assms(1) by (simp add: slice_sorted_def)
  then have "set ys = set (sort_key key xs)" by (rule mset_eq_setD)
  moreover have "mset (map key ys) = mset (map key xs)" using assms(1) by (simp add: slice_sorted_def)
  then have "distinct (map key ys)" using assms(2) by (metis mset_eq_imp_distinct_iff)
  moreover have "inj_on key (set ys \<union> set (sort_key key xs))"
    using assms(2) calculation(1) by (simp add: distinct_map)
  ultimately show ?thesis
    using sorted_keys [OF assms(1)] assms(2)
    by (intro map_sorted_distinct_set_unique [of key]) (simp_all add: distinct_map)
qed

end

section \<open>Links to the members\<close>

definition index_byte :: "string \<Rightarrow> char \<Rightarrow> nat option" where
  "index_byte s c = (let n = length (takeWhile (\<lambda>x. x \<noteq> c) s) in if n < length s then Some n else None)"

definition last_index_byte :: "string \<Rightarrow> char \<Rightarrow> nat option" where
  "last_index_byte s c = map_option (\<lambda>n. length s - 1 - n) (index_byte (rev s) c)"

text \<open>\<open>net.SplitHostPort\<close> (None is an error) and \<open>net.JoinHostPort\<close>.\<close>

definition SplitHostPort :: "string \<Rightarrow> (string \<times> string) option" where
  "SplitHostPort hostport =
     (let finish = (\<lambda>host j k i. if CHR ''['' \<in> set (drop j hostport) \<or> CHR '']'' \<in> set (drop k hostport)
                                 then None else Some (host, drop (i + 1) hostport))
      in case last_index_byte hostport (CHR '':'') of
           None \<Rightarrow> None
         | Some i \<Rightarrow>
             (if hostport ! 0 = CHR ''[''
              then (case index_byte hostport (CHR '']'') of
                      None \<Rightarrow> None
                    | Some end' \<Rightarrow>
                        (if end' + 1 = i then finish (take (end' - 1) (drop 1 hostport)) 1 (end' + 1) i else None))
              else (let host = take i hostport
                    in if CHR '':'' \<in> set host then None else finish host 0 0 i)))"

definition JoinHostPort :: "string \<Rightarrow> string \<Rightarrow> string" where
  "JoinHostPort host port =
     (if CHR '':'' \<in> set host then ''['' @ host @ '']:'' @ port else host @ '':'' @ port)"

text \<open>What a handler reads of a request: TLS or not, its \<open>Host\<close>, its query parameters and the timeout header.\<close>

record request =
  req_TLS :: bool
  req_Host :: string
  req_Query :: "(string \<times> string) list"
  req_Timeout :: string

definition webURLForHost :: "request \<Rightarrow> string \<Rightarrow> string" where
  "webURLForHost r host =
     (let scheme = (if req_TLS r then ''https'' else ''http'')
      in case SplitHostPort (req_Host r) of
           Some (_, port) \<Rightarrow>
             (if port \<noteq> [] then scheme @ ''://'' @ JoinHostPort host port @ ''/''
              else scheme @ ''://'' @ host @ ''/'')
         | None \<Rightarrow> scheme @ ''://'' @ host @ ''/'')"

section \<open>The status of the ring\<close>

record ringMember =
  m_ID :: string
  m_Addr :: string
  m_State :: string
  m_Leader :: bool
  m_Self :: bool
  m_URL :: string

definition zero_member :: ringMember where
  "zero_member = \<lparr>m_ID = [], m_Addr = [], m_State = [], m_Leader = False, m_Self = False, m_URL = []\<rparr>"

record ringStatus =
  rs_Enabled :: bool
  rs_Err :: string
  rs_Members :: "ringMember list"
  rs_Leader :: ringMember
  rs_HasLeader :: bool

definition zero_status :: ringStatus where
  "zero_status = \<lparr>rs_Enabled = False, rs_Err = [], rs_Members = [], rs_Leader = zero_member, rs_HasLeader = False\<rparr>"

definition member_less :: "ringMember \<Rightarrow> ringMember \<Rightarrow> bool" where
  "member_less a b \<longleftrightarrow> m_ID a < m_ID b"

definition leader_address :: "ring_client \<Rightarrow> string" where
  "leader_address view = (case ringLeader view of Inr rl \<Rightarrow> InstanceAddr rl | Inl _ \<Rightarrow> [])"

definition ring_member :: "string \<Rightarrow> string \<Rightarrow> InstanceDesc \<Rightarrow> ringMember" where
  "ring_member leaderAddr self inst =
     \<lparr>m_ID = InstanceId inst, m_Addr = InstanceAddr inst, m_State = InstanceState inst,
      m_Leader = (leaderAddr \<noteq> [] \<and> InstanceAddr inst = leaderAddr), m_Self = (InstanceAddr inst = self),
      m_URL = []\<rparr>"

text \<open>\<open>sort\<close> stands for \<open>sort.Slice\<close> with \<open>member_less\<close>.\<close>

definition ringStatusFor :: "(ringMember list \<Rightarrow> ringMember list) \<Rightarrow> ExporterRing \<Rightarrow> ringStatus" where
  "ringStatusFor sort_members r =
     (if \<not> ring_on r then zero_status
      else let leaderAddr = leader_address (ring_view r)
           in case ring_GetAllHealthy (ring_view r) ringOp of
                Inl err \<Rightarrow> zero_status\<lparr>rs_Enabled := True, rs_Err := err\<rparr>
              | Inr instances \<Rightarrow>
                  zero_status\<lparr>rs_Enabled := True,
                    rs_Members := sort_members (map (ring_member leaderAddr (self_addr r)) instances)\<rparr>)"

text \<open>The loop over the members, in order: the last leader wins.\<close>

definition link_member :: "request \<Rightarrow> ringMember \<Rightarrow> ringStatus \<Rightarrow> ringStatus" where
  "link_member r m rs =
     (let m = m\<lparr>m_URL := webURLForHost r (m_ID m)\<rparr>;
          rs = rs\<lparr>rs_Members := rs_Members rs @ [m]\<rparr>
      in if m_Leader m then rs\<lparr>rs_Leader := m, rs_HasLeader := True\<rparr> else rs)"

definition ringStatusForRequest :: "(ringMember list \<Rightarrow> ringMember list) \<Rightarrow> request \<Rightarrow> ExporterRing \<Rightarrow> ringStatus" where
  "ringStatusForRequest sort_members r ringCfg =
     (let rs = ringStatusFor sort_members ringCfg
      in fold (link_member r) (rs_Members rs) (rs\<lparr>rs_Members := []\<rparr>))"

section \<open>The index page\<close>

record IndexPageLinkGroup =
  weight :: nat
  group_Desc :: string
  group_Links :: "(string \<times> string) list"

definition metricsWeight :: nat where "metricsWeight = 0"
definition hostWeight :: nat where "hostWeight = 1"
definition hostFactWeight :: nat where "hostFactWeight = 2"
definition defaultWeight :: nat where "defaultWeight = 3"
definition ringWeight :: nat where "ringWeight = 4"
definition memberlistWeight :: nat where "memberlistWeight = 5"

definition AddLinks :: "nat \<Rightarrow> string \<Rightarrow> (string \<times> string) list \<Rightarrow> IndexPageLinkGroup list \<Rightarrow> IndexPageLinkGroup list" where
  "AddLinks w groupDesc links elements =
     elements @ [\<lparr>weight = w, group_Desc = groupDesc, group_Links = links\<rparr>]"

definition group_less :: "IndexPageLinkGroup \<Rightarrow> IndexPageLinkGroup \<Rightarrow> bool" where
  "group_less a b \<longleftrightarrow> (if weight a \<noteq> weight b then weight a < weight b else group_Desc a < group_Desc b)"

definition GetContent :: "(IndexPageLinkGroup list \<Rightarrow> IndexPageLinkGroup list) \<Rightarrow> IndexPageLinkGroup list
    \<Rightarrow> IndexPageLinkGroup list" where
  "GetContent sort_groups elements = sort_groups elements"

section \<open>Scrape requests\<close>

definition ParseBool :: "string \<Rightarrow> bool option" where
  "ParseBool s =
     (if s \<in> {''1'', ''t'', ''T'', ''TRUE'', ''true'', ''True''} then Some True
      else if s \<in> {''0'', ''f'', ''F'', ''FALSE'', ''false'', ''False''} then Some False
      else None)"

definition query_Get :: "(string \<times> string) list \<Rightarrow> string \<Rightarrow> string" where
  "query_Get q k = (case map_of q k of None \<Rightarrow> [] | Some v \<Rightarrow> v)"

text \<open>A handler answers with an error, or lets the collector with the request's settings collect.\<close>

datatype response = HttpError int string | Scrape collector

text \<open>One of the two parameters of the cache.\<close>

definition cache_parameter :: "request \<Rightarrow> string \<Rightarrow> (bool \<Rightarrow> collector \<Rightarrow> collector) \<Rightarrow> collector \<Rightarrow> response" where
  "cache_parameter r name set_field c =
     (let param = query_Get (req_Query r) name
      in if param \<noteq> []
         then (if \<not> Enabled (CacheConfig c) then HttpError 400 ''cache not enabled''
               else case ParseBool param of
                      None \<Rightarrow> HttpError 400 (name @ '' should be a boolean'')
                    | Some b \<Rightarrow> Scrape (set_field b c))
         else Scrape c)"

text \<open>\<open>ParseFloat\<close> gives the value that comes with an error, too (the code ignores the error).\<close>

definition hostHandler :: "(string \<Rightarrow> rat) \<Rightarrow> request \<Rightarrow> collector \<Rightarrow> response" where
  "hostHandler ParseFloat r c =
     (case cache_parameter r ''expired-cache'' (\<lambda>b. UseExpiredCache_update (\<lambda>_. b))
             (c\<lparr>PrometheusTimeout := ParseFloat (req_Timeout r)\<rparr>) of
        HttpError code msg \<Rightarrow> HttpError code msg
      | Scrape c \<Rightarrow> cache_parameter r ''cache'' (\<lambda>b. UseCache_update (\<lambda>_. b)) c)"

definition hostFactHandler :: "(string \<Rightarrow> rat) \<Rightarrow> request \<Rightarrow> collector \<Rightarrow> response" where
  "hostFactHandler ParseFloat r c =
     (case cache_parameter r ''expired-cache'' (\<lambda>b. UseExpiredCache_update (\<lambda>_. b))
             (c\<lparr>PrometheusTimeout := ParseFloat (req_Timeout r)\<rparr>) of
        HttpError code msg \<Rightarrow> HttpError code msg
      | Scrape c \<Rightarrow> cache_parameter r ''cache'' (\<lambda>b. UseCache_update (\<lambda>_. b)) c)"

interpretation members: slice_order member_less m_ID
  by unfold_locales (simp add: member_less_def)

interpretation groups: slice_order group_less "\<lambda>g. (weight g, group_Desc g)"
  by unfold_locales (auto simp: group_less_def less_prod_def)

section \<open>Properties of the status page\<close>

definition linked :: "request \<Rightarrow> ringMember \<Rightarrow> ringMember" where
  "linked r m = m\<lparr>m_URL := webURLForHost r (m_ID m)\<rparr>"

lemma linked_fields [simp]:
  "m_ID (linked r m) = m_ID m" "m_Addr (linked r m) = m_Addr m" "m_State (linked r m) = m_State m"
  "m_Leader (linked r m) = m_Leader m" "m_Self (linked r m) = m_Self m" "m_URL (linked r m) = webURLForHost r (m_ID m)"
  by (simp_all add: linked_def)

lemma fold_link_member:
  "rs_Members (fold (link_member r) ms rs) = rs_Members rs @ map (linked r) ms"
  "rs_HasLeader (fold (link_member r) ms rs) \<longleftrightarrow> rs_HasLeader rs \<or> (\<exists>m \<in> set ms. m_Leader m)"
  "rs_Enabled (fold (link_member r) ms rs) = rs_Enabled rs" "rs_Err (fold (link_member r) ms rs) = rs_Err rs"
  by (induction ms arbitrary: rs) (auto simp: link_member_def linked_def Let_def)

lemma fold_link_leader:
  "\<exists>m \<in> set ms. m_Leader m \<Longrightarrow> rs_Leader (fold (link_member r) ms rs) \<in> linked r ` {m \<in> set ms. m_Leader m}"
proof (induction ms rule: rev_induct)
  case (snoc m ms)
  then show ?case by (cases "m_Leader m") (auto simp: link_member_def linked_def Let_def)
qed simp

lemma image_eq_ex: "a \<in> f ` S \<longleftrightarrow> (\<exists>i \<in> S. f i = a)"
  by auto

lemma status_members:
  assumes "ring_on r" "ring_GetAllHealthy (ring_view r) ringOp = Inr instances"
  shows "rs_Members (ringStatusForRequest srt req r)
      = map (linked req) (srt (map (ring_member (leader_address (ring_view r)) (self_addr r)) instances))"
    and "rs_Enabled (ringStatusForRequest srt req r)" "rs_Err (ringStatusForRequest srt req r) = []"
    and "rs_HasLeader (ringStatusForRequest srt req r) \<longleftrightarrow> (\<exists>m \<in> set (rs_Members (ringStatusForRequest srt req r)). m_Leader m)"
    and "rs_HasLeader (ringStatusForRequest srt req r) \<Longrightarrow>
      rs_Leader (ringStatusForRequest srt req r) \<in> {m \<in> set (rs_Members (ringStatusForRequest srt req r)). m_Leader m}"
proof -
  let ?ms = "srt (map (ring_member (leader_address (ring_view r)) (self_addr r)) instances)"
  let ?rs = "zero_status\<lparr>rs_Enabled := True, rs_Members := []\<rparr>"
  have eq: "ringStatusForRequest srt req r = fold (link_member req) ?ms ?rs"
    using assms by (simp add: ringStatusForRequest_def ringStatusFor_def Let_def)
  show members: "rs_Members (ringStatusForRequest srt req r) = map (linked req) ?ms"
    unfolding eq fold_link_member by simp
  show "rs_Enabled (ringStatusForRequest srt req r)" "rs_Err (ringStatusForRequest srt req r) = []"
    unfolding eq fold_link_member by (simp_all add: zero_status_def)
  show has: "rs_HasLeader (ringStatusForRequest srt req r) \<longleftrightarrow> (\<exists>m \<in> set (rs_Members (ringStatusForRequest srt req r)). m_Leader m)"
    unfolding members unfolding eq fold_link_member by (simp add: zero_status_def)
  assume "rs_HasLeader (ringStatusForRequest srt req r)"
  then have "\<exists>m \<in> set ?ms. m_Leader m" unfolding has members by simp
  from fold_link_leader [OF this, of req ?rs]
  show "rs_Leader (ringStatusForRequest srt req r) \<in> {m \<in> set (rs_Members (ringStatusForRequest srt req r)). m_Leader m}"
    unfolding members unfolding eq by auto
qed

text \<open>When the ring is up and its members can be listed, the page shows each of them once, by id, with
  its link, and flags as leader exactly the member that has the address of the ring's leader; the
  leader is shown if and only if it is among them; and the instance is flagged both leader and itself
  if and only if it is listed and its own collectors take it for the leader.\<close>

theorem status_shows_the_ring:
  assumes "ring_on r" "ring_GetAllHealthy (ring_view r) ringOp = Inr instances"
    and "\<And>xs. slice_sorted member_less xs (srt xs)"
    and "ringLeader (ring_view r) = Inr rl" "InstanceAddr rl \<noteq> []"
    and "rs = ringStatusForRequest srt req r"
  shows "mset (map (\<lambda>m. (m_ID m, m_Addr m, m_State m)) (rs_Members rs))
      = mset (map (\<lambda>i. (InstanceId i, InstanceAddr i, InstanceState i)) instances)
    \<and> sorted (map m_ID (rs_Members rs))
    \<and> (\<forall>m \<in> set (rs_Members rs). m_URL m = webURLForHost req (m_ID m) \<and> (m_Leader m \<longleftrightarrow> m_Addr m = InstanceAddr rl))
    \<and> (rs_HasLeader rs \<longleftrightarrow> InstanceAddr rl \<in> InstanceAddr ` set instances)
    \<and> (rs_HasLeader rs \<longrightarrow> rs_Leader rs \<in> set (rs_Members rs) \<and> m_Addr (rs_Leader rs) = InstanceAddr rl)
    \<and> ((\<exists>m \<in> set (rs_Members rs). m_Leader m \<and> m_Self m) \<longleftrightarrow>
         isLeader r = Inr True \<and> self_addr r \<in> InstanceAddr ` set instances)"
proof -
  let ?ms = "map (ring_member (InstanceAddr rl) (self_addr r)) instances"
  have leader: "leader_address (ring_view r) = InstanceAddr rl" by (simp add: leader_address_def assms(4))
  have mem: "rs_Members rs = map (linked req) (srt ?ms)"
    using status_members(1) [OF assms(1,2), of srt req] by (simp add: assms(6) leader)
  have perm: "mset (srt ?ms) = mset ?ms" using assms(3) by (simp add: slice_sorted_def)
  then have set_ms: "set (srt ?ms) = set ?ms" by (rule mset_eq_setD)
  have "mset (map (\<lambda>m. (m_ID m, m_Addr m, m_State m)) (rs_Members rs)) = image_mset (\<lambda>m. (m_ID m, m_Addr m, m_State m)) (mset (srt ?ms))"
    by (simp add: mem image_mset.compositionality comp_def)
  then have triples: "mset (map (\<lambda>m. (m_ID m, m_Addr m, m_State m)) (rs_Members rs))
      = mset (map (\<lambda>i. (InstanceId i, InstanceAddr i, InstanceState i)) instances)"
    unfolding perm by (simp add: image_mset.compositionality comp_def ring_member_def)
  have "sorted (map m_ID (rs_Members rs))"
    using members.sorted_keys [OF assms(3), of ?ms] by (simp add: mem comp_def)
  moreover have set_rs: "set (rs_Members rs) = (\<lambda>i. linked req (ring_member (InstanceAddr rl) (self_addr r) i)) ` set instances"
    by (simp add: mem set_ms image_image)
  then have flags: "\<forall>m \<in> set (rs_Members rs). m_URL m = webURLForHost req (m_ID m) \<and> (m_Leader m \<longleftrightarrow> m_Addr m = InstanceAddr rl)"
    using assms(5) by (auto simp: ring_member_def)
  moreover have has: "rs_HasLeader rs \<longleftrightarrow> InstanceAddr rl \<in> InstanceAddr ` set instances"
  proof -
    have "rs_HasLeader rs \<longleftrightarrow> (\<exists>i \<in> set instances. InstanceAddr i = InstanceAddr rl)"
      using status_members(4) [OF assms(1,2), of srt req] assms(5) unfolding assms(6) [symmetric] set_rs
      by (simp add: ring_member_def)
    then show ?thesis unfolding image_eq_ex .
  qed
  moreover have "rs_HasLeader rs \<longrightarrow> rs_Leader rs \<in> set (rs_Members rs) \<and> m_Addr (rs_Leader rs) = InstanceAddr rl"
  proof
    assume "rs_HasLeader rs"
    then have "rs_Leader rs \<in> {m \<in> set (rs_Members rs). m_Leader m}"
      unfolding assms(6) by (rule status_members(5) [OF assms(1,2)])
    then have "rs_Leader rs \<in> set (rs_Members rs)" "m_Leader (rs_Leader rs)" by simp_all
    with flags show "rs_Leader rs \<in> set (rs_Members rs) \<and> m_Addr (rs_Leader rs) = InstanceAddr rl" by simp
  qed
  moreover have "(\<exists>m \<in> set (rs_Members rs). m_Leader m \<and> m_Self m) \<longleftrightarrow>
         isLeader r = Inr True \<and> self_addr r \<in> InstanceAddr ` set instances"
  proof -
    have "(\<exists>m \<in> set (rs_Members rs). m_Leader m \<and> m_Self m) \<longleftrightarrow>
        (\<exists>i \<in> set instances. InstanceAddr i = InstanceAddr rl \<and> InstanceAddr i = self_addr r)"
      unfolding set_rs using assms(5) by (simp add: ring_member_def)
    moreover have "isLeader r = Inr True \<longleftrightarrow> InstanceAddr rl = self_addr r" by (simp add: isLeader_def assms(4))
    ultimately show ?thesis unfolding image_eq_ex by auto
  qed
  ultimately show ?thesis using triples by (intro conjI) assumption+
qed

theorem status_shows_the_ring_witness:
  "rs_HasLeader (ringStatusForRequest (sort_key m_ID) \<lparr>req_TLS = False, req_Host = ''x:1'', req_Query = [], req_Timeout = []\<rparr>
     (example_replica ''10.0.0.2:7946''))"
proof -
  have "ring_on (example_replica ''10.0.0.2:7946'')"
    "ring_GetAllHealthy (ring_view (example_replica ''10.0.0.2:7946'')) ringOp = Inr
       [\<lparr>InstanceId = ''b'', InstanceAddr = ''10.0.0.2:7946'', InstanceState = ''ACTIVE''\<rparr>,
        \<lparr>InstanceId = ''a'', InstanceAddr = ''10.0.0.1:7946'', InstanceState = ''ACTIVE''\<rparr>]"
    "ringLeader (ring_view (example_replica ''10.0.0.2:7946''))
      = Inr \<lparr>InstanceId = ''a'', InstanceAddr = ''10.0.0.1:7946'', InstanceState = ''ACTIVE''\<rparr>"
    using example_leader by (simp_all add: example_replica_def example_view_def)
  from status_shows_the_ring [OF this(1,2) members.sort_key_sorted this(3) _ refl] show ?thesis by simp
qed

section \<open>Links and hosts\<close>

lemma index_byte_first:
  assumes "c \<notin> set s"
  shows "index_byte (s @ c # t) c = Some (length s)"
proof -
  have "takeWhile (\<lambda>x. x \<noteq> c) (s @ c # t) = s" using assms by (induction s) auto
  then show ?thesis by (simp add: index_byte_def)
qed

lemma last_index_byte_last: "c \<notin> set t \<Longrightarrow> last_index_byte (s @ c # t) c = Some (length s)"
  using index_byte_first [of c "rev t" "rev s"] by (simp add: last_index_byte_def)

text \<open>Splitting what was joined, for a host that is no address in brackets already.\<close>

lemma SplitHostPort_JoinHostPort:
  assumes "set host \<inter> {CHR ''['', CHR '']''} = {}" "set port \<inter> {CHR '':'', CHR ''['', CHR '']''} = {}"
  shows "SplitHostPort (JoinHostPort host port) = Some (host, port)"
proof (cases "CHR '':'' \<in> set host")
  case True
  let ?s = "(''['' @ host @ '']'') @ CHR '':'' # port"
  have "last_index_byte ?s (CHR '':'') = Some (length host + 2)"
    using last_index_byte_last [of "CHR '':''" port "''['' @ host @ '']''"] assms(2) by simp
  moreover have "index_byte ?s (CHR '']'') = Some (length host + 1)"
    using index_byte_first [of "CHR '']''" "''['' @ host" "'':'' @ port"] assms(1) by simp
  moreover have "JoinHostPort host port = ?s" using True by (simp add: JoinHostPort_def)
  ultimately show ?thesis using assms by (auto simp: SplitHostPort_def Let_def)
next
  case False
  have "last_index_byte (host @ CHR '':'' # port) (CHR '':'') = Some (length host)"
    using last_index_byte_last [of "CHR '':''" port host] assms(2) by simp
  moreover have "(host @ CHR '':'' # port) ! 0 \<noteq> CHR ''[''"
    using assms(1) by (cases host) auto
  moreover have "JoinHostPort host port = host @ CHR '':'' # port" using False by (simp add: JoinHostPort_def)
  ultimately show ?thesis using assms False by (auto simp: SplitHostPort_def Let_def)
qed

text \<open>A port that was split off a host holds neither a colon nor a bracket.\<close>

lemma SplitHostPort_no_bracket:
  assumes "SplitHostPort s = Some (h, port)"
  shows "set port \<inter> {CHR '':'', CHR ''['', CHR '']''} = {}"
proof -
  obtain i where i: "last_index_byte s (CHR '':'') = Some i" "port = drop (i + 1) s"
    using assms by (auto simp: SplitHostPort_def Let_def split: option.splits if_splits)
  then have "i = length s - 1 - length (takeWhile (\<lambda>x. x \<noteq> CHR '':'') (rev s))"
      "length (takeWhile (\<lambda>x. x \<noteq> CHR '':'') (rev s)) < length s"
    by (auto simp: last_index_byte_def index_byte_def Let_def split: if_splits)
  then have "drop (i + 1) s = rev (takeWhile (\<lambda>x. x \<noteq> CHR '':'') (rev s))"
    by (metis (no_types, lifting) One_nat_def Suc_diff_Suc Suc_eq_plus1 diff_Suc_eq_diff_pred length_rev rev_rev_ident takeWhile_eq_take take_rev)
  then have "CHR '':'' \<notin> set port" using i(2) by (auto dest: set_takeWhileD)
  moreover
  let ?P = "\<lambda>j k. j \<le> i + 1 \<and> k \<le> i + 1 \<and> CHR ''['' \<notin> set (drop j s) \<and> CHR '']'' \<notin> set (drop k s)"
  have "?P 1 i \<or> ?P 0 0"
    using assms i(1) by (cases "s ! 0 = CHR ''[''") (auto simp: SplitHostPort_def Let_def split: option.splits if_splits)
  then obtain j k where "j \<le> i + 1" "k \<le> i + 1" "CHR ''['' \<notin> set (drop j s)" "CHR '']'' \<notin> set (drop k s)"
    by blast
  then have "CHR ''['' \<notin> set port" "CHR '']'' \<notin> set port"
    unfolding i(2) by (meson set_drop_subset_set_drop subsetD)+
  ultimately show ?thesis by simp
qed

text \<open>The link to a member leads to that member: it has the scheme of the request, and behind it, up to the
  final slash, an authority from which the member's name and the port of the request's own host are
  read back, also when the name is an IPv6 address.\<close>

theorem member_link_reads_back:
  assumes "SplitHostPort (req_Host r) = Some (h, port)" "port \<noteq> []"
    and "set host \<inter> {CHR ''['', CHR '']''} = {}"
  shows "\<exists>authority. webURLForHost r host = (if req_TLS r then ''https'' else ''http'') @ ''://'' @ authority @ ''/''
    \<and> SplitHostPort authority = Some (host, port)"
  using assms(1,2) SplitHostPort_JoinHostPort [OF assms(3) SplitHostPort_no_bracket [OF assms(1)]]
  by (intro exI [of _ "JoinHostPort host port"]) (simp add: webURLForHost_def Let_def)

theorem member_link_reads_back_witness:
  "\<exists>authority. webURLForHost \<lparr>req_TLS = True, req_Host = ''node1:11111'', req_Query = [], req_Timeout = []\<rparr> ''fe80::1''
      = ''https://'' @ authority @ ''/'' \<and> SplitHostPort authority = Some (''fe80::1'', ''11111'')"
proof -
  have "SplitHostPort ''node1:11111'' = Some (''node1'', ''11111'')"
    by (simp add: SplitHostPort_def last_index_byte_def index_byte_def)
  then show ?thesis
    using member_link_reads_back [of "\<lparr>req_TLS = True, req_Host = ''node1:11111'', req_Query = [], req_Timeout = []\<rparr>" "''node1''" "''11111''" "''fe80::1''"]
    by simp
qed

section \<open>Properties of the scrape requests\<close>

lemma hostFactHandler_eq: "hostFactHandler = hostHandler"
  by (simp add: fun_eq_iff hostFactHandler_def hostHandler_def)

text \<open>How a request changes its collector: the timeout is always taken over; either parameter of the cache
  must be a boolean and needs an enabled cache, or the request is answered 400 with the first reason;
  otherwise the collector scrapes with exactly the given parameters set and everything else as configured.\<close>

theorem hostHandler_answers:
  "hostHandler ParseFloat r c =
     (let expiredCache = query_Get (req_Query r) ''expired-cache'';
          cache = query_Get (req_Query r) ''cache'';
          c' = c\<lparr>PrometheusTimeout := ParseFloat (req_Timeout r)\<rparr>
      in if expiredCache = [] \<and> cache = [] then Scrape c'
         else if \<not> Enabled (CacheConfig c) then HttpError 400 ''cache not enabled''
         else if expiredCache \<noteq> [] \<and> ParseBool expiredCache = None then HttpError 400 ''expired-cache should be a boolean''
         else if cache \<noteq> [] \<and> ParseBool cache = None then HttpError 400 ''cache should be a boolean''
         else Scrape (c'\<lparr>UseExpiredCache := (if expiredCache = [] then UseExpiredCache c else ParseBool expiredCache = Some True),
                         UseCache := (if cache = [] then UseCache c else ParseBool cache = Some True)\<rparr>))
   \<and> hostFactHandler ParseFloat r c = hostHandler ParseFloat r c"
proof -
  have param: "cache_parameter r name set_field c =
      (if query_Get (req_Query r) name = [] then Scrape c
       else if \<not> Enabled (CacheConfig c) then HttpError 400 ''cache not enabled''
       else case ParseBool (query_Get (req_Query r) name) of None \<Rightarrow> HttpError 400 (name @ '' should be a boolean'')
          | Some b \<Rightarrow> Scrape (set_field b c))" for name set_field and c :: collector
    by (simp add: cache_parameter_def Let_def)
  show ?thesis
    unfolding hostFactHandler_eq
    by (cases "ParseBool (query_Get (req_Query r) ''expired-cache'')"; cases "ParseBool (query_Get (req_Query r) ''cache'')")
      (simp_all add: hostHandler_def param Let_def)
qed

text \<open>C28: A request with cache=false makes a follower skip the leader check: it scrapes and exports every host,
  as the leader does, and, with the ring's cache enabled, it also writes the shared entry, which
  replaces the leader's on every replica whose entry is older.\<close>

theorem bypassing_follower_writes:
  assumes "isLeader r = Inr False" "ring_enabled c" "Enabled (CacheConfig c)" "hosts \<noteq> []"
    and "query_Get (req_Query req) ''cache'' = ''false''" "query_Get (req_Query req) ''expired-cache'' = []"
    and "\<forall>h \<in> set hosts. desc_ok (filter_host_labels inc exc (host_labels h))"
  shows "\<exists>c' data new. hostHandler ParseFloat req c = Scrape c'
    \<and> host_scrape c' inc exc cd (with_ring r e) (hosts, None) = (data, False, Some (KVNotify new))
    \<and> HostCollector_Collect desc_ok lk c' inc exc cd (with_ring r e) (hosts, None) Finished
        = Returns (race_samples lk Finished @ map Info data @ [ScrapeError False, ScrapeTimeout False, ExpiredCache False])
    \<and> length data = length hosts \<and> CreatedAt new = now e \<and> (\<forall>old. CreatedAt old < now e \<longrightarrow> receive new old = new)"
proof -
  let ?c = "c\<lparr>PrometheusTimeout := ParseFloat (req_Timeout req), UseCache := False\<rparr>"
  let ?data = "map (\<lambda>h. filter_host_labels inc exc (host_labels h)) hosts"
  have handled: "hostHandler ParseFloat req c = Scrape ?c"
    using assms(3,5,6) by (simp add: hostHandler_def cache_parameter_def ParseBool_def)
  obtain new where upd: "update_cache hostsKey ?c cd (with_ring r e) ?data = KVNotify new" "CreatedAt new = now e"
    using assms(2) by (simp add: update_cache_def updateKV_def Let_def with_ring_def)
  then have scrape: "host_scrape ?c inc exc cd (with_ring r e) (hosts, None) = (?data, False, Some (KVNotify new))"
    using assms(3,4) by (simp add: host_scrape_def)
  have "read_cache hostsKey ?c cd (with_ring r e) = Inr (False, False, [])" by (simp add: read_cache_def)
  then have "HostCollector_Collect desc_ok lk ?c inc exc cd (with_ring r e) (hosts, None) Finished
      = emit desc_ok (race_samples lk Finished @ respond ?c (race_data [] ?data Finished) (race_error False Finished))"
    unfolding HostCollector_Collect_def scrape by (intro collect_scrape [of _ _ _ _ False False]) simp_all
  also have "respond ?c (race_data [] ?data Finished) (race_error False Finished)
      = map Info ?data @ [ScrapeError False, ScrapeTimeout False, ExpiredCache False]"
    using assms(3,4) by (simp add: race_data_def race_error_def respond_cases)
  also have "emit desc_ok (race_samples lk Finished @ \<dots>) = Returns (race_samples lk Finished @ \<dots>)"
    unfolding emit_Returns using assms(7) by auto
  finally show ?thesis
    using handled scrape upd(2) by (intro exI [of _ ?c] exI [of _ ?data] exI [of _ new]) (simp add: receive_eq)
qed

theorem bypassing_follower_writes_witness:
  "\<exists>new. receive new \<lparr>Content = [1], CreatedAt = 7, ExpiresAt = 9, XXX_unrecognized = []\<rparr> = new \<and> CreatedAt new = 1000"
proof -
  let ?req = "\<lparr>req_TLS = False, req_Host = ''x'', req_Query = [(''cache'', ''false'')], req_Timeout = []\<rparr>"
  have "isLeader (example_replica ''10.0.0.2:7946'') = Inr False"
    by (simp add: isLeader_def example_replica_def example_leader)
  moreover have "ring_enabled (example_collector\<lparr>ring_enabled := True\<rparr>)" "Enabled (CacheConfig (example_collector\<lparr>ring_enabled := True\<rparr>))"
    by (simp_all add: example_collector_def)
  moreover have "query_Get (req_Query ?req) ''cache'' = ''false''" "query_Get (req_Query ?req) ''expired-cache'' = []"
    by (simp_all add: query_Get_def)
  ultimately obtain new where "CreatedAt new = now example_env"
      "\<forall>old. CreatedAt old < now example_env \<longrightarrow> receive new old = new"
    using bypassing_follower_writes [of "example_replica ''10.0.0.2:7946''" "example_collector\<lparr>ring_enabled := True\<rparr>"
        "[zero_Host]" ?req "\<lambda>_. True" None None "\<lambda>_. 0" example_codec example_env True] by auto
  moreover have "now example_env = 1000" by (simp add: example_env_def)
  ultimately show ?thesis by (intro exI [of _ new]) simp
qed

end
