(* ===== verification/StatusPages.thy ===== *)
theory StatusPages
  imports ForemanHttp Handlers
begin

text \<open>
  The index page and the status page (handlers.go): what is captured when the handlers are built,
  what a request adds to it, and the JSON of the status with the fields it leaves out when they are
  empty. The HTML template is a parameter; the JSON is a value, its text is not modelled.
\<close>

section \<open>Contents\<close>

text \<open>A collector's entry: its name, whether it caches, the time to live as it is printed, and compression.\<close>

record collectorInfo =
  info_Name :: string
  info_CacheEnabled :: bool
  info_TTL :: string
  info_Compression :: bool

record pageStatic =
  page_Version :: string
  page_Revision :: string
  page_ForemanURL :: string
  page_Collectors :: "collectorInfo list"

record indexPageContents =
  contents_LinkGroups :: "IndexPageLinkGroup list"
  contents_static :: pageStatic
  contents_Ring :: ringStatus

text \<open>
  \<open>execute\<close> is the template: what it wrote, and its error. \<open>http.Error\<close> sets the status only
  when nothing has been written yet.
\<close>

definition indexHandler :: "(indexPageContents \<Rightarrow> string \<times> string option)
    \<Rightarrow> (IndexPageLinkGroup list \<Rightarrow> IndexPageLinkGroup list) \<Rightarrow> (ringMember list \<Rightarrow> ringMember list)
    \<Rightarrow> IndexPageLinkGroup list \<Rightarrow> pageStatic \<Rightarrow> ExporterRing \<Rightarrow> request \<Rightarrow> int \<times> string" where
  "indexHandler execute sort_groups sort_members content static ringCfg r =
     (case execute \<lparr>contents_LinkGroups = GetContent sort_groups content, contents_static = static,
                    contents_Ring = ringStatusForRequest sort_members r ringCfg\<rparr> of
        (written, None) \<Rightarrow> (200, written)
      | (written, Some err) \<Rightarrow> (if written = [] then 500 else 200, written @ err @ [char_of (10 :: nat)]))"

section \<open>The status as JSON\<close>

text \<open>A field with \<open>omitempty\<close>.\<close>

definition omitempty :: "string \<Rightarrow> string \<Rightarrow> (string \<times> json) list" where
  "omitempty k s = (if s = [] then [] else [(k, JStr s)])"

definition member_json :: "ringMember \<Rightarrow> json" where
  "member_json m =
     JObj ([(''id'', JStr (m_ID m)), (''addr'', JStr (m_Addr m)), (''state'', JStr (m_State m)),
            (''leader'', JBool (m_Leader m)), (''self'', JBool (m_Self m))] @ omitempty ''url'' (m_URL m))"

text \<open>The leader is not written on its own.\<close>

definition ring_json :: "ringStatus \<Rightarrow> json" where
  "ring_json rs =
     JObj ([(''enabled'', JBool (rs_Enabled rs))] @ omitempty ''error'' (rs_Err rs)
           @ (if rs_Members rs = [] then [] else [(''members'', JArr (map member_json (rs_Members rs)))]))"

definition info_json :: "collectorInfo \<Rightarrow> json" where
  "info_json i =
     JObj ([(''name'', JStr (info_Name i)), (''cache_enabled'', JBool (info_CacheEnabled i))]
           @ omitempty ''ttl'' (info_TTL i) @ [(''compression'', JBool (info_Compression i))])"

text \<open>A nil slice is written as null.\<close>

definition collectors_json :: "collectorInfo list \<Rightarrow> json" where
  "collectors_json is = (if is = [] then JNull else JArr (map info_json is))"

definition status_json :: "pageStatic \<Rightarrow> ringStatus \<Rightarrow> json" where
  "status_json static rs =
     JObj [(''version'', JStr (page_Version static)), (''revision'', JStr (page_Revision static)),
           (''foreman_url'', JStr (page_ForemanURL static)),
           (''collectors'', collectors_json (page_Collectors static)),
           (''ring'', ring_json rs)]"

definition statusHandler :: "(ringMember list \<Rightarrow> ringMember list) \<Rightarrow> pageStatic \<Rightarrow> ExporterRing \<Rightarrow> request \<Rightarrow> string \<times> json" where
  "statusHandler sort_members static ringCfg r =
     (''application/json'', status_json static (ringStatusForRequest sort_members r ringCfg))"

section \<open>Reading the status\<close>

text \<open>What \<open>json.Unmarshal\<close> makes of the status, for a program that reads it into the same types.\<close>

fun json_bool :: "bool \<Rightarrow> json \<Rightarrow> bool option" where
  "json_bool old JNull = Some old"
| "json_bool old (JBool b) = Some b"
| "json_bool old _ = None"

fun json_list :: "(json \<Rightarrow> 'a option) \<Rightarrow> json \<Rightarrow> 'a list option" where
  "json_list elem JNull = Some []"
| "json_list elem (JArr js) = those (map elem js)"
| "json_list elem _ = None"

definition set_member_field :: "string \<Rightarrow> json \<Rightarrow> ringMember \<Rightarrow> ringMember option" where
  "set_member_field k j m =
     (if k = ''id'' then map_option (\<lambda>x. m\<lparr>m_ID := x\<rparr>) (json_string (m_ID m) j)
      else if k = ''addr'' then map_option (\<lambda>x. m\<lparr>m_Addr := x\<rparr>) (json_string (m_Addr m) j)
      else if k = ''state'' then map_option (\<lambda>x. m\<lparr>m_State := x\<rparr>) (json_string (m_State m) j)
      else if k = ''leader'' then map_option (\<lambda>x. m\<lparr>m_Leader := x\<rparr>) (json_bool (m_Leader m) j)
      else if k = ''self'' then map_option (\<lambda>x. m\<lparr>m_Self := x\<rparr>) (json_bool (m_Self m) j)
      else if k = ''url'' then map_option (\<lambda>x. m\<lparr>m_URL := x\<rparr>) (json_string (m_URL m) j)
      else Some m)"

definition set_ring_field :: "string \<Rightarrow> json \<Rightarrow> ringStatus \<Rightarrow> ringStatus option" where
  "set_ring_field k j rs =
     (if k = ''enabled'' then map_option (\<lambda>x. rs\<lparr>rs_Enabled := x\<rparr>) (json_bool (rs_Enabled rs) j)
      else if k = ''error'' then map_option (\<lambda>x. rs\<lparr>rs_Err := x\<rparr>) (json_string (rs_Err rs) j)
      else if k = ''members''
      then map_option (\<lambda>x. rs\<lparr>rs_Members := x\<rparr>) (json_list (json_struct set_member_field zero_member) j)
      else Some rs)"

definition zero_info :: collectorInfo where
  "zero_info = \<lparr>info_Name = [], info_CacheEnabled = False, info_TTL = [], info_Compression = False\<rparr>"

definition set_info_field :: "string \<Rightarrow> json \<Rightarrow> collectorInfo \<Rightarrow> collectorInfo option" where
  "set_info_field k j i =
     (if k = ''name'' then map_option (\<lambda>x. i\<lparr>info_Name := x\<rparr>) (json_string (info_Name i) j)
      else if k = ''cache_enabled'' then map_option (\<lambda>x. i\<lparr>info_CacheEnabled := x\<rparr>) (json_bool (info_CacheEnabled i) j)
      else if k = ''ttl'' then map_option (\<lambda>x. i\<lparr>info_TTL := x\<rparr>) (json_string (info_TTL i) j)
      else if k = ''compression'' then map_option (\<lambda>x. i\<lparr>info_Compression := x\<rparr>) (json_bool (info_Compression i) j)
      else Some i)"

definition set_status_field :: "string \<Rightarrow> json \<Rightarrow> pageStatic \<times> ringStatus \<Rightarrow> (pageStatic \<times> ringStatus) option" where
  "set_status_field k j st =
     (case st of (p, rs) \<Rightarrow>
        if k = ''version'' then map_option (\<lambda>x. (p\<lparr>page_Version := x\<rparr>, rs)) (json_string (page_Version p) j)
        else if k = ''revision'' then map_option (\<lambda>x. (p\<lparr>page_Revision := x\<rparr>, rs)) (json_string (page_Revision p) j)
        else if k = ''foreman_url'' then map_option (\<lambda>x. (p\<lparr>page_ForemanURL := x\<rparr>, rs)) (json_string (page_ForemanURL p) j)
        else if k = ''collectors''
        then map_option (\<lambda>x. (p\<lparr>page_Collectors := x\<rparr>, rs)) (json_list (json_struct set_info_field zero_info) j)
        else if k = ''ring'' then map_option (\<lambda>x. (p, x)) (json_struct set_ring_field rs j)
        else Some st)"

definition zero_static :: pageStatic where
  "zero_static = \<lparr>page_Version = [], page_Revision = [], page_ForemanURL = [], page_Collectors = []\<rparr>"

lemma those_read: "(\<And>x. f (g x) = Some x) \<Longrightarrow> those (map f (map g xs)) = Some xs"
  by (induction xs) auto

lemma lower_letters [simp]:
  "lower CHR ''a'' = CHR ''a''" "lower CHR ''b'' = CHR ''b''" "lower CHR ''c'' = CHR ''c''" "lower CHR ''d'' = CHR ''d''"
  "lower CHR ''e'' = CHR ''e''" "lower CHR ''f'' = CHR ''f''" "lower CHR ''g'' = CHR ''g''" "lower CHR ''h'' = CHR ''h''"
  "lower CHR ''i'' = CHR ''i''" "lower CHR ''j'' = CHR ''j''" "lower CHR ''k'' = CHR ''k''" "lower CHR ''l'' = CHR ''l''"
  "lower CHR ''m'' = CHR ''m''" "lower CHR ''n'' = CHR ''n''" "lower CHR ''o'' = CHR ''o''" "lower CHR ''p'' = CHR ''p''"
  "lower CHR ''q'' = CHR ''q''" "lower CHR ''r'' = CHR ''r''" "lower CHR ''s'' = CHR ''s''" "lower CHR ''t'' = CHR ''t''"
  "lower CHR ''u'' = CHR ''u''" "lower CHR ''v'' = CHR ''v''" "lower CHR ''w'' = CHR ''w''" "lower CHR ''x'' = CHR ''x''"
  "lower CHR ''y'' = CHR ''y''" "lower CHR ''z'' = CHR ''z''" "lower CHR ''_'' = CHR ''_''"
  by code_simp+

lemma member_read: "json_struct set_member_field zero_member (member_json m) = Some m"
  by (cases m) (auto simp: member_json_def set_member_field_def omitempty_def zero_member_def)

lemma info_read: "json_struct set_info_field zero_info (info_json i) = Some i"
  by (cases i) (auto simp: info_json_def set_info_field_def omitempty_def zero_info_def)

lemma members_read: "json_list (json_struct set_member_field zero_member) (JArr (map member_json ms)) = Some ms"
  unfolding json_list.simps by (rule those_read) (rule member_read)

lemma infos_read: "json_list (json_struct set_info_field zero_info) (JArr (map info_json is)) = Some is"
  unfolding json_list.simps by (rule those_read) (rule info_read)

lemma ring_read:
  "json_struct set_ring_field zero_status (ring_json rs)
    = Some (rs\<lparr>rs_Leader := zero_member, rs_HasLeader := False\<rparr>)"
  by (cases rs) (auto simp: ring_json_def set_ring_field_def omitempty_def zero_status_def members_read simp del: json_list.simps)

section \<open>Reading it back\<close>

lemma status_has_leader:
  "rs_HasLeader (ringStatusForRequest srt r ringCfg) \<longleftrightarrow> (\<exists>m \<in> set (rs_Members (ringStatusForRequest srt r ringCfg)). m_Leader m)"
proof -
  have "\<not> rs_HasLeader (ringStatusFor srt ringCfg)"
    by (simp add: ringStatusFor_def Let_def zero_status_def split: sum.split)
  then show ?thesis by (simp add: ringStatusForRequest_def Let_def fold_link_member)
qed

lemma collectors_read:
  "json_list (json_struct set_info_field zero_info) (collectors_json is) = Some is"
  by (cases "is = []") (simp_all add: collectors_json_def infos_read del: json_list.simps(2))

text \<open>C39: What the status page serves can be read back in full: a program that decodes the JSON into the same types
  gets the version, every collector's settings, and the ring with all its members and their links, just
  as the index page shows them, although empty fields are left out; the leader, which is not written on its own,
  is the member that is flagged, and is shown on the index page if and only if one is.\<close>

theorem status_reads_back:
  "json_struct set_status_field (zero_static, zero_status) (snd (statusHandler srt static ringCfg r))
      = Some (static, ringStatusForRequest srt r ringCfg\<lparr>rs_Leader := zero_member, rs_HasLeader := False\<rparr>)
    \<and> (rs_HasLeader (ringStatusForRequest srt r ringCfg)
        \<longleftrightarrow> (\<exists>m \<in> set (rs_Members (ringStatusForRequest srt r ringCfg)). m_Leader m))"
proof (rule conjI)
  show "json_struct set_status_field (zero_static, zero_status) (snd (statusHandler srt static ringCfg r))
      = Some (static, ringStatusForRequest srt r ringCfg\<lparr>rs_Leader := zero_member, rs_HasLeader := False\<rparr>)"
    unfolding statusHandler_def status_json_def snd_conv json_struct.simps
    by (cases static) (simp add: set_status_field_def zero_static_def ring_read collectors_read del: json_list.simps if_split)
qed (rule status_has_leader)

end
