(* ===== verification/MainConfig.thy ===== *)
theory MainConfig
  imports Metrics StatusPages GoFloat
begin

text \<open>
  The process's set-up (main.go): what the flags make of the ring, the client, the collectors and
  the index page, up to the HTTP server. The values of the flags are the record \<open>flags\<close>; a
  Duration is in nanoseconds. The start is the sequence of \<open>main\<close>'s statements that can end it; logging
  and the server itself are not modelled.
\<close>

section \<open>Small helpers\<close>

definition splitCommaList :: "string list \<Rightarrow> string list" where
  "splitCommaList xs =
     filter (\<lambda>part. part \<noteq> []) (map strings_TrimSpace (concat (map (\<lambda>v. strings_Split v (CHR '','')) xs)))"

definition formatFilePath :: "string \<Rightarrow> string" where
  "formatFilePath path = (let arr = strings_Split path (CHR ''/'') in arr ! (length arr - 1))"

text \<open>\<open>Duration.Seconds\<close>, and the conversion back, which truncates.\<close>

definition go_quot :: "int \<Rightarrow> int \<Rightarrow> int" where
  "go_quot a b = sgn a * (\<bar>a\<bar> div b)"

definition go_rem :: "int \<Rightarrow> int \<Rightarrow> int" where
  "go_rem a b = a - go_quot a b * b"

definition Seconds :: "int \<Rightarrow> rat" where
  "Seconds d = f64 (f64 (of_int (go_quot d second)) + f64 (of_int (go_rem d second) / 1000000000))"

definition go_trunc :: "rat \<Rightarrow> int" where
  "go_trunc x = (if 0 \<le> x then \<lfloor>x\<rfloor> else \<lceil>x\<rceil>)"

section \<open>The flags\<close>

record flags =
  metricsPath :: string
  prefixPath :: string
  skipTLSVerify :: bool
  concurrency :: int
  maxConnsPerHost :: int
  retryMax :: int
  retryMaxWait :: int
  rateLimit :: rat
  rateLimitBurst :: int
  host_limit :: int
  host_search :: string
  timeoutOffset :: int
  collectorsEnabled :: "string list"
  collectorHostTimeout :: int
  collectorHostCacheEnabled :: bool
  collectorHostCacheCompressionEnabled :: bool
  collectorHostCacheExpiresTTL :: int
  collectorHostFactSearch :: string
  collectorHostFactIncludeRegex :: regex
  collectorHostFactExcludeRegex :: regex
  collectorHostFactTimeout :: int
  collectorHostFactCacheEnabled :: bool
  collectorHostFactCacheCompressionEnabled :: bool
  collectorHostFactCacheExpiresTTL :: int
  collectorHostFactCacheUpdateOnPartial :: bool
  collectorHostFactBulk :: bool
  collectorHostFactBatchSize :: int
  collectorHostFactPerPage :: int
  collectorHostFactMaxPages :: int
  collectorHostFactNames :: "string list"
  collectorHostFactInOperator :: string
  collectorHostFactListPerPage :: int
  collectorHostFactMaxURLLength :: int
  cacheEnabled :: bool
  cacheExpiresTTL :: int
  cacheCompressionEnabled :: bool
  ringEnabled :: bool
  ringInstanceID :: string
  ringInstanceAddr :: string
  ringInstancePort :: int
  ringInstanceInterfaceNames :: string
  ringJoinMembers :: string
  ringHeartbeatPeriod :: int
  ringHeartbeatTimeout :: int
  ringKeepInstanceInRingOnShutdown :: bool

text \<open>The flags' defaults.\<close>

definition default_flags :: flags where
  "default_flags = \<lparr>metricsPath = ''/metrics'', prefixPath = [], skipTLSVerify = False, concurrency = 4, maxConnsPerHost = 0, retryMax = 3, retryMaxWait = 60 * second, rateLimit = 0,
     rateLimitBurst = 0, host_limit = 0, host_search = [], timeoutOffset = 500000000, collectorsEnabled = [''host''],
     collectorHostTimeout = 30 * second, collectorHostCacheEnabled = False, collectorHostCacheCompressionEnabled = False,
     collectorHostCacheExpiresTTL = 0, collectorHostFactSearch = [], collectorHostFactIncludeRegex = None,
     collectorHostFactExcludeRegex = None, collectorHostFactTimeout = 30 * second, collectorHostFactCacheEnabled = False,
     collectorHostFactCacheCompressionEnabled = False, collectorHostFactCacheExpiresTTL = 0,
     collectorHostFactCacheUpdateOnPartial = False, collectorHostFactBulk = True, collectorHostFactBatchSize = 20,
     collectorHostFactPerPage = 10000, collectorHostFactMaxPages = 10, collectorHostFactNames = [],
     collectorHostFactInOperator = ''^'', collectorHostFactListPerPage = 5000, collectorHostFactMaxURLLength = 6000,
     cacheEnabled = False, cacheExpiresTTL = 3600 * second, cacheCompressionEnabled = False, ringEnabled = False,
     ringInstanceID = [], ringInstanceAddr = [], ringInstancePort = 7946, ringInstanceInterfaceNames = [],
     ringJoinMembers = [], ringHeartbeatPeriod = 15 * second, ringHeartbeatTimeout = 30 * second,
     ringKeepInstanceInRingOnShutdown = True\<rparr>"

text \<open>The gossip's own flags, less those that the exporter's ring flags cover.\<close>

definition mlSkip :: "string list" where
  "mlSkip = [''ring.memberlist.join'', ''ring.memberlist.nodename'', ''ring.memberlist.bind-addr'',
             ''ring.memberlist.bind-port'']"

definition bridged_flags :: "string list \<Rightarrow> string list" where
  "bridged_flags names = filter (\<lambda>n. \<not> List.member mlSkip n) names"

section \<open>The collectors\<close>

text \<open>The settings of one collector's cache, from the global flags and its own; the TTL that is shown.\<close>

definition resolve_cache :: "bool \<Rightarrow> bool \<Rightarrow> int \<Rightarrow> bool \<Rightarrow> bool \<Rightarrow> int \<Rightarrow> cacheConfig \<times> int" where
  "resolve_cache global_on global_compression global_ttl own_on own_compression own_ttl =
     (let collectorCacheEnabled = (if global_on then True else own_on);
          collectorCacheCompression = (if global_compression then True else own_compression);
          collectorCacheExpiresTTL = (if Seconds own_ttl = 0 then global_ttl else own_ttl)
      in (\<lparr>Enabled = collectorCacheEnabled, Compression = collectorCacheCompression,
           ExpiresTTL = i64 (go_trunc (Seconds collectorCacheExpiresTTL) * second)\<rparr>,
          collectorCacheExpiresTTL))"

definition fact_cache_config :: "flags \<Rightarrow> cacheConfig \<times> int" where
  "fact_cache_config fl =
     resolve_cache (cacheEnabled fl) (cacheCompressionEnabled fl) (cacheExpiresTTL fl)
       (collectorHostFactCacheEnabled fl) (collectorHostFactCacheCompressionEnabled fl) (collectorHostFactCacheExpiresTTL fl)"

definition host_cache_config :: "flags \<Rightarrow> cacheConfig \<times> int" where
  "host_cache_config fl =
     resolve_cache (cacheEnabled fl) (cacheCompressionEnabled fl) (cacheExpiresTTL fl)
       (collectorHostCacheEnabled fl) (collectorHostCacheCompressionEnabled fl) (collectorHostCacheExpiresTTL fl)"

definition fact_collector :: "flags \<Rightarrow> bool \<Rightarrow> collector" where
  "fact_collector fl ring =
     \<lparr>CacheConfig = fst (fact_cache_config fl), ring_enabled = ring, Timeout = Seconds (collectorHostFactTimeout fl),
      TimeoutOffset = Seconds (timeoutOffset fl), PrometheusTimeout = 0, UseCache = True, UseExpiredCache = False,
      CacheOnPartial = collectorHostFactCacheUpdateOnPartial fl\<rparr>"

definition host_collector :: "flags \<Rightarrow> bool \<Rightarrow> collector" where
  "host_collector fl ring =
     \<lparr>CacheConfig = fst (host_cache_config fl), ring_enabled = ring, Timeout = Seconds (collectorHostTimeout fl),
      TimeoutOffset = Seconds (timeoutOffset fl), PrometheusTimeout = 0, UseCache = True, UseExpiredCache = False,
      CacheOnPartial = False\<rparr>"

definition collector_info :: "string \<Rightarrow> cacheConfig \<times> int \<Rightarrow> collectorInfo" where
  "collector_info name cfg =
     \<lparr>info_Name = name, info_CacheEnabled = Enabled (fst cfg), info_TTL = Duration_String (snd cfg),
      info_Compression = Compression (fst cfg)\<rparr>"

section \<open>The client\<close>

definition client_config :: "string \<Rightarrow> string \<Rightarrow> string \<Rightarrow> flags \<Rightarrow> ClientConfig" where
  "client_config url user password fl =
     \<lparr>cfg_BaseURL = url, cfg_Username = user, cfg_Password = password,
      cfg_SkipTLSVerify = skipTLSVerify fl, cfg_Concurrency = concurrency fl,
      cfg_MaxConnsPerHost = maxConnsPerHost fl, cfg_Limit = host_limit fl, cfg_RetryMax = retryMax fl,
      cfg_RetryMaxWait = retryMaxWait fl, cfg_RateLimit = rateLimit fl, cfg_RateLimitBurst = rateLimitBurst fl,
      cfg_Search = host_search fl, cfg_SearchHostFact = collectorHostFactSearch fl,
      cfg_IncludeHostFactRegex = collectorHostFactIncludeRegex fl,
      cfg_ExcludeHostFactRegex = collectorHostFactExcludeRegex fl, cfg_BulkFacts = collectorHostFactBulk fl,
      cfg_FactBatchSize = collectorHostFactBatchSize fl, cfg_FactPerPage = collectorHostFactPerPage fl,
      cfg_FactMaxPages = collectorHostFactMaxPages fl, cfg_FactNames = splitCommaList (collectorHostFactNames fl),
      cfg_FactInOperator = collectorHostFactInOperator fl, cfg_MaxURLLength = collectorHostFactMaxURLLength fl,
      cfg_HostListPerPage = collectorHostFactListPerPage fl\<rparr>"

section \<open>main\<close>

record exporter =
  ex_ring :: bool
  ex_localCache :: "labels list MemCache option"
  ex_client :: ClientConfig
  ex_fact :: "collector option"
  ex_host :: "collector option"
  ex_info :: "collectorInfo list"
  ex_index :: "IndexPageLinkGroup list"

definition index_groups :: "bool \<Rightarrow> bool \<Rightarrow> bool \<Rightarrow> IndexPageLinkGroup list" where
  "index_groups ring facts_on hosts_on =
     (let page = AddLinks metricsWeight ''Metrics'' [(''exporter & foreman client metrics'', ''/metrics'')] [];
          page = AddLinks defaultWeight ''Status'' [(''status as JSON'', ''/status'')] page;
          page = (if ring then AddLinks ringWeight ''Cluster'' [(''ring members & token distribution'', ''/ring''),
                    (''gossip KV store status'', ''/memberlist'')] page else page);
          page = (if facts_on then AddLinks hostFactWeight ''Host facts'' [(''scrape host facts'', ''/host-facts-metrics'')] page
                  else page)
      in if hosts_on then AddLinks hostWeight ''Host'' [(''scrape host metrics'', ''/host-metrics'')] page else page)"

definition localCache_for :: "flags \<Rightarrow> labels list MemCache option" where
  "localCache_for fl =
     (if ringEnabled fl then None
      else if cacheEnabled fl \<or> collectorHostFactCacheEnabled fl \<or> collectorHostCacheEnabled fl then Some NewLocalCache
      else None)"

text \<open>The exit code, or the exporter that is served.\<close>

definition main_setup :: "'a ring_services \<Rightarrow> 'a KVConfig_scheme \<Rightarrow> string \<Rightarrow> string \<Rightarrow> string \<Rightarrow> flags \<Rightarrow> int + exporter" where
  "main_setup sv ringMemberlistKV url user password fl =
     (let lifecyclerCfg = \<lparr>HeartbeatPeriod = ringHeartbeatPeriod fl, HeartbeatTimeout = ringHeartbeatTimeout fl,
                           KeepInstanceInTheRingOnShutdown = ringKeepInstanceInRingOnShutdown fl\<rparr>;
          ring = (if ringEnabled fl
                  then case newRing sv (ringInstanceID fl) (ringInstanceAddr fl) (ringJoinMembers fl)
                              (ringInstanceInterfaceNames fl) (ringInstancePort fl) ringMemberlistKV lifecyclerCfg of
                         ExitProcess n \<Rightarrow> Inl n
                       | SetupFailed _ \<Rightarrow> Inl 1
                       | RingUp _ _ _ \<Rightarrow> Inr True
                  else Inr False)
      in case ring of
           Inl code \<Rightarrow> Inl code
         | Inr on \<Rightarrow>
             (let facts_on = List.member (collectorsEnabled fl) ''hostfact'';
                  hosts_on = List.member (collectorsEnabled fl) ''host''
              in Inr \<lparr>ex_ring = on, ex_localCache = localCache_for fl,
                      ex_client = client_config url user password fl,
                      ex_fact = (if facts_on then Some (fact_collector fl on) else None),
                      ex_host = (if hosts_on then Some (host_collector fl on) else None),
                      ex_info = (if facts_on then [collector_info ''hostfact'' (fact_cache_config fl)] else [])
                             @ (if hosts_on then [collector_info ''host'' (host_cache_config fl)] else []),
                      ex_index = index_groups on facts_on hosts_on\<rparr>))"

section \<open>Lists of names\<close>

lemma last_part: "formatFilePath path = last (strings_Split path (CHR ''/''))"
  by (simp add: formatFilePath_def Let_def last_conv_nth)

text \<open>The fact names of the flag: giving the flag several times, or once with all values separated by
  commas, is the same; and every name is a non-empty piece of a value, with its space trimmed.\<close>

theorem splitCommaList_joined:
  "splitCommaList [strings_Join xs '',''] = splitCommaList xs
   \<and> (\<forall>name \<in> set (splitCommaList xs). name \<noteq> [] \<and> (\<exists>v \<in> set xs. \<exists>p \<in> set (strings_Split v (CHR '','')). name = strings_TrimSpace p))"
proof (cases "xs = []")
  case True
  then show ?thesis by (simp add: splitCommaList_def)
next
  case False
  then show ?thesis by (auto simp: splitCommaList_def strings_Split_Join)
qed

theorem splitCommaList_joined_witness:
  "splitCommaList [''a,b'', ''c''] = splitCommaList [''a,b,c'']"
  using splitCommaList_joined [of "[''a,b'', ''c'']"] by simp

section \<open>Seconds\<close>

lemma f64_0 [simp]: "f64 0 = 0"
  by (simp add: f64_def)

lemma Seconds_0 [simp]: "Seconds 0 = 0"
  by (simp add: Seconds_def go_quot_def go_rem_def)

lemma go_quot_second: "0 \<le> d \<Longrightarrow> go_quot d second = d div second \<and> go_rem d second = d mod second"
  by (cases "d = 0") (simp_all add: go_quot_def go_rem_def minus_div_mult_eq_mod)

lemma Seconds_whole:
  assumes "0 \<le> k" "k \<le> 2 ^ 53"
  shows "Seconds (k * second) = of_int k"
proof -
  have "go_quot (k * second) second = k" "go_rem (k * second) second = 0"
    using go_quot_second [of "k * second"] assms(1) by (simp_all add: second_def)
  then show ?thesis using f64_int [of k] assms by (cases "k = 0") (simp_all add: Seconds_def)
qed

text \<open>A time to live of whole seconds, up to what a Duration can hold, is kept as it is.\<close>

lemma whole_seconds_kept:
  assumes "0 \<le> k" "k * second < 2 ^ 63"
  shows "i64 (go_trunc (Seconds (k * second)) * second) = k * second"
proof -
  have "k \<le> 2 ^ 53" using assms by (simp add: second_def)
  moreover have "is_i64 (k * second)" using assms by (simp add: is_i64_def second_def)
  ultimately show ?thesis using assms(1) by (simp add: Seconds_whole go_trunc_def)
qed

section \<open>The set-up\<close>

lemma main_setup_Inr:
  assumes "main_setup sv kvc url user password fl = Inr ex"
  shows "ex_ring ex = ringEnabled fl" "ex_localCache ex = localCache_for fl"
    "ex_client ex = client_config url user password fl"
    "ex_fact ex = (if List.member (collectorsEnabled fl) ''hostfact'' then Some (fact_collector fl (ringEnabled fl)) else None)"
    "ex_host ex = (if List.member (collectorsEnabled fl) ''host'' then Some (host_collector fl (ringEnabled fl)) else None)"
    "ex_index ex = index_groups (ringEnabled fl) (List.member (collectorsEnabled fl) ''hostfact'')
       (List.member (collectorsEnabled fl) ''host'')"
  using assms by (auto simp: main_setup_def Let_def split: if_splits sum.splits ring_setup.splits)

lemma handler_keeps:
  assumes "hostHandler ParseFloat req c = Scrape c'"
  shows "CacheConfig c' = CacheConfig c" "ring_enabled c' = ring_enabled c"
  using assms by (auto simp: hostHandler_def cache_parameter_def Let_def split: if_splits option.splits response.splits)

lemma resolve_cache_Enabled [simp]: "Enabled (fst (resolve_cache g gc gt o' oc ot)) \<longleftrightarrow> g \<or> o'"
  by (simp add: resolve_cache_def Let_def)

lemma read_kv_other: "read_kv c cd (e\<lparr>local_cache := lc\<rparr>) = read_kv c cd e"
proof -
  have "kv_entry (e\<lparr>local_cache := lc\<rparr>) = kv_entry e" "now (e\<lparr>local_cache := lc\<rparr>) = now e" by simp_all
  then show ?thesis by (simp only: read_kv_def)
qed

lemma collect_same:
  assumes "read_cache key c cd e' = read_cache key c cd e" "fst s' = fst s" "fst (snd s') = fst (snd s)"
  shows "collect desc_ok lk key c cd e' s' race = collect desc_ok lk key c cd e s race"
  using assms by (cases s; cases s') (simp add: collect_def split: sum.split)

text \<open>The in-process cache is allocated whenever it is used: if the set-up left it out, no request to either
  collector looks at it (what is exported is the same whatever it might hold) and no scrape stores into it.\<close>

theorem local_cache_never_missing:
  assumes "main_setup sv kvc url user password fl = Inr ex" "ex_localCache ex = None"
    and "ex_host ex = Some c \<or> ex_fact ex = Some c" "hostHandler ParseFloat req c = Scrape c'"
  shows "HostCollector_Collect desc_ok lk c' inc exc cd (e\<lparr>local_cache := lc\<rparr>) answer race
      = HostCollector_Collect desc_ok lk c' inc exc cd e answer race
    \<and> HostFactCollector_Collect desc_ok lk c' cd (e\<lparr>local_cache := lc\<rparr>) answer' race
      = HostFactCollector_Collect desc_ok lk c' cd e answer' race
    \<and> snd (snd (host_scrape c' inc exc cd e answer)) \<noteq> Some (LocalSet key d ttl)
    \<and> snd (snd (fact_scrape c' cd e answer')) \<noteq> Some (LocalSet key d ttl)"
proof -
  have "ring_enabled c \<or> \<not> Enabled (CacheConfig c)"
    using assms(2,3) unfolding main_setup_Inr(2,4,5) [OF assms(1)]
    by (auto simp: localCache_for_def host_collector_def fact_collector_def host_cache_config_def fact_cache_config_def split: if_splits)
  then have off: "ring_enabled c' \<or> \<not> Enabled (CacheConfig c')" using handler_keeps [OF assms(4)] by simp
  then have read: "read_cache key c' cd (e\<lparr>local_cache := lc\<rparr>) = read_cache key c' cd e" for key
    by (auto simp: read_cache_def read_kv_other split: sum.split)
  have "update_cache key' c' cd e data \<noteq> LocalSet key d ttl" if "Enabled (CacheConfig c')" for key' data
    using off that by (simp add: update_cache_def updateKV_def Let_def)
  then have "snd (snd (host_scrape c' inc exc cd e answer)) \<noteq> Some (LocalSet key d ttl)"
    "snd (snd (fact_scrape c' cd e answer')) \<noteq> Some (LocalSet key d ttl)"
    by (simp_all add: host_scrape_def fact_scrape_def Let_def)
  moreover have "HostCollector_Collect desc_ok lk c' inc exc cd (e\<lparr>local_cache := lc\<rparr>) answer race
      = HostCollector_Collect desc_ok lk c' inc exc cd e answer race"
    unfolding HostCollector_Collect_def by (rule collect_same [OF read]) (simp_all add: host_scrape_def Let_def)
  moreover have "HostFactCollector_Collect desc_ok lk c' cd (e\<lparr>local_cache := lc\<rparr>) answer' race
      = HostFactCollector_Collect desc_ok lk c' cd e answer' race"
    unfolding HostFactCollector_Collect_def by (rule collect_same [OF read]) (simp_all add: fact_scrape_def Let_def)
  ultimately show ?thesis by blast
qed

definition no_parameters :: request where
  "no_parameters = \<lparr>req_TLS = False, req_Host = ''x'', req_Query = [], req_Timeout = []\<rparr>"

lemma no_parameters_handled: "hostHandler pf no_parameters c = Scrape (c\<lparr>PrometheusTimeout := pf []\<rparr>)"
  by (simp add: hostHandler_def cache_parameter_def no_parameters_def query_Get_def)

definition example_gossip :: KVConfig where
  "example_gossip = \<lparr>Codecs = [], BindPort = 1, BindAddrs = [], NodeName = [], JoinMembers = []\<rparr>"

lemma main_setup_no_ring:
  "\<not> ringEnabled fl \<Longrightarrow> List.member (collectorsEnabled fl) ''host'' \<Longrightarrow>
    \<exists>ex. main_setup sv kvc url user password fl = Inr ex \<and> ex_host ex = Some (host_collector fl False)
      \<and> ex_localCache ex = localCache_for fl"
  by (simp add: main_setup_def Let_def)

theorem local_cache_never_missing_witness:
  "HostCollector_Collect (\<lambda>_. True) True (host_collector default_flags False\<lparr>PrometheusTimeout := 0\<rparr>) None None example_codec
      (example_env\<lparr>local_cache := Set 0 hostsKey [[(''name'', ''old'')]] 2000 NewLocalCache\<rparr>) ([], None) Finished
    = HostCollector_Collect (\<lambda>_. True) True (host_collector default_flags False\<lparr>PrometheusTimeout := 0\<rparr>) None None example_codec
      example_env ([], None) Finished"
proof -
  have "\<not> ringEnabled default_flags" "List.member (collectorsEnabled default_flags) ''host''"
    by (simp_all add: default_flags_def)
  then obtain ex where ex: "main_setup example_services example_gossip [] [] [] default_flags = Inr ex"
      "ex_host ex = Some (host_collector default_flags False)" "ex_localCache ex = localCache_for default_flags"
    using main_setup_no_ring by blast
  have "ex_localCache ex = None" by (simp add: ex(3)) (simp add: localCache_for_def default_flags_def)
  from local_cache_never_missing [OF ex(1) this disjI1 [OF ex(2)] no_parameters_handled [of "\<lambda>_. 0"]] show ?thesis by simp
qed

section \<open>From the flags to the cache\<close>

lemma read_back_local:
  assumes "\<not> ring_enabled c" "Enabled (CacheConfig c)" "UseCache c"
  shows "read_cache key c cd ((apply_update (LocalSet key d ttl) e)\<lparr>now := t\<rparr>)
    = Inr (t \<le> now e + ttl, t > now e + ttl, d)"
  using assms by (auto simp: read_cache_def apply_update_def read_local_def Let_def Set_def Get_def)

lemma cached_answer:
  assumes "read_cache key c cd e = Inr (True, False, data)" "Enabled (CacheConfig c)" "\<forall>l \<in> set data. desc_ok l"
  shows "collect desc_ok lk key c cd e scrape race
    = Returns (map Info data @ [ScrapeError False, ScrapeTimeout False, ExpiredCache False])"
  using assms by (auto simp: collect_def respond_cases emit_Returns)

text \<open>C11: What --cache.enabled and --cache.ttl-expires promise, without a ring: once a scrape of the host
  collector has stored the hosts, every request without parameters is answered with them, and
  asks foreman nothing (whatever it would answer), until the flag's time to live is over, counted
  from the scrape; the collector's own flag wins over the global one.\<close>

theorem cache_serves_until_ttl:
  assumes "main_setup sv kvc url user password fl = Inr ex" "ex_host ex = Some c" "\<not> ringEnabled fl"
    and "cacheEnabled fl \<or> collectorHostCacheEnabled fl"
    and "(if collectorHostCacheExpiresTTL fl = 0 then cacheExpiresTTL fl else collectorHostCacheExpiresTTL fl) = k * second"
    and "0 < k" "k * second < 2 ^ 63"
    and "query_Get (req_Query req) ''cache'' = []" "query_Get (req_Query req) ''expired-cache'' = []"
    and "hostHandler ParseFloat req c = Scrape c'"
    and "host_scrape c' inc exc cd e (hosts, None) = (data, False, Some u)" "\<forall>l \<in> set data. desc_ok l"
    and "t \<le> now e + k * second"
  shows "HostCollector_Collect desc_ok lk c' inc exc cd ((apply_update u e)\<lparr>now := t\<rparr>) answer race
    = Returns (map Info data @ [ScrapeError False, ScrapeTimeout False, ExpiredCache False])"
proof -
  have c: "c = host_collector fl False"
    using assms(2,3) unfolding main_setup_Inr(5) [OF assms(1)] by (simp split: if_splits)
  have c': "c' = c\<lparr>PrometheusTimeout := ParseFloat (req_Timeout req)\<rparr>"
    using assms(8-10) by (simp add: hostHandler_def cache_parameter_def)
  have "Seconds (collectorHostCacheExpiresTTL fl) = 0 \<longleftrightarrow> collectorHostCacheExpiresTTL fl = 0"
  proof (cases "collectorHostCacheExpiresTTL fl = 0")
    case False
    have "k \<le> 2 ^ 53" using assms(7) by (simp add: second_def)
    then show ?thesis using False assms(5,6) Seconds_whole [of k] by simp
  qed simp
  then have "snd (host_cache_config fl) = k * second"
    "ExpiresTTL (fst (host_cache_config fl)) = i64 (go_trunc (Seconds (snd (host_cache_config fl))) * second)"
    using assms(5) by (simp_all add: host_cache_config_def resolve_cache_def Let_def)
  then have "ExpiresTTL (CacheConfig c') = k * second"
    using whole_seconds_kept [of k] assms(6,7) by (simp add: c' c host_collector_def)
  moreover have flags: "\<not> ring_enabled c'" "Enabled (CacheConfig c')" "UseCache c'"
    using assms(4) by (simp_all add: c' c host_collector_def host_cache_config_def)
  ultimately have "u = LocalSet hostsKey data (k * second)"
    using assms(11) by (auto simp: host_scrape_def update_cache_def Let_def split: if_splits)
  then have "read_cache hostsKey c' cd ((apply_update u e)\<lparr>now := t\<rparr>) = Inr (True, False, data)"
    using assms(13) by (simp add: read_back_local [OF flags])
  then show ?thesis
    unfolding HostCollector_Collect_def using flags(2) assms(12) by (rule cached_answer)
qed

theorem cache_serves_until_ttl_witness:
  "\<exists>c e. HostCollector_Collect (\<lambda>_. True) True c None None example_codec (e\<lparr>now := 1000 + 3600 * second\<rparr>) ([], Some JsonError) Finished
    = Returns [Info [(''name'', [])], ScrapeError False, ScrapeTimeout False, ExpiredCache False]"
proof -
  let ?fl = "default_flags\<lparr>cacheEnabled := True\<rparr>"
  have "\<not> ringEnabled ?fl" "List.member (collectorsEnabled ?fl) ''host''" by (simp_all add: default_flags_def)
  then obtain ex where ex: "main_setup example_services example_gossip [] [] [] ?fl = Inr ex"
      "ex_host ex = Some (host_collector ?fl False)"
    using main_setup_no_ring by blast
  let ?c = "host_collector ?fl False\<lparr>PrometheusTimeout := 0\<rparr>"
  have "filter_host_labels None None (host_labels zero_Host) = [(''name'', [])]"
    by (simp add: host_labels_def optional_labels_def filter_host_labels_def drop_label_def zero_Host_def)
  then have "\<exists>u. host_scrape ?c None None example_codec example_env ([zero_Host], None) = ([[(''name'', [])]], False, Some u)"
    by (simp add: host_scrape_def host_collector_def host_cache_config_def Let_def)
  then obtain u where scrape: "host_scrape ?c None None example_codec example_env ([zero_Host], None) = ([[(''name'', [])]], False, Some u)"
    by blast
  have fl: "\<not> ringEnabled ?fl" "cacheEnabled ?fl \<or> collectorHostCacheEnabled ?fl"
    "(if collectorHostCacheExpiresTTL ?fl = 0 then cacheExpiresTTL ?fl else collectorHostCacheExpiresTTL ?fl) = 3600 * second"
    by (simp_all add: default_flags_def)
  have q: "query_Get (req_Query no_parameters) p = []" for p by (simp add: no_parameters_def query_Get_def)
  have "now example_env = 1000" by (simp add: example_env_def)
  then show ?thesis
    using cache_serves_until_ttl [OF ex fl _ _ q q no_parameters_handled [of "\<lambda>_. 0"] scrape, of "\<lambda>_. True" "1000 + 3600 * second" True]
    by (intro exI [of _ ?c] exI [of _ "apply_update u example_env"]) (simp add: second_def)
qed

section \<open>The index page\<close>

interpretation weights: slice_order "\<lambda>a b. weight a < weight b" weight
  by unfold_locales simp

text \<open>Groups of distinct weights are sorted by their weights alone.\<close>

lemma slice_sorted_weights: "slice_sorted group_less xs ys \<Longrightarrow> slice_sorted (\<lambda>a b. weight a < weight b) xs ys"
  by (auto simp: slice_sorted_def group_less_def elim!: sorted_wrt_mono_rel [rotated] split: if_splits)

lemmas index_groups_simps = index_groups_def AddLinks_def metricsWeight_def hostWeight_def hostFactWeight_def
  defaultWeight_def ringWeight_def

lemma sorted_index:
  "distinct (map weight (index_groups r f h)) \<and> map group_Desc (sort_key weight (index_groups r f h))
    = [''Metrics''] @ (if h then [''Host''] else []) @ (if f then [''Host facts''] else []) @ [''Status'']
       @ (if r then [''Cluster''] else [])"
  by (cases r; cases f; cases h; simp add: index_groups_simps Let_def)

text \<open>The index page always lists its groups in the same order, whatever the order in which the set-up
  added them and however the sort treats equal elements: metrics, hosts, host facts, status, cluster,
  each if and only if it is there.\<close>

theorem index_page_order:
  assumes "main_setup sv kvc url user password fl = Inr ex" "\<And>xs. slice_sorted group_less xs (srt xs)"
  shows "map group_Desc (GetContent srt (ex_index ex)) = [''Metrics'']
    @ (if List.member (collectorsEnabled fl) ''host'' then [''Host''] else [])
    @ (if List.member (collectorsEnabled fl) ''hostfact'' then [''Host facts''] else [])
    @ [''Status''] @ (if ringEnabled fl then [''Cluster''] else [])"
  unfolding GetContent_def main_setup_Inr(6) [OF assms(1)]
  using weights.determined [OF slice_sorted_weights [OF assms(2)]] sorted_index by metis

theorem index_page_order_witness:
  "\<exists>ex. main_setup example_services example_gossip [] [] [] default_flags = Inr ex
    \<and> map group_Desc (GetContent (sort_key (\<lambda>g. (weight g, group_Desc g))) (ex_index ex)) = [''Metrics'', ''Host'', ''Status'']"
proof -
  have fl: "\<not> ringEnabled default_flags" "List.member (collectorsEnabled default_flags) ''host''"
    "\<not> List.member (collectorsEnabled default_flags) ''hostfact''"
    by (simp_all add: default_flags_def)
  then obtain ex where ex: "main_setup example_services example_gossip [] [] [] default_flags = Inr ex"
    using main_setup_no_ring by blast
  from index_page_order [OF ex groups.sort_key_sorted] ex fl show ?thesis by simp
qed

section \<open>Fractions of a second\<close>

lemma f64_below_one:
  assumes "0 \<le> x" "x \<le> 1 - 2 * d" "1 / 2 ^ 53 \<le> d"
  shows "0 \<le> f64 x \<and> f64 x \<le> 1 - d"
proof (cases "x = 0")
  case True
  then show ?thesis using assms by simp
next
  case False
  then have x: "0 < x" using assms(1) by simp
  have "ulp x / 2 \<le> x / 2 ^ 53" using ulp_le [OF x] by simp
  moreover have "x / 2 ^ 53 \<le> 1 / 2 ^ 53" "x / 2 ^ 53 \<le> x" using assms x by simp_all
  ultimately show ?thesis using f64_near [OF x] assms(2,3) unfolding abs_le_iff by linarith
qed

text \<open>A time to live of less than a second is none at all: what is cached with it has expired at once.\<close>

lemma subsecond_ttl_lost:
  assumes "0 \<le> ttl" "ttl < second"
  shows "i64 (go_trunc (Seconds ttl) * second) = 0"
proof -
  have quot: "go_quot ttl second = 0" "go_rem ttl second = ttl"
    using go_quot_second [OF assms(1)] assms by simp_all
  let ?x = "of_int ttl / 1000000000 :: rat"
  have "of_int ttl \<le> (of_int 999999999 :: rat)" using assms(2) unfolding of_int_le_iff by (simp add: second_def)
  then have "0 \<le> f64 ?x \<and> f64 ?x \<le> 1 - 1 / 2000000000"
    using assms(1) by (intro f64_below_one) simp_all
  then have "0 \<le> f64 (f64 ?x) \<and> f64 (f64 ?x) \<le> 1 - 1 / 4000000000"
    by (intro f64_below_one) simp_all
  then have "\<lfloor>f64 (f64 ?x)\<rfloor> = 0" by (intro floor_unique) auto
  then have "go_trunc (Seconds ttl) = 0"
    using \<open>0 \<le> f64 (f64 ?x) \<and> _\<close> by (simp add: Seconds_def quot go_trunc_def)
  then show ?thesis by (simp add: i64_def)
qed

section \<open>Routes\<close>

text \<open>What the HTTP paths lead to.\<close>

datatype handler =
    MetricsHandler
  | StaticFiles
  | RingPage
  | MemberlistPage
  | FactScrapes collector
  | HostScrapes collector
  | IndexPage "IndexPageLinkGroup list" "collectorInfo list"
  | StatusJSON "collectorInfo list"
  | LibraryPage

type_synonym routes = "(string \<times> handler) list"

text \<open>
  A pattern of \<open>ServeMux\<close> is an optional method, an optional host and a path, in which segments in braces are
  wildcards. It is a literal path when it starts with a slash and has no blank, no tab, no brace and no
  percent sign; two literal paths conflict exactly when they are equal. A pattern without a slash
  has no path and is invalid, whatever else it is. \<open>http_Handle\<close> is what \<open>http.Handle\<close> does with patterns
  of these two kinds, and only such telemetry paths are considered.
\<close>

definition literal_pattern :: "string \<Rightarrow> bool" where
  "literal_pattern p \<longleftrightarrow> p \<noteq> [] \<and> hd p = CHR ''/'' \<and> set p \<inter> {CHR '' '', CHR 0x09, CHR ''{'', CHR ''%''} = {}"

definition http_Handle :: "string \<Rightarrow> handler \<Rightarrow> routes \<Rightarrow> routes outcome" where
  "http_Handle pattern h mux =
     (if CHR ''/'' \<notin> set pattern then Panics InvalidPattern
      else if List.member (map fst mux) pattern then Panics AlreadyRegistered
      else Returns (mux @ [(pattern, h)]))"

text \<open>
  What a request for a (clean, literal) path gets: the handler of the pattern that is this path; or else, when
  the path with a slash added is a pattern, a redirect to it; or else the handler of the longest pattern
  with a slash at its end that the path starts with.
\<close>

datatype reply = Answers handler | Redirects string | NotFound

definition subtrees :: "routes \<Rightarrow> string \<Rightarrow> routes" where
  "subtrees mux p = sort_key (\<lambda>(q, _). length q) (filter (\<lambda>(q, _). q \<noteq> [] \<and> last q = CHR ''/'' \<and> take (length q) p = q) mux)"

definition ServeMux_reply :: "routes \<Rightarrow> string \<Rightarrow> reply" where
  "ServeMux_reply mux p =
     (case map_of mux p of
        Some h \<Rightarrow> Answers h
      | None \<Rightarrow>
          if (p = [] \<or> last p \<noteq> CHR ''/'') \<and> map_of mux (p @ ''/'') \<noteq> None then Redirects (p @ ''/'')
          else if subtrees mux p = [] then NotFound
          else Answers (snd (last (subtrees mux p))))"

text \<open>What a browser shows for a link: it follows a redirect.\<close>

definition link_reply :: "routes \<Rightarrow> string \<Rightarrow> reply" where
  "link_reply mux p = (case ServeMux_reply mux p of Redirects q \<Rightarrow> ServeMux_reply mux q | r \<Rightarrow> r)"

section \<open>Start-up\<close>

text \<open>The statements of \<open>main\<close> that can panic, and their effect on the default registry and the default routes.\<close>

datatype statement = Must "string list" | Try string | Handle string handler

fun run_main :: "statement list \<Rightarrow> string list \<times> routes \<Rightarrow> (string list \<times> routes) outcome" where
  "run_main [] st = Returns st"
| "run_main (Must ns # ss) (reg, mux) = bind_outcome (MustRegister ns reg) (\<lambda>reg. run_main ss (reg, mux))"
| "run_main (Try n # ss) (reg, mux) = run_main ss (Register n reg, mux)"
| "run_main (Handle p h # ss) (reg, mux) = bind_outcome (http_Handle p h mux) (\<lambda>mux. run_main ss (reg, mux))"

text \<open>Before the ring is set up (\<open>init\<close> runs before \<open>main\<close>), and after.\<close>

definition first_statements :: "flags \<Rightarrow> statement list" where
  "first_statements fl =
     [Must (map name_of init_metrics), Try ''foreman_exporter_build_info'',
      Handle (metricsPath fl) MetricsHandler, Handle ''/static/'' StaticFiles]"

definition later_statements :: "string list \<Rightarrow> exporter \<Rightarrow> statement list" where
  "later_statements libs ex =
     (if ex_ring ex
      then [Must (map (\<lambda>n. metric_prefix @ n) libs), Handle ''/ring'' RingPage, Handle ''/memberlist'' MemberlistPage,
            Must [name_of ''ringLeaderLookupErrorsMetric''], Must [nodeRoleDesc]]
      else [])
     @ (case ex_fact ex of
          Some c \<Rightarrow> [Must [name_of ''hostFactScrapeDurationMetric''], Handle ''/host-facts-metrics'' (FactScrapes c)]
        | None \<Rightarrow> [])
     @ (case ex_host ex of
          Some c \<Rightarrow> [Must [name_of ''hostScrapeDurationMetric''], Handle ''/host-metrics'' (HostScrapes c)]
        | None \<Rightarrow> [])
     @ [Handle ''/'' (IndexPage (ex_index ex) (ex_info ex)), Handle ''/status'' (StatusJSON (ex_info ex))]"

text \<open>
  The start of the process, up to the server: the exit code, or the exporter, the default registry
  and the routes. \<open>main_setup\<close> is the rest of \<open>main\<close>, which fails only where the ring is joined. \<open>reg\<close>
  and \<open>pre\<close> are the metrics and the patterns that linked libraries have registered before, \<open>libs\<close> the
  metrics that the ring's services register in \<open>newRing\<close>.
\<close>

definition main_start :: "'a ring_services \<Rightarrow> 'a KVConfig_scheme \<Rightarrow> string \<Rightarrow> string \<Rightarrow> string \<Rightarrow> string list \<Rightarrow> string list
    \<Rightarrow> string list \<Rightarrow> flags \<Rightarrow> (int + exporter \<times> string list \<times> routes) outcome" where
  "main_start sv ringMemberlistKV url user password libs reg pre fl =
     bind_outcome (run_main (first_statements fl) (reg, map (\<lambda>p. (p, LibraryPage)) pre)) (\<lambda>st.
       case main_setup sv ringMemberlistKV url user password fl of
         Inl code \<Rightarrow> Returns (Inl code)
       | Inr ex \<Rightarrow>
           bind_outcome (run_main (later_statements libs ex) st) (\<lambda>(registry, mux). Returns (Inr (ex, registry, mux))))"

text \<open>The routes that are served whatever the telemetry path is.\<close>

definition own_routes :: "exporter \<Rightarrow> routes" where
  "own_routes ex =
     [(''/static/'', StaticFiles)]
     @ (if ex_ring ex then [(''/ring'', RingPage), (''/memberlist'', MemberlistPage)] else [])
     @ (case ex_fact ex of Some c \<Rightarrow> [(''/host-facts-metrics'', FactScrapes c)] | None \<Rightarrow> [])
     @ (case ex_host ex of Some c \<Rightarrow> [(''/host-metrics'', HostScrapes c)] | None \<Rightarrow> [])
     @ [(''/'', IndexPage (ex_index ex) (ex_info ex)), (''/status'', StatusJSON (ex_info ex))]"

definition fixed_paths :: "string list" where
  "fixed_paths = [''/static/'', ''/ring'', ''/memberlist'', ''/host-facts-metrics'', ''/host-metrics'', ''/'', ''/status'']"

subsection \<open>Running the statements\<close>

fun names_in :: "statement \<Rightarrow> string list" where
  "names_in (Must ns) = ns"
| "names_in (Try n) = [n]"
| "names_in (Handle _ _) = []"

fun routes_in :: "statement \<Rightarrow> routes" where
  "routes_in (Must _) = []"
| "routes_in (Try _) = []"
| "routes_in (Handle p h) = [(p, h)]"

lemma run_main_slashed:
  assumes "distinct (reg @ concat (map names_in ss))" "\<forall>(p, h) \<in> set (concat (map routes_in ss)). CHR ''/'' \<in> set p"
    and "distinct (map fst mux)"
  shows "run_main ss (reg, mux) =
    (if distinct (map fst (mux @ concat (map routes_in ss)))
     then Returns (reg @ concat (map names_in ss), mux @ concat (map routes_in ss)) else Panics AlreadyRegistered)"
  using assms
proof (induction ss "(reg, mux)" arbitrary: reg mux rule: run_main.induct)
  case (2 ns ss reg mux)
  then have reg: "MustRegister ns reg = Returns (reg @ ns)" by (auto simp: MustRegister_Returns)
  have "distinct ((reg @ ns) @ concat (map names_in ss))" using "2.prems"(1) by auto
  with "2.hyps" [OF this] "2.prems"(2,3) show ?case by (simp add: reg)
next
  case (3 n ss reg mux)
  then have "Register n reg = reg @ [n]" by (simp add: Register_def)
  with 3 show ?case by simp
next
  case (4 p h ss reg mux)
  then have p: "CHR ''/'' \<in> set p" by simp
  show ?case
  proof (cases "p \<in> fst ` set mux")
    case True
    then show ?thesis using p by (auto simp: http_Handle_def)
  next
    case False
    then have "http_Handle p h mux = Returns (mux @ [(p, h)])" using p by (simp add: http_Handle_def)
    with 4 False show ?thesis by simp
  qed
qed simp

lemma later_parts:
  "concat (map routes_in (later_statements libs ex)) = tl (own_routes ex)"
  "concat (map names_in (later_statements libs ex)) =
     (if ex_ring ex then map (\<lambda>n. metric_prefix @ n) libs @ [name_of ''ringLeaderLookupErrorsMetric'', nodeRoleDesc] else [])
     @ (if ex_fact ex \<noteq> None then [name_of ''hostFactScrapeDurationMetric''] else [])
     @ (if ex_host ex \<noteq> None then [name_of ''hostScrapeDurationMetric''] else [])"
  by (simp_all add: later_statements_def own_routes_def split: option.split)

lemma own_paths:
  "distinct (map fst (own_routes ex))" "set (map fst (own_routes ex)) \<subseteq> set fixed_paths"
  "\<forall>(p, h) \<in> set (own_routes ex). CHR ''/'' \<in> set p" "own_routes ex = (''/static/'', StaticFiles) # tl (own_routes ex)"
  "(''/'', IndexPage (ex_index ex) (ex_info ex)) \<in> set (own_routes ex)"
  by (auto simp: own_routes_def fixed_paths_def split: option.split)

lemma start_names_split:
  "start_names (ex_ring ex) (ex_fact ex \<noteq> None) (ex_host ex \<noteq> None) libs
    = concat (map names_in (first_statements fl)) @ concat (map names_in (later_statements libs ex))"
  by (simp add: start_names_def first_statements_def later_parts)

text \<open>The condition on what the linked libraries registered.\<close>

definition libraries_ok :: "string list \<Rightarrow> string list \<Rightarrow> string list \<Rightarrow> bool" where
  "libraries_ok libs reg pre \<longleftrightarrow>
     (\<forall>n \<in> set reg. take 17 n \<noteq> metric_prefix) \<and> distinct reg \<and> distinct libs
     \<and> (\<forall>n \<in> set libs. metric_prefix @ n \<notin> set (''foreman_exporter_build_info'' # our_names))
     \<and> (\<forall>p \<in> set pre. literal_pattern p) \<and> distinct pre \<and> set pre \<inter> set fixed_paths = {}"

lemma libraries_names:
  "libraries_ok libs reg pre \<Longrightarrow> distinct (reg @ start_names r f h libs)"
  unfolding libraries_ok_def by (intro start_names_distinct) blast+

lemma first_run:
  assumes "libraries_ok libs reg pre" "CHR ''/'' \<in> set (metricsPath fl)"
  shows "run_main (first_statements fl) (reg, map (\<lambda>p. (p, LibraryPage)) pre) =
    (if metricsPath fl \<in> insert ''/static/'' (set pre) then Panics AlreadyRegistered
     else Returns (reg @ concat (map names_in (first_statements fl)),
       map (\<lambda>p. (p, LibraryPage)) pre @ [(metricsPath fl, MetricsHandler), (''/static/'', StaticFiles)]))"
proof -
  have "distinct (reg @ concat (map names_in (first_statements fl)))"
    using libraries_names [OF assms(1), of False False False] by (simp add: start_names_def first_statements_def)
  moreover have routes: "concat (map routes_in (first_statements fl)) = [(metricsPath fl, MetricsHandler), (''/static/'', StaticFiles)]"
    by (simp add: first_statements_def)
  moreover have pre: "distinct pre" "''/static/'' \<notin> set pre"
    using assms(1) by (auto simp: libraries_ok_def fixed_paths_def)
  ultimately show ?thesis
    using assms(2) by (subst run_main_slashed) (auto simp: comp_def)
qed

lemma first_run_invalid:
  assumes "libraries_ok libs reg pre" "CHR ''/'' \<notin> set (metricsPath fl)"
  shows "run_main (first_statements fl) (reg, mux) = Panics InvalidPattern"
proof -
  have "MustRegister (map name_of init_metrics) reg = Returns (reg @ map name_of init_metrics)"
    using libraries_names [OF assms(1), of False False False] by (auto simp: start_names_def MustRegister_Returns)
  then show ?thesis using assms(2) by (simp add: first_statements_def http_Handle_def)
qed

lemma later_run:
  assumes "libraries_ok libs reg pre" "metricsPath fl \<notin> insert ''/static/'' (set pre)"
  shows "run_main (later_statements libs ex) (reg @ concat (map names_in (first_statements fl)),
      map (\<lambda>p. (p, LibraryPage)) pre @ [(metricsPath fl, MetricsHandler), (''/static/'', StaticFiles)]) =
    (if metricsPath fl \<in> fst ` set (own_routes ex) then Panics AlreadyRegistered
     else Returns (reg @ start_names (ex_ring ex) (ex_fact ex \<noteq> None) (ex_host ex \<noteq> None) libs,
       map (\<lambda>p. (p, LibraryPage)) pre @ (metricsPath fl, MetricsHandler) # own_routes ex))"
proof -
  obtain T where own: "own_routes ex = (''/static/'', StaticFiles) # T" using own_paths(4) by blast
  let ?mux = "map (\<lambda>p. (p, LibraryPage)) pre @ [(metricsPath fl, MetricsHandler), (''/static/'', StaticFiles)]"
  have T: "concat (map routes_in (later_statements libs ex)) = T" by (simp add: later_parts(1) own)
  have paths: "distinct (map fst T)" "''/static/'' \<notin> fst ` set T" "set (map fst T) \<subseteq> set fixed_paths"
    "\<forall>(p, h) \<in> set T. CHR ''/'' \<in> set p"
    using own_paths(1-3) [of ex] unfolding own by simp_all
  have pre: "set pre \<inter> fst ` set T = {}" "distinct pre" "''/static/'' \<notin> set pre"
    using assms(1) paths(3) by (auto simp: libraries_ok_def fixed_paths_def)
  have clash: "distinct (map fst (?mux @ T)) \<longleftrightarrow> metricsPath fl \<notin> fst ` set (own_routes ex)"
    using paths(1,2) pre assms(2) unfolding own by (auto simp: comp_def)
  have mux: "distinct (map fst ?mux)" using pre(2,3) assms(2) by (auto simp: comp_def)
  have names: "distinct ((reg @ concat (map names_in (first_statements fl))) @ concat (map names_in (later_statements libs ex)))"
    using libraries_names [OF assms(1), of "ex_ring ex" "ex_fact ex \<noteq> None" "ex_host ex \<noteq> None"]
    unfolding start_names_split [of ex libs fl] by simp
  have slashed: "\<forall>(p, h) \<in> set (concat (map routes_in (later_statements libs ex))). CHR ''/'' \<in> set p"
    using paths(4) unfolding T .
  show ?thesis
    unfolding run_main_slashed [OF names slashed mux] T clash start_names_split [of ex libs fl] by (simp add: own)
qed

lemma main_start_eq:
  assumes "libraries_ok libs reg pre"
  shows "main_start sv kvc url user password libs reg pre fl =
    (if CHR ''/'' \<notin> set (metricsPath fl) then Panics InvalidPattern
     else if metricsPath fl \<in> insert ''/static/'' (set pre) then Panics AlreadyRegistered
     else case main_setup sv kvc url user password fl of
       Inl code \<Rightarrow> Returns (Inl code)
     | Inr ex \<Rightarrow>
         if metricsPath fl \<in> fst ` set (own_routes ex) then Panics AlreadyRegistered
         else Returns (Inr (ex, reg @ start_names (ex_ring ex) (ex_fact ex \<noteq> None) (ex_host ex \<noteq> None) libs,
           map (\<lambda>p. (p, LibraryPage)) pre @ (metricsPath fl, MetricsHandler) # own_routes ex)))"
  using first_run [OF assms, of fl] first_run_invalid [OF assms, of fl] later_run [OF assms, of fl]
  by (simp add: main_start_def split: sum.split)

text \<open>C16: How the start ends, for a telemetry path that is a literal path or has no slash at all, in the order of the
  code. Without a slash it panics; if the path is /static/ or one that a linked library serves it panics,
  whether the ring can be joined or not; otherwise, if the ring cannot be joined the process exits; if
  it can, a telemetry path that is one of the exporter's other paths (such as / or /status) panics;
  and in all other cases the start serves the telemetry path and all its own paths, and has registered every
  metric of what is on, each once.\<close>

theorem main_starts:
  assumes "libraries_ok libs reg pre" "literal_pattern (metricsPath fl) \<or> CHR ''/'' \<notin> set (metricsPath fl)"
  shows "let result = main_start sv kvc url user password libs reg pre fl
    in if CHR ''/'' \<notin> set (metricsPath fl) then result = Panics InvalidPattern
       else if metricsPath fl \<in> insert ''/static/'' (set pre) then result = Panics AlreadyRegistered
       else case main_setup sv kvc url user password fl of
         Inl code \<Rightarrow> result = Returns (Inl code)
       | Inr ex \<Rightarrow>
           if metricsPath fl \<in> fst ` set (own_routes ex) then result = Panics AlreadyRegistered
           else \<exists>registry mux. result = Returns (Inr (ex, registry, mux))
             \<and> map fst mux = pre @ metricsPath fl # map fst (own_routes ex) \<and> distinct (map fst mux)
             \<and> registry = reg @ start_names (ringEnabled fl) (List.member (collectorsEnabled fl) ''hostfact'')
                 (List.member (collectorsEnabled fl) ''host'') libs \<and> distinct registry"
proof (cases "CHR ''/'' \<notin> set (metricsPath fl) \<or> metricsPath fl \<in> insert ''/static/'' (set pre)")
  case True
  then show ?thesis unfolding main_start_eq [OF assms(1)] by (simp add: Let_def)
next
  case early: False
  show ?thesis
  proof (cases "main_setup sv kvc url user password fl")
    case (Inl code)
    then show ?thesis using early unfolding main_start_eq [OF assms(1)] by (simp add: Let_def)
  next
    case (Inr ex)
    have on: "ex_ring ex = ringEnabled fl" "(ex_fact ex \<noteq> None) = List.member (collectorsEnabled fl) ''hostfact''"
      "(ex_host ex \<noteq> None) = List.member (collectorsEnabled fl) ''host''"
      unfolding main_setup_Inr(1,4,5) [OF Inr] by (simp_all split: if_splits)
    show ?thesis
    proof (cases "metricsPath fl \<in> fst ` set (own_routes ex)")
      case True
      then show ?thesis using early Inr unfolding main_start_eq [OF assms(1)] by (simp add: Let_def)
    next
      case False
      have "distinct pre" "set pre \<inter> fst ` set (own_routes ex) = {}"
        using assms(1) own_paths(2) [of ex] unfolding libraries_ok_def set_map by blast+
      then have "distinct (pre @ metricsPath fl # map fst (own_routes ex))"
        using own_paths(1) [of ex] False early by auto
      moreover note libraries_names [OF assms(1), of "ringEnabled fl" "List.member (collectorsEnabled fl) ''hostfact''"
          "List.member (collectorsEnabled fl) ''host''"]
      moreover have "main_start sv kvc url user password libs reg pre fl = Returns (Inr (ex,
          reg @ start_names (ringEnabled fl) (List.member (collectorsEnabled fl) ''hostfact'') (List.member (collectorsEnabled fl) ''host'') libs,
          map (\<lambda>p. (p, LibraryPage)) pre @ (metricsPath fl, MetricsHandler) # own_routes ex))"
        using early Inr False unfolding main_start_eq [OF assms(1)] on [symmetric] by simp
      ultimately show ?thesis
        using early Inr False by (simp add: Let_def comp_def)
    qed
  qed
qed

lemma default_paths: "main_setup sv kvc url user password default_flags = Inr ex \<Longrightarrow> metricsPath default_flags \<notin> fst ` set (own_routes ex)"
  using own_paths(2) [of ex] by (auto simp: fixed_paths_def default_flags_def)

lemma no_libraries: "libraries_ok [] [''go_goroutines''] [''/debug/requests'']"
proof -
  have "take 17 ''go_goroutines'' \<noteq> metric_prefix" by code_simp
  then show ?thesis by (simp add: libraries_ok_def literal_pattern_def fixed_paths_def)
qed

lemma default_literal: "literal_pattern (metricsPath default_flags)" "CHR ''/'' \<in> set (metricsPath default_flags)"
  by (simp_all add: default_flags_def literal_pattern_def)

theorem main_starts_witness:
  "\<exists>ex registry mux. main_start example_services example_gossip [] [] [] [] [''go_goroutines''] [''/debug/requests''] default_flags
      = Returns (Inr (ex, registry, mux)) \<and> distinct registry"
proof -
  have "\<not> ringEnabled default_flags" "List.member (collectorsEnabled default_flags) ''host''"
    by (simp_all add: default_flags_def)
  then obtain ex where ex: "main_setup example_services example_gossip [] [] [] default_flags = Inr ex"
    using main_setup_no_ring by blast
  have "metricsPath default_flags \<notin> insert ''/static/'' (set [''/debug/requests''])" by (simp add: default_flags_def)
  with main_starts [OF no_libraries disjI1 [OF default_literal(1)], of example_services example_gossip "[]" "[]" "[]"]
  show ?thesis using default_paths [OF ex] default_literal(2) by (simp only: Let_def ex sum.case if_False not_True_eq_False) blast
qed

section \<open>The links of the index page\<close>

definition index_link_paths :: "IndexPageLinkGroup list \<Rightarrow> string list" where
  "index_link_paths groups = concat (map (\<lambda>g. map snd (group_Links g)) groups)"

lemma index_links:
  "set (index_link_paths (index_groups r f h)) = {''/metrics'', ''/status''} \<union> (if r then {''/ring'', ''/memberlist''} else {})
     \<union> (if f then {''/host-facts-metrics''} else {}) \<union> (if h then {''/host-metrics''} else {})"
  by (cases r; cases f; cases h) (auto simp: index_link_paths_def index_groups_simps Let_def)

lemma links_to_own:
  assumes "main_setup sv kvc url user password fl = Inr ex"
  shows "set (index_link_paths (ex_index ex)) \<subseteq> insert ''/metrics'' (fst ` set (own_routes ex))"
    "''/metrics'' \<in> set (index_link_paths (ex_index ex))"
  unfolding main_setup_Inr(6) [OF assms] index_links
  using main_setup_Inr(1,4,5) [OF assms] by (simp_all add: own_routes_def image_iff)

lemma in_set_map_fst: "(k, v) \<in> set xs \<Longrightarrow> k \<in> fst ` set xs"
  by force

lemma filter_key: "distinct (map fst xs) \<Longrightarrow> (k, v) \<in> set xs \<Longrightarrow> filter (\<lambda>(q, _). q = k) xs = [(k, v)]"
proof (induction xs)
  case (Cons x xs)
  show ?case
  proof (cases "fst x = k")
    case True
    then have "filter (\<lambda>(q, _). q = k) xs = []" using Cons.prems(1) by (auto simp: filter_empty_conv dest: in_set_map_fst)
    moreover have "x = (k, v)"
    proof (rule ccontr)
      assume "x \<noteq> (k, v)"
      then have "k \<in> fst ` set xs" using Cons.prems(2) in_set_map_fst [of k v xs] by simp
      then show False using True Cons.prems(1) by simp
    qed
    ultimately show ?thesis by simp
  next
    case False
    then show ?thesis using Cons by (cases x) auto
  qed
qed simp

text \<open>The only subtree that can contain /metrics is the root's.\<close>

lemma metrics_subtree:
  "q \<noteq> [] \<and> last q = CHR ''/'' \<and> take (length q) ''/metrics'' = q \<longleftrightarrow> q = ''/''"
proof
  assume q: "q \<noteq> [] \<and> last q = CHR ''/'' \<and> take (length q) ''/metrics'' = q"
  have "list_all (\<lambda>n. last (take n ''/metrics'') = CHR ''/'' \<longrightarrow> n = 1) [1..<9]" by code_simp
  moreover have "length q \<in> set [1..<9]"
  proof -
    have "length (take (length q) ''/metrics'') = length q" using q by simp
    then have "length q \<le> 8" by simp
    moreover have "0 < length q" using q by simp
    ultimately show ?thesis by (simp add: Suc_le_eq)
  qed
  moreover have "last (take (length q) ''/metrics'') = CHR ''/''" using q by (simp only: conj_ac)
  ultimately have "length q = 1" unfolding list_all_iff by blast
  then obtain c where c: "q = [c]" by (auto simp: length_Suc_conv)
  then have "c = CHR ''/''" using conjunct1 [OF conjunct2 [OF q]] by simp
  then show "q = ''/''" using c by simp
next
  assume "q = ''/''"
  then show "q \<noteq> [] \<and> last q = CHR ''/'' \<and> take (length q) ''/metrics'' = q" by simp
qed

lemma root_answers:
  assumes "distinct (map fst mux)" "(''/'', h) \<in> set mux" "''/metrics'' \<notin> fst ` set mux" "''/metrics/'' \<notin> fst ` set mux"
  shows "link_reply mux ''/metrics'' = Answers h"
proof -
  have "subtrees mux ''/metrics'' = [(''/'', h)]"
    using filter_key [OF assms(1,2)] by (simp only: subtrees_def metrics_subtree) simp
  moreover have "map_of mux ''/metrics'' = None" "map_of mux (''/metrics'' @ ''/'') = None"
    using assms(3,4) by (simp_all add: map_of_eq_None_iff)
  ultimately show ?thesis
    unfolding link_reply_def ServeMux_reply_def by (simp only: option.case if_False simp_thms) simp
qed

lemma exact_answers:
  assumes "distinct (map fst mux)" "(p, h) \<in> set mux"
  shows "ServeMux_reply mux p = Answers h" "link_reply mux p = Answers h"
  using assms by (simp_all add: link_reply_def ServeMux_reply_def)

text \<open>C38: Every link of the index page but the one to /metrics is answered by its own page. The page always links to
  /metrics, wherever the flag puts the metrics: the link shows them if and only if the telemetry path is
  /metrics, or /metrics/ (by a redirect); with any other one that lets the process start it shows the index
  page again.\<close>

theorem index_links_served:
  assumes "libraries_ok libs reg pre" "literal_pattern (metricsPath fl)" "set pre \<inter> {''/metrics'', ''/metrics/''} = {}"
    and "main_start sv kvc url user password libs reg pre fl = Returns (Inr (ex, registry, mux))"
  shows "(\<forall>p \<in> set (index_link_paths (ex_index ex)). p \<noteq> ''/metrics'' \<longrightarrow>
        (\<exists>h. (p, h) \<in> set (own_routes ex) \<and> link_reply mux p = Answers h))
    \<and> ''/metrics'' \<in> set (index_link_paths (ex_index ex))
    \<and> link_reply mux ''/metrics'' = Answers (if metricsPath fl \<in> {''/metrics'', ''/metrics/''} then MetricsHandler
         else IndexPage (ex_index ex) (ex_info ex))"
proof -
  have slash: "CHR ''/'' \<in> set (metricsPath fl)"
    using assms(2) by (cases "metricsPath fl") (auto simp: literal_pattern_def)
  have config: "main_setup sv kvc url user password fl = Inr ex"
    and mux: "mux = map (\<lambda>p. (p, LibraryPage)) pre @ (metricsPath fl, MetricsHandler) # own_routes ex"
    and new: "metricsPath fl \<notin> set pre" "metricsPath fl \<notin> fst ` set (own_routes ex)"
    using assms(4) slash unfolding main_start_eq [OF assms(1)] by (auto split: if_splits sum.splits)
  have "set pre \<inter> fst ` set (own_routes ex) = {}" "distinct pre"
    using assms(1) own_paths(2) [of ex] unfolding libraries_ok_def set_map by blast+
  then have dist: "distinct (map fst mux)"
    using new own_paths(1) [of ex] unfolding mux by (auto simp: comp_def)
  have own: "\<exists>h. (p, h) \<in> set (own_routes ex) \<and> link_reply mux p = Answers h"
    if "p \<in> set (index_link_paths (ex_index ex))" "p \<noteq> ''/metrics''" for p
  proof -
    have "p \<in> fst ` set (own_routes ex)" using links_to_own(1) [OF config] that by blast
    then obtain h where "(p, h) \<in> set (own_routes ex)" by force
    then show ?thesis using exact_answers(2) [OF dist, of p h] unfolding mux by auto
  qed
  have keys: "fst ` set mux = set pre \<union> insert (metricsPath fl) (fst ` set (own_routes ex))"
    unfolding mux by (simp add: image_Un image_image)
  have free: "''/metrics'' \<notin> fst ` set (own_routes ex)" "''/metrics/'' \<notin> fst ` set (own_routes ex)"
    using own_paths(2) [of ex] by (auto simp: fixed_paths_def)
  have metrics: "(metricsPath fl, MetricsHandler) \<in> set mux" unfolding mux by simp
  have "link_reply mux ''/metrics'' = Answers (if metricsPath fl \<in> {''/metrics'', ''/metrics/''} then MetricsHandler
         else IndexPage (ex_index ex) (ex_info ex))"
  proof (cases "metricsPath fl = ''/metrics''"; cases "metricsPath fl = ''/metrics/''")
    assume m: "metricsPath fl \<noteq> ''/metrics''" "metricsPath fl = ''/metrics/''"
    have "''/metrics'' \<notin> fst ` set mux" unfolding keys using m(1) free(1) assms(3) by auto
    then have "map_of mux ''/metrics'' = None" by (simp add: map_of_eq_None_iff)
    moreover have "map_of mux (''/metrics'' @ ''/'') = Some MetricsHandler" using metrics dist m(2) by simp
    ultimately have "ServeMux_reply mux ''/metrics'' = Redirects ''/metrics/''"
      unfolding ServeMux_reply_def by (simp only: option.case) simp
    then show ?thesis
      using exact_answers(1) [OF dist metrics] m(2) by (simp add: link_reply_def)
  next
    assume m: "metricsPath fl \<noteq> ''/metrics''" "metricsPath fl \<noteq> ''/metrics/''"
    have "link_reply mux ''/metrics'' = Answers (IndexPage (ex_index ex) (ex_info ex))"
    proof (rule root_answers [OF dist])
      show "(''/'', IndexPage (ex_index ex) (ex_info ex)) \<in> set mux" unfolding mux using own_paths(5) [of ex] by simp
      show "''/metrics'' \<notin> fst ` set mux" unfolding keys using m(1) free(1) assms(3) by auto
      show "''/metrics/'' \<notin> fst ` set mux" unfolding keys using m(2) free(2) assms(3) by auto
    qed
    then show ?thesis using m by simp
  qed (use exact_answers(2) [OF dist metrics] in simp_all)
  with own links_to_own(2) [OF config] show ?thesis by blast
qed

text \<open>With /probe as its telemetry path, the exporter's link to its metrics leads back to the index page.\<close>

theorem index_links_served_witness:
  "\<exists>ex registry mux. main_start example_services example_gossip [] [] [] [] [''go_goroutines''] [''/debug/requests'']
        (default_flags\<lparr>metricsPath := ''/probe''\<rparr>) = Returns (Inr (ex, registry, mux))
    \<and> link_reply mux ''/metrics'' = Answers (IndexPage (ex_index ex) (ex_info ex))"
proof -
  let ?fl = "default_flags\<lparr>metricsPath := ''/probe''\<rparr>"
  have lit: "literal_pattern (metricsPath ?fl)" by (simp add: literal_pattern_def)
  have "\<not> ringEnabled ?fl" "List.member (collectorsEnabled ?fl) ''host''" by (simp_all add: default_flags_def)
  then obtain ex where ex: "main_setup example_services example_gossip [] [] [] ?fl = Inr ex"
    using main_setup_no_ring by blast
  have "metricsPath ?fl \<notin> fst ` set (own_routes ex)" using own_paths(2) [of ex] by (auto simp: fixed_paths_def)
  then obtain registry mux where start: "main_start example_services example_gossip [] [] [] [] [''go_goroutines''] [''/debug/requests''] ?fl
      = Returns (Inr (ex, registry, mux))"
    unfolding main_start_eq [OF no_libraries] using ex by simp
  from index_links_served [OF no_libraries lit _ start] start show ?thesis by (intro exI conjI) (assumption, simp)
qed

end
