(* ===== verification/CacheWire.thy ===== *)
theory CacheWire
  imports ClusterCache "HOL-Library.Log_Nat"
begin

unbundle bit_operations_syntax

text \<open>
  The wire format of a replicated cache entry (cache.pb.go): what an instance gossips and how it
  reads what others send. Bytes are 8-bit words, varints 64-bit words, an \<open>int\<close> of Go an integer
  that wraps at 64 bits; indexing and slicing are checked and panic as Go's do. The framing
  around the message (snappy) is a parameter of Cluster; the registration with the protobuf library is not
  modelled.
\<close>

section \<open>Buffers\<close>

definition go_index :: "'a list \<Rightarrow> int \<Rightarrow> go_panic + 'a" where
  "go_index xs i = (if 0 \<le> i \<and> i < int (length xs) then Inr (xs ! nat i) else Inl IndexOutOfRange)"

definition go_set :: "'a list \<Rightarrow> int \<Rightarrow> 'a \<Rightarrow> go_panic + 'a list" where
  "go_set xs i x = (if 0 \<le> i \<and> i < int (length xs) then Inr (xs[nat i := x]) else Inl IndexOutOfRange)"

text \<open>\<open>copy(dst[i:], src)\<close>.\<close>

definition go_copy :: "'a list \<Rightarrow> int \<Rightarrow> 'a list \<Rightarrow> go_panic + 'a list" where
  "go_copy dst i src =
     (if 0 \<le> i \<and> i \<le> int (length dst)
      then (let n = min (length dst - nat i) (length src)
            in Inr (take (nat i) dst @ take n src @ drop (nat i + n) dst))
      else Inl SliceBounds)"

section \<open>Writing\<close>

definition Len64 :: "64 word \<Rightarrow> nat" where
  "Len64 x = floorlog 2 (unat x)"

definition sovCache :: "64 word \<Rightarrow> int" where
  "sovCache x = (int (Len64 (x OR 1)) + 6) div 7"

lemma unat_drop_7: "unat (drop_bit 7 (v :: 64 word)) = unat v div 128"
proof -
  have "unat (drop_bit 7 v) = drop_bit 7 (unat v)" by (rule unat_drop_bit_eq)
  then show ?thesis by (simp add: drop_bit_eq_div)
qed

function put_varint :: "bytes \<Rightarrow> int \<Rightarrow> 64 word \<Rightarrow> go_panic + bytes" where
  "put_varint dAtA offset v =
     (if 128 \<le> v
      then (case go_set dAtA offset (ucast (v AND 127 OR 128)) of
              Inl p \<Rightarrow> Inl p
            | Inr dAtA \<Rightarrow> put_varint dAtA (offset + 1) (drop_bit 7 v))
      else go_set dAtA offset (ucast v))"
  by auto

termination put_varint
proof (relation "measure (\<lambda>(_, _, v). unat v)")
  fix v :: "64 word" and dAtA dAtA' :: bytes and offset :: int
  assume "128 \<le> v"
  then have "128 \<le> unat v" by (simp add: word_le_nat_alt)
  then show "((dAtA', offset + 1, drop_bit 7 v), (dAtA, offset, v)) \<in> measure (\<lambda>(_, _, v). unat v)"
    by (simp add: unat_drop_7)
qed simp

declare put_varint.simps [simp del]

text \<open>The buffer and the offset at which the number starts.\<close>

definition encodeVarintCache :: "bytes \<Rightarrow> int \<Rightarrow> 64 word \<Rightarrow> go_panic + (bytes \<times> int)" where
  "encodeVarintCache dAtA offset v =
     (let offset = offset - sovCache v
      in case put_varint dAtA offset v of Inl p \<Rightarrow> Inl p | Inr dAtA \<Rightarrow> Inr (dAtA, offset))"

definition Size :: "Cache \<Rightarrow> int" where
  "Size m =
     (let l = int (length (Content m));
          n = (if l > 0 then 1 + l + sovCache (word_of_int l) else 0);
          n = n + (if CreatedAt m \<noteq> 0 then 1 + sovCache (word_of_int (CreatedAt m)) else 0);
          n = n + (if ExpiresAt m \<noteq> 0 then 1 + sovCache (word_of_int (ExpiresAt m)) else 0)
      in n + int (length (XXX_unrecognized m)))"

text \<open>The three kinds of piece, each written in front of what was written before, at index \<open>i\<close>.\<close>

definition put_bytes :: "bytes \<Rightarrow> bytes \<times> int \<Rightarrow> go_panic + (bytes \<times> int)" where
  "put_bytes src buf =
     (case buf of (dAtA, i) \<Rightarrow>
        (let i = i - int (length src)
         in case go_copy dAtA i src of Inl p \<Rightarrow> Inl p | Inr dAtA \<Rightarrow> Inr (dAtA, i)))"

definition put_byte :: "8 word \<Rightarrow> bytes \<times> int \<Rightarrow> go_panic + (bytes \<times> int)" where
  "put_byte b buf =
     (case buf of (dAtA, i) \<Rightarrow>
        (let i = i - 1
         in case go_set dAtA i b of Inl p \<Rightarrow> Inl p | Inr dAtA \<Rightarrow> Inr (dAtA, i)))"

definition put_number :: "64 word \<Rightarrow> bytes \<times> int \<Rightarrow> go_panic + (bytes \<times> int)" where
  "put_number v buf = (case buf of (dAtA, i) \<Rightarrow> encodeVarintCache dAtA i v)"

fun chain :: "('s \<Rightarrow> go_panic + 's) list \<Rightarrow> 's \<Rightarrow> go_panic + 's" where
  "chain [] s = Inr s"
| "chain (f # fs) s = (case f s of Inl p \<Rightarrow> Inl p | Inr s \<Rightarrow> chain fs s)"

definition MarshalToSizedBuffer :: "Cache \<Rightarrow> bytes \<Rightarrow> go_panic + (bytes \<times> int)" where
  "MarshalToSizedBuffer m dAtA =
     (case chain
        ((if XXX_unrecognized m \<noteq> [] then [put_bytes (XXX_unrecognized m)] else [])
         @ (if ExpiresAt m \<noteq> 0 then [put_number (word_of_int (ExpiresAt m)), put_byte 0x18] else [])
         @ (if CreatedAt m \<noteq> 0 then [put_number (word_of_int (CreatedAt m)), put_byte 0x10] else [])
         @ (if Content m \<noteq> []
            then [put_bytes (Content m), put_number (word_of_int (int (length (Content m)))), put_byte 0xa] else []))
        (dAtA, int (length dAtA)) of
        Inl p \<Rightarrow> Inl p
      | Inr (dAtA, i) \<Rightarrow> Inr (dAtA, int (length dAtA) - i))"

definition Marshal :: "Cache \<Rightarrow> go_panic + bytes" where
  "Marshal m =
     (let size = Size m
      in if size < 0 then Inl MakeSlice
         else case MarshalToSizedBuffer m (replicate (nat size) 0) of
                Inl p \<Rightarrow> Inl p
              | Inr (dAtA, n) \<Rightarrow> go_slice dAtA 0 n)"

section \<open>Reading\<close>

datatype wire_error =
    ErrIntOverflow
  | ErrUnexpectedEOF
  | ErrInvalidLength
  | ErrUnexpectedEndOfGroup
  | EndGroupForNonGroup
  | IllegalTag int "64 word"
  | WrongWireType "64 word" string
  | IllegalWireType "64 word"

type_synonym 'a parsed = "(wire_error + 'a) outcome"

text \<open>The loop that reads a number: its value and the index behind it.\<close>

function read_varint :: "bytes \<Rightarrow> int \<Rightarrow> nat \<Rightarrow> 64 word \<Rightarrow> (64 word \<times> int) parsed" where
  "read_varint dAtA iNdEx shift acc =
     (if shift \<ge> 64 then Returns (Inl ErrIntOverflow)
      else if iNdEx \<ge> int (length dAtA) then Returns (Inl ErrUnexpectedEOF)
      else case go_index dAtA iNdEx of
             Inl p \<Rightarrow> Panics p
           | Inr b \<Rightarrow>
               (let acc = acc OR push_bit shift (ucast (b AND 0x7F))
                in if b < 0x80 then Returns (Inr (acc, iNdEx + 1))
                   else read_varint dAtA (iNdEx + 1) (shift + 7) acc))"
  by auto

termination read_varint
  by (relation "measure (\<lambda>(_, _, shift, _). 64 - shift)") auto

declare read_varint.simps [simp del]

text \<open>One field that is skipped: the index behind it and the depth of groups.\<close>

definition skip_field :: "bytes \<Rightarrow> 64 word \<Rightarrow> int \<Rightarrow> int \<Rightarrow> (int \<times> int) parsed" where
  "skip_field dAtA wireType iNdEx depth =
     (if wireType = 0
      then (case read_varint dAtA iNdEx 0 0 of
              Returns (Inr (_, iNdEx)) \<Rightarrow> Returns (Inr (iNdEx, depth))
            | Returns (Inl e) \<Rightarrow> Returns (Inl e) | Panics p \<Rightarrow> Panics p | Blocks \<Rightarrow> Blocks)
      else if wireType = 1 then Returns (Inr (i64 (iNdEx + 8), depth))
      else if wireType = 2
      then (case read_varint dAtA iNdEx 0 0 of
              Returns (Inr (len, iNdEx)) \<Rightarrow>
                (if sint len < 0 then Returns (Inl ErrInvalidLength)
                 else Returns (Inr (i64 (iNdEx + sint len), depth)))
            | Returns (Inl e) \<Rightarrow> Returns (Inl e) | Panics p \<Rightarrow> Panics p | Blocks \<Rightarrow> Blocks)
      else if wireType = 3 then Returns (Inr (iNdEx, depth + 1))
      else if wireType = 4
      then (if depth = 0 then Returns (Inl ErrUnexpectedEndOfGroup) else Returns (Inr (iNdEx, depth - 1)))
      else if wireType = 5 then Returns (Inr (i64 (iNdEx + 4), depth))
      else Returns (Inl (IllegalWireType wireType)))"

text \<open>A round that does not move on would never end, and is \<open>Blocks\<close>.\<close>

function skip_loop :: "bytes \<Rightarrow> int \<Rightarrow> int \<Rightarrow> int parsed" where
  "skip_loop dAtA iNdEx depth =
     (if iNdEx < int (length dAtA)
      then (case read_varint dAtA iNdEx 0 0 of
              Returns (Inr (wire, i)) \<Rightarrow>
                (case skip_field dAtA (wire AND 0x7) i depth of
                   Returns (Inr (i, depth)) \<Rightarrow>
                     (if i < 0 then Returns (Inl ErrInvalidLength)
                      else if depth = 0 then Returns (Inr i)
                      else if i \<le> iNdEx then Blocks
                      else skip_loop dAtA i depth)
                 | Returns (Inl e) \<Rightarrow> Returns (Inl e) | Panics p \<Rightarrow> Panics p | Blocks \<Rightarrow> Blocks)
            | Returns (Inl e) \<Rightarrow> Returns (Inl e) | Panics p \<Rightarrow> Panics p | Blocks \<Rightarrow> Blocks)
      else Returns (Inl ErrUnexpectedEOF))"
  by auto

termination skip_loop
  by (relation "measure (\<lambda>(dAtA, iNdEx, _). nat (int (length dAtA) - iNdEx))") auto

declare skip_loop.simps [simp del]

definition skipCache :: "bytes \<Rightarrow> int parsed" where
  "skipCache dAtA = skip_loop dAtA 0 0"

text \<open>One field of a message, from the index \<open>preIndex\<close> of its tag: the message and the index behind it.\<close>

definition content_field :: "Cache \<Rightarrow> bytes \<Rightarrow> int \<Rightarrow> (Cache \<times> int) parsed" where
  "content_field m dAtA iNdEx =
     (case read_varint dAtA iNdEx 0 0 of
        Returns (Inr (len, iNdEx)) \<Rightarrow>
          (let byteLen = sint len; postIndex = i64 (iNdEx + byteLen)
           in if byteLen < 0 then Returns (Inl ErrInvalidLength)
              else if postIndex < 0 then Returns (Inl ErrInvalidLength)
              else if postIndex > int (length dAtA) then Returns (Inl ErrUnexpectedEOF)
              else case go_slice dAtA iNdEx postIndex of
                     Inl p \<Rightarrow> Panics p
                   | Inr content \<Rightarrow> Returns (Inr (m\<lparr>Content := content\<rparr>, postIndex)))
      | Returns (Inl e) \<Rightarrow> Returns (Inl e) | Panics p \<Rightarrow> Panics p | Blocks \<Rightarrow> Blocks)"

definition number_field :: "(int \<Rightarrow> Cache) \<Rightarrow> bytes \<Rightarrow> int \<Rightarrow> (Cache \<times> int) parsed" where
  "number_field set_number dAtA iNdEx =
     (case read_varint dAtA iNdEx 0 0 of
        Returns (Inr (v, iNdEx)) \<Rightarrow> Returns (Inr (set_number (sint v), iNdEx))
      | Returns (Inl e) \<Rightarrow> Returns (Inl e) | Panics p \<Rightarrow> Panics p | Blocks \<Rightarrow> Blocks)"

definition unknown_field :: "Cache \<Rightarrow> bytes \<Rightarrow> int \<Rightarrow> (Cache \<times> int) parsed" where
  "unknown_field m dAtA iNdEx =
     (case go_slice dAtA iNdEx (int (length dAtA)) of
        Inl p \<Rightarrow> Panics p
      | Inr rest \<Rightarrow>
          (case skipCache rest of
             Returns (Inr skippy) \<Rightarrow>
               (if skippy < 0 \<or> i64 (iNdEx + skippy) < 0 then Returns (Inl ErrInvalidLength)
                else if i64 (iNdEx + skippy) > int (length dAtA) then Returns (Inl ErrUnexpectedEOF)
                else case go_slice dAtA iNdEx (i64 (iNdEx + skippy)) of
                       Inl p \<Rightarrow> Panics p
                     | Inr bs \<Rightarrow> Returns (Inr (m\<lparr>XXX_unrecognized := XXX_unrecognized m @ bs\<rparr>, i64 (iNdEx + skippy))))
           | Returns (Inl e) \<Rightarrow> Returns (Inl e) | Panics p \<Rightarrow> Panics p | Blocks \<Rightarrow> Blocks))"

definition unmarshal_field :: "Cache \<Rightarrow> bytes \<Rightarrow> int \<Rightarrow> (Cache \<times> int) parsed" where
  "unmarshal_field m dAtA preIndex =
     (case read_varint dAtA preIndex 0 0 of
        Returns (Inr (wire, iNdEx)) \<Rightarrow>
          (let fieldNum = sint (ucast (drop_bit 3 wire) :: 32 word); wireType = wire AND 0x7
           in if wireType = 4 then Returns (Inl EndGroupForNonGroup)
              else if fieldNum \<le> 0 then Returns (Inl (IllegalTag fieldNum wire))
              else if fieldNum = 1
              then (if wireType \<noteq> 2 then Returns (Inl (WrongWireType wireType ''Content''))
                    else content_field m dAtA iNdEx)
              else if fieldNum = 2
              then (if wireType \<noteq> 0 then Returns (Inl (WrongWireType wireType ''CreatedAt''))
                    else number_field (\<lambda>n. m\<lparr>CreatedAt := n\<rparr>) dAtA iNdEx)
              else if fieldNum = 3
              then (if wireType \<noteq> 0 then Returns (Inl (WrongWireType wireType ''ExpiresAt''))
                    else number_field (\<lambda>n. m\<lparr>ExpiresAt := n\<rparr>) dAtA iNdEx)
              else unknown_field m dAtA preIndex)
      | Returns (Inl e) \<Rightarrow> Returns (Inl e) | Panics p \<Rightarrow> Panics p | Blocks \<Rightarrow> Blocks)"

text \<open>On an error the half-filled message is dropped, as the codec that calls this does.\<close>

function unmarshal_loop :: "Cache \<Rightarrow> bytes \<Rightarrow> int \<Rightarrow> Cache parsed" where
  "unmarshal_loop m dAtA iNdEx =
     (if iNdEx < int (length dAtA)
      then (case unmarshal_field m dAtA iNdEx of
              Returns (Inr (m, i)) \<Rightarrow> if i \<le> iNdEx then Blocks else unmarshal_loop m dAtA i
            | Returns (Inl e) \<Rightarrow> Returns (Inl e) | Panics p \<Rightarrow> Panics p | Blocks \<Rightarrow> Blocks)
      else if iNdEx > int (length dAtA) then Returns (Inl ErrUnexpectedEOF)
      else Returns (Inr m))"
  by auto

termination unmarshal_loop
  by (relation "measure (\<lambda>(_, dAtA, iNdEx). nat (int (length dAtA) - iNdEx))") auto

declare unmarshal_loop.simps [simp del]

definition Unmarshal :: "Cache \<Rightarrow> bytes \<Rightarrow> Cache parsed" where
  "Unmarshal m dAtA = unmarshal_loop m dAtA 0"

section \<open>Reading never panics\<close>

text \<open>A read that starts inside the bytes ends with an error or further on, inside them.\<close>

lemma read_varint_total:
  assumes "0 \<le> i"
  shows "(\<exists>e. read_varint dAtA i shift acc = Returns (Inl e))
    \<or> (\<exists>v j. read_varint dAtA i shift acc = Returns (Inr (v, j)) \<and> i < j \<and> j \<le> int (length dAtA))"
  using assms
proof (induction dAtA i shift acc rule: read_varint.induct)
  case (1 dAtA i shift acc)
  show ?case
  proof (cases "64 \<le> shift \<or> int (length dAtA) \<le> i")
    case True
    then show ?thesis by (subst read_varint.simps) auto
  next
    case False
    then have b: "go_index dAtA i = Inr (dAtA ! nat i)" using 1(2) by (simp add: go_index_def)
    show ?thesis
    proof (cases "dAtA ! nat i < 0x80")
      case True
      then show ?thesis using False b by (subst read_varint.simps) (auto simp: Let_def)
    next
      case small: False
      have "read_varint dAtA i shift acc = read_varint dAtA (i + 1) (shift + 7)
          (acc OR push_bit shift (ucast (dAtA ! nat i AND 0x7F)))"
        using False small b by (subst read_varint.simps) (simp add: Let_def)
      with 1(1) [of "dAtA ! nat i"] 1(2) False b small show ?thesis by auto
    qed
  qed
qed

lemmas parse_splits = outcome.splits sum.splits prod.splits

lemma i64_add_cases:
  assumes "is_i64 i" "is_i64 k" "0 \<le> i" "0 \<le> k"
  shows "i64 (i + k) = i + k \<and> i + k < 2 ^ 63 \<or> i64 (i + k) < 0"
proof (cases "i + k < 2 ^ 63")
  case True
  then show ?thesis using assms by (simp add: is_i64_def)
next
  case False
  then have "i64 (i + k) = i + k - 2 ^ 64" using assms by (subst i64_nonneg_less) (auto simp: is_i64_def)
  then show ?thesis using assms by (simp add: is_i64_def)
qed

lemma is_i64_sint: "is_i64 (sint (w :: 64 word))"
  using sint_greater_eq [of w] sint_less [of w] by (simp add: is_i64_def)

lemma skip_field_total:
  assumes "0 \<le> i" "i \<le> int (length dAtA)" "int (length dAtA) < 2 ^ 63"
  shows "(\<exists>e. skip_field dAtA w i depth = Returns (Inl e))
    \<or> (\<exists>j d. skip_field dAtA w i depth = Returns (Inr (j, d)) \<and> (j < 0 \<or> i \<le> j) \<and> is_i64 j)"
proof -
  have num: "is_i64 j \<Longrightarrow> i \<le> j \<Longrightarrow> i64 (j + k) < 0 \<or> i \<le> i64 (j + k)" if "is_i64 k" "0 \<le> k" for j k
    using i64_add_cases [of j k] that assms(1) by auto
  have i: "is_i64 i" using assms by (simp add: is_i64_def)
  from read_varint_total [OF assms(1), of dAtA 0 0] show ?thesis
  proof
    assume "\<exists>e. read_varint dAtA i 0 0 = Returns (Inl e)"
    then show ?thesis using num [of 8 i] num [of 4 i] i by (auto simp: skip_field_def is_i64_def i64_lower i64_upper)
  next
    assume "\<exists>v j. read_varint dAtA i 0 0 = Returns (Inr (v, j)) \<and> i < j \<and> j \<le> int (length dAtA)"
    then obtain v j where j: "read_varint dAtA i 0 0 = Returns (Inr (v, j))" "i < j" "j \<le> int (length dAtA)" by blast
    then have "is_i64 j" using assms by (simp add: is_i64_def)
    then show ?thesis
      using num [of 8 i] num [of 4 i] num [of "sint v" j] i j is_i64_sint [of v]
      by (auto simp: skip_field_def is_i64_def i64_lower i64_upper)
  qed
qed

lemma skip_loop_total:
  assumes "0 \<le> i" "int (length dAtA) < 2 ^ 63"
  shows "(\<exists>e. skip_loop dAtA i depth = Returns (Inl e))
    \<or> (\<exists>n. skip_loop dAtA i depth = Returns (Inr n) \<and> i < n \<and> is_i64 n)"
  using assms
proof (induction dAtA i depth rule: skip_loop.induct)
  case (1 dAtA i depth)
  show ?case
  proof (cases "i < int (length dAtA)")
    case False
    then show ?thesis by (subst skip_loop.simps) simp
  next
    case True
    from read_varint_total [OF 1(2), of dAtA 0 0] show ?thesis
    proof
      assume "\<exists>e. read_varint dAtA i 0 0 = Returns (Inl e)"
      then show ?thesis using True by (subst skip_loop.simps) auto
    next
      assume "\<exists>v j. read_varint dAtA i 0 0 = Returns (Inr (v, j)) \<and> i < j \<and> j \<le> int (length dAtA)"
      then obtain w j where j: "read_varint dAtA i 0 0 = Returns (Inr (w, j))" "i < j" "j \<le> int (length dAtA)" by blast
      then have "0 \<le> j" using 1(2) by simp
      from skip_field_total [OF this j(3) 1(3), of "w AND 7" depth] show ?thesis
      proof
        assume "\<exists>e. skip_field dAtA (w AND 7) j depth = Returns (Inl e)"
        then show ?thesis using True j by (subst skip_loop.simps) auto
      next
        assume "\<exists>k d. skip_field dAtA (w AND 7) j depth = Returns (Inr (k, d)) \<and> (k < 0 \<or> j \<le> k) \<and> is_i64 k"
        then obtain k d where k: "skip_field dAtA (w AND 7) j depth = Returns (Inr (k, d))" "k < 0 \<or> j \<le> k" "is_i64 k" by blast
        show ?thesis
        proof (cases "k < 0 \<or> d = 0")
          case stop: True
          have "skip_loop dAtA i depth = (if k < 0 then Returns (Inl ErrInvalidLength) else Returns (Inr k))"
            using True j k stop by (subst skip_loop.simps) auto
          then show ?thesis using k j by auto
        next
          case False
          with k have "i < k" using j by simp
          moreover have "skip_loop dAtA i depth = skip_loop dAtA k d"
            using True j k False \<open>i < k\<close> by (subst skip_loop.simps) simp
          ultimately show ?thesis
            using 1(1) [OF True j(1) refl refl k(1) refl refl] False 1(2,3) by auto
        qed
      qed
    qed
  qed
qed

lemma skipCache_total:
  assumes "int (length dAtA) < 2 ^ 63"
  shows "(\<exists>e. skipCache dAtA = Returns (Inl e)) \<or> (\<exists>n. skipCache dAtA = Returns (Inr n) \<and> 0 < n \<and> is_i64 n)"
  using skip_loop_total [OF _ assms, of 0 0] by (simp add: skipCache_def)

text \<open>A field ends with an error or strictly further on, inside the bytes.\<close>

definition moves_on :: "bytes \<Rightarrow> int \<Rightarrow> (Cache \<times> int) parsed \<Rightarrow> bool" where
  "moves_on dAtA i r \<longleftrightarrow> (\<exists>e. r = Returns (Inl e)) \<or> (\<exists>m j. r = Returns (Inr (m, j)) \<and> i < j \<and> j \<le> int (length dAtA))"

lemma number_field_total: "0 \<le> i \<Longrightarrow> moves_on dAtA i (number_field f dAtA i)"
  using read_varint_total [of i dAtA 0 0] by (auto simp: number_field_def moves_on_def)

lemma content_field_total:
  assumes "0 \<le> i" "int (length dAtA) < 2 ^ 63"
  shows "moves_on dAtA i (content_field m dAtA i)"
  using read_varint_total [OF assms(1), of dAtA 0 0]
proof
  assume "\<exists>e. read_varint dAtA i 0 0 = Returns (Inl e)"
  then show ?thesis by (auto simp: content_field_def moves_on_def)
next
  assume "\<exists>v j. read_varint dAtA i 0 0 = Returns (Inr (v, j)) \<and> i < j \<and> j \<le> int (length dAtA)"
  then obtain v j where j: "read_varint dAtA i 0 0 = Returns (Inr (v, j))" "i < j" "j \<le> int (length dAtA)" by blast
  then have "is_i64 j" using assms by (simp add: is_i64_def)
  then have "sint v < 0 \<or> i64 (j + sint v) < 0 \<or> j \<le> i64 (j + sint v)"
    using i64_add_cases [of j "sint v"] is_i64_sint [of v] j(2) assms(1) by auto
  then show ?thesis using j assms(1) by (auto simp: content_field_def moves_on_def Let_def go_slice_def)
qed

lemma unknown_field_total:
  assumes "0 \<le> i" "i \<le> int (length dAtA)" "int (length dAtA) < 2 ^ 63"
  shows "moves_on dAtA i (unknown_field m dAtA i)"
proof -
  obtain rest where rest: "go_slice dAtA i (int (length dAtA)) = Inr rest"
    using assms by (simp add: go_slice_def)
  then have "int (length rest) < 2 ^ 63" using length_go_slice [OF rest] assms(1,3) by simp
  from skipCache_total [OF this] show ?thesis
  proof
    assume "\<exists>e. skipCache rest = Returns (Inl e)"
    then show ?thesis by (auto simp: unknown_field_def rest moves_on_def)
  next
    assume "\<exists>n. skipCache rest = Returns (Inr n) \<and> 0 < n \<and> is_i64 n"
    then obtain n where n: "skipCache rest = Returns (Inr n)" "0 < n" "is_i64 n" by blast
    show ?thesis
    proof (cases "i64 (i + n) < 0 \<or> int (length dAtA) < i64 (i + n)")
      case True
      then show ?thesis using n by (auto simp: unknown_field_def rest moves_on_def)
    next
      case False
      then have "i < i64 (i + n)"
        using i64_add_cases [of i n] n(2,3) assms by (auto simp: is_i64_def)
      moreover from this False obtain bs where "go_slice dAtA i (i64 (i + n)) = Inr bs"
        using assms(1) by (simp add: go_slice_def)
      ultimately show ?thesis using False n by (auto simp: unknown_field_def rest moves_on_def)
    qed
  qed
qed

lemma unmarshal_field_total:
  assumes "0 \<le> i" "i < int (length dAtA)" "int (length dAtA) < 2 ^ 63"
  shows "moves_on dAtA i (unmarshal_field m dAtA i)"
  using read_varint_total [OF assms(1), of dAtA 0 0]
proof
  assume "\<exists>e. read_varint dAtA i 0 0 = Returns (Inl e)"
  then show ?thesis by (auto simp: unmarshal_field_def moves_on_def)
next
  have trans: "moves_on dAtA i r" if "moves_on dAtA j r" "i < j" for j r
    using that by (auto simp: moves_on_def)
  assume "\<exists>v j. read_varint dAtA i 0 0 = Returns (Inr (v, j)) \<and> i < j \<and> j \<le> int (length dAtA)"
  then obtain wire j where j: "read_varint dAtA i 0 0 = Returns (Inr (wire, j))" "i < j" by blast
  then have "moves_on dAtA i (content_field m dAtA j)" "moves_on dAtA i (number_field f dAtA j)" for f
    using trans [OF content_field_total j(2)] trans [OF number_field_total j(2)] assms(1,3) by simp_all
  moreover have "moves_on dAtA i (unknown_field m dAtA i)" using unknown_field_total assms by simp
  moreover have "moves_on dAtA i (Returns (Inl e))" for e by (simp add: moves_on_def)
  ultimately show ?thesis by (simp add: unmarshal_field_def j(1) Let_def)
qed

lemma unmarshal_loop_total:
  assumes "0 \<le> i" "i \<le> int (length dAtA)" "int (length dAtA) < 2 ^ 63"
  shows "\<exists>r. unmarshal_loop m dAtA i = Returns r"
  using assms
proof (induction m dAtA i rule: unmarshal_loop.induct)
  case (1 m dAtA i)
  show ?case
  proof (cases "i < int (length dAtA)")
    case False
    then show ?thesis by (subst unmarshal_loop.simps) simp
  next
    case True
    from unmarshal_field_total [OF 1(2) this 1(4), of m] show ?thesis
      unfolding moves_on_def
    proof
      assume "\<exists>e. unmarshal_field m dAtA i = Returns (Inl e)"
      then show ?thesis using True by (subst unmarshal_loop.simps) auto
    next
      assume "\<exists>m' j. unmarshal_field m dAtA i = Returns (Inr (m', j)) \<and> i < j \<and> j \<le> int (length dAtA)"
      then obtain m' j where j: "unmarshal_field m dAtA i = Returns (Inr (m', j))" "i < j" "j \<le> int (length dAtA)" by blast
      then have "unmarshal_loop m dAtA i = unmarshal_loop m' dAtA j"
        using True by (subst unmarshal_loop.simps) simp
      then show ?thesis using 1(1) [OF True j(1) refl refl] j(2,3) 1(2,4) by auto
    qed
  qed
qed

text \<open>C19: Whatever bytes another replica sends, reading them as an entry ends, with an entry or with an error: it
  never indexes or slices out of range, and no length or nesting in them makes it wrap around or loop.\<close>

theorem Unmarshal_never_panics:
  assumes "int (length dAtA) < 2 ^ 63"
  shows "\<exists>r. Unmarshal m dAtA = Returns r"
  unfolding Unmarshal_def by (rule unmarshal_loop_total) (use assms in simp_all)

definition empty_entry :: Cache where
  "empty_entry = \<lparr>Content = [], CreatedAt = 0, ExpiresAt = 0, XXX_unrecognized = []\<rparr>"

theorem Unmarshal_never_panics_witness:
  "\<exists>r. Unmarshal empty_entry [0x22, 0xFF, 0xFF, 0xFF, 0xFF, 0xFF, 0xFF, 0xFF, 0xFF, 0x7F, 0x0A] = Returns r"
  by (rule Unmarshal_never_panics) simp

section \<open>The wire format\<close>

text \<open>A number in groups of seven bits, the lowest first, and the message as the concatenation of its fields.\<close>

function varint :: "64 word \<Rightarrow> bytes" where
  "varint v = (if 128 \<le> v then ucast (v AND 127 OR 128) # varint (drop_bit 7 v) else [ucast v])"
  by auto

termination varint
proof (relation "measure unat")
  fix v :: "64 word"
  assume "128 \<le> v"
  then have "128 \<le> unat v" by (simp add: word_le_nat_alt)
  then show "(drop_bit 7 v, v) \<in> measure unat" by (simp add: unat_drop_7)
qed simp

declare varint.simps [simp del]

definition bytes_field :: "bytes \<Rightarrow> bytes" where
  "bytes_field bs = (if bs = [] then [] else 0xa # varint (word_of_int (int (length bs))) @ bs)"

definition int_field :: "8 word \<Rightarrow> int \<Rightarrow> bytes" where
  "int_field tag n = (if n = 0 then [] else tag # varint (word_of_int n))"

definition wire_format :: "Cache \<Rightarrow> bytes" where
  "wire_format m = bytes_field (Content m) @ int_field 0x10 (CreatedAt m) @ int_field 0x18 (ExpiresAt m)
     @ XXX_unrecognized m"

text \<open>The size that is computed is the size that is written.\<close>

lemma floorlog_half: "0 < n \<Longrightarrow> floorlog 2 n = Suc (floorlog 2 (n div 2))"
  by (subst compute_floorlog) simp

lemma Len64_or_1: "Len64 (v OR 1) = Suc (floorlog 2 (unat v div 2))"
proof -
  have "unat (v OR 1) = unat v OR 1" by (simp add: unsigned_or_eq)
  also have "\<dots> = unat v + of_bool (even (unat v))" by (rule or_one_eq)
  finally have "0 < unat (v OR 1)" "unat (v OR 1) div 2 = unat v div 2" by (auto elim: oddE)
  then show ?thesis by (simp add: Len64_def floorlog_half)
qed

lemma floorlog_128: "64 \<le> n \<Longrightarrow> floorlog 2 n = 7 + floorlog 2 (n div 128)"
  by (simp add: floorlog_half div_mult2_eq [symmetric])

lemma floorlog_small: "n < 64 \<Longrightarrow> floorlog 2 n \<le> 6"
  using floorlog_leD by (simp add: floorlog_le_iff)

lemma length_varint: "int (length (varint v)) = sovCache v"
proof (induction v rule: varint.induct)
  case (1 v)
  show ?case
  proof (cases "128 \<le> v")
    case True
    then have v: "128 \<le> unat v" by (simp add: word_le_nat_alt)
    have "unat v div 2 div 128 = unat (drop_bit 7 v) div 2"
      by (simp add: unat_drop_7 div_mult2_eq [symmetric])
    then have "Len64 (v OR 1) = 7 + Len64 (drop_bit 7 v OR 1)"
      using v by (simp add: Len64_or_1 floorlog_128)
    then have "sovCache v = sovCache (drop_bit 7 v) + 1" by (simp add: sovCache_def)
    then show ?thesis using 1 True by (subst varint.simps) simp
  next
    case False
    then have "unat v div 2 < 64" by (simp add: word_le_nat_alt)
    then have "Len64 (v OR 1) \<le> 7" using floorlog_small by (simp add: Len64_or_1)
    moreover have "1 \<le> Len64 (v OR 1)" by (simp add: Len64_or_1)
    ultimately have "sovCache v = 1" by (auto simp: sovCache_def)
    then show ?thesis using False by (subst varint.simps) simp
  qed
qed

lemma Size_wire_format: "Size m = int (length (wire_format m))"
  by (simp add: Size_def wire_format_def bytes_field_def int_field_def Let_def length_varint)

section \<open>Writing\<close>

lemma go_set_at: "go_set (pre @ x # post) (int (length pre)) y = Inr (pre @ y # post)"
  by (simp add: go_set_def)

lemma put_varint_at:
  "length mid = length (varint v) \<Longrightarrow>
    put_varint (pre @ mid @ post) (int (length pre)) v = Inr (pre @ varint v @ post)"
proof (induction v arbitrary: pre mid rule: varint.induct)
  case (1 v)
  show ?case
  proof (cases "128 \<le> v")
    case True
    let ?b = "ucast (v AND 127 OR 128) :: 8 word"
    from 1(2) True obtain x mid' where mid: "mid = x # mid'" "length mid' = length (varint (drop_bit 7 v))"
      by (subst (asm) varint.simps) (auto simp: length_Suc_conv)
    have "put_varint (pre @ mid @ post) (int (length pre)) v
        = put_varint ((pre @ [?b]) @ mid' @ post) (int (length (pre @ [?b]))) (drop_bit 7 v)"
      using True by (subst put_varint.simps) (simp add: mid(1) go_set_at add.commute)
    also have "\<dots> = Inr ((pre @ [?b]) @ varint (drop_bit 7 v) @ post)" by (rule 1(1) [OF True mid(2)])
    finally show ?thesis using True by (subst varint.simps) simp
  next
    case False
    then obtain x where "mid = [x]" using 1(2) by (subst (asm) varint.simps) (auto simp: length_Suc_conv)
    then show ?thesis using False by (subst varint.simps, subst put_varint.simps) (simp add: go_set_at)
  qed
qed

text \<open>A step writes its piece in front of what is there.\<close>

definition writes :: "bytes \<Rightarrow> (bytes \<times> int \<Rightarrow> go_panic + (bytes \<times> int)) \<Rightarrow> bool" where
  "writes piece step \<longleftrightarrow> (\<forall>pre mid post. length mid = length piece \<longrightarrow>
     step (pre @ mid @ post, int (length pre + length mid)) = Inr (pre @ piece @ post, int (length pre)))"

lemma writes_byte: "writes [b] (put_byte b)"
  by (auto simp: writes_def put_byte_def length_Suc_conv go_set_at)

lemma writes_bytes: "writes src (put_bytes src)"
  by (auto simp: writes_def put_bytes_def go_copy_def Let_def)

lemma writes_number: "writes (varint v) (put_number v)"
proof -
  have "put_varint (pre @ mid @ post) (int (length pre + length mid) - sovCache v) v = Inr (pre @ varint v @ post)"
    if "length mid = length (varint v)" for pre mid post
    using put_varint_at [OF that, of pre post] that by (simp add: length_varint [symmetric])
  moreover have "int (length pre + length mid) - sovCache v = int (length pre)" if "length mid = length (varint v)" for pre mid :: bytes
    using that by (simp add: length_varint [symmetric])
  ultimately show ?thesis by (simp add: writes_def put_number_def encodeVarintCache_def Let_def)
qed

lemma chain_writes:
  assumes "list_all2 writes pieces steps" "length mid = length (concat pieces)"
  shows "chain steps (pre @ mid @ post, int (length pre + length mid))
    = Inr (pre @ concat (rev pieces) @ post, int (length pre))"
  using assms
proof (induction arbitrary: mid post rule: list_all2_induct)
  case (Cons piece pieces step steps)
  let ?k = "length mid - length piece"
  have mid: "mid = take ?k mid @ drop ?k mid" "length (drop ?k mid) = length piece"
    "length (take ?k mid) = length (concat pieces)"
    using Cons(4) by simp_all
  have "int (length pre + length mid) = int (length (pre @ take ?k mid) + length (drop ?k mid))"
    by (subst mid(1)) (simp del: append_take_drop_id)
  then have "step (pre @ mid @ post, int (length pre + length mid))
      = Inr ((pre @ take ?k mid) @ piece @ post, int (length (pre @ take ?k mid)))"
    using Cons(1) mid(2) unfolding writes_def by (metis append.assoc append_take_drop_id)
  then show ?case using Cons(3) [of "take ?k mid" "piece @ post"] mid(3) by simp
qed (simp add: list_all2_Nil)

lemma chain_marshal:
  "chain
    ((if XXX_unrecognized m \<noteq> [] then [put_bytes (XXX_unrecognized m)] else [])
     @ (if ExpiresAt m \<noteq> 0 then [put_number (word_of_int (ExpiresAt m)), put_byte 0x18] else [])
     @ (if CreatedAt m \<noteq> 0 then [put_number (word_of_int (CreatedAt m)), put_byte 0x10] else [])
     @ (if Content m \<noteq> []
        then [put_bytes (Content m), put_number (word_of_int (int (length (Content m)))), put_byte 0xa] else []))
    (replicate (length (wire_format m)) 0, int (length (wire_format m)))
   = Inr (wire_format m, 0)" (is "chain ?steps _ = _")
proof -
  let ?pieces = "(if XXX_unrecognized m \<noteq> [] then [XXX_unrecognized m] else [])
     @ (if ExpiresAt m \<noteq> 0 then [varint (word_of_int (ExpiresAt m)), [0x18]] else [])
     @ (if CreatedAt m \<noteq> 0 then [varint (word_of_int (CreatedAt m)), [0x10]] else [])
     @ (if Content m \<noteq> [] then [Content m, varint (word_of_int (int (length (Content m)))), [0xa]] else [])"
  have "list_all2 writes ?pieces ?steps"
    by (intro list_all2_appendI) (simp_all add: writes_byte writes_bytes writes_number)
  moreover have "concat (rev ?pieces) = wire_format m"
    by (simp add: wire_format_def bytes_field_def int_field_def)
  moreover from this have "length (concat ?pieces) = length (wire_format m)"
    by (metis length_concat_rev)
  ultimately show ?thesis
    using chain_writes [of ?pieces ?steps "replicate (length (wire_format m)) 0" "[]" "[]"] by simp
qed

lemma marshal_eq: "Marshal m = Inr (wire_format m)"
  by (simp add: Marshal_def MarshalToSizedBuffer_def Size_wire_format chain_marshal go_slice_def)

text \<open>C37: Writing an entry never panics, and the bytes it leaves, filled in from the back of a buffer of the computed size,
  are the fields one after the other; the computed size is exactly their length.\<close>

theorem Marshal_writes_wire_format:
  "Marshal m = Inr (wire_format m) \<and> Size m = int (length (wire_format m))"
  by (simp add: marshal_eq Size_wire_format)

section \<open>Reading back\<close>

text \<open>A value that is embedded in a buffer is read back from its place, with the index behind it.\<close>

locale embedded =
  fixes emit :: "'a \<Rightarrow> bytes" and parse :: "bytes \<Rightarrow> int \<Rightarrow> ('a \<times> int) parsed"
  assumes parse_emit: "parse (pre @ emit x @ post) (int (length pre))
    = Returns (Inr (x, int (length pre) + int (length (emit x))))"
begin

lemma parse_at: "buf = pre @ emit x @ post \<Longrightarrow> i = int (length pre) \<Longrightarrow>
    parse buf i = Returns (Inr (x, i + int (length (emit x))))"
  by (simp add: parse_emit)

lemma emit_prefix_free: "emit x @ s = emit y @ t \<Longrightarrow> x = y \<and> s = t"
  using parse_emit [of "[]" x s] parse_emit [of "[]" y t] by auto

end

lemma bit_127: "bit (127 :: int) n \<longleftrightarrow> n < 7"
proof -
  have "(127 :: int) = mask 7" by (simp add: mask_eq_exp_minus_1)
  then show ?thesis by (simp only: bit_mask_iff) simp
qed

lemma bit_128: "bit (128 :: int) n \<longleftrightarrow> n = 7"
proof -
  have "(128 :: int) = 2 ^ 7" by simp
  then show ?thesis by (simp only: bit_exp_iff) simp
qed

lemma varint_low: "ucast (ucast (v AND 127 OR 128 :: 64 word) AND (0x7F :: 8 word)) = v AND 127"
  by (rule bit_word_eqI) (auto simp: bit_simps bit_127 bit_128)

lemma varint_high: "\<not> ucast (v AND 127 OR 128 :: 64 word) < (0x80 :: 8 word)"
proof -
  have "(0x80 :: 8 word) AND ucast (v AND 127 OR 128) = 0x80"
    by (rule bit_word_eqI) (auto simp: bit_simps bit_127 bit_128)
  then show ?thesis by (metis not_le word_and_le1)
qed

lemma varint_join: "push_bit s (v AND 127) OR push_bit (s + 7) (drop_bit 7 v) = push_bit s (v :: 64 word)"
proof (rule bit_word_eqI)
  fix n assume "n < LENGTH(64)"
  show "bit (push_bit s (v AND 127) OR push_bit (s + 7) (drop_bit 7 v)) n = bit (push_bit s v) n"
  proof (cases "s + 7 \<le> n")
    case True
    then have "7 + (n - (s + 7)) = n - s" by simp
    then show ?thesis using True by (auto simp: bit_simps bit_127)
  qed (auto simp: bit_simps bit_127)
qed

lemma varint_last:
  assumes "\<not> 128 \<le> (v :: 64 word)"
  shows "(ucast v :: 8 word) < 0x80" "ucast ((ucast v :: 8 word) AND 0x7F) = v"
proof -
  have v: "unat v < 128" using assms by (simp add: word_le_nat_alt)
  then have u: "unat (ucast v :: 8 word) = unat v" by (simp add: unsigned_ucast_eq take_bit_nat_eq_self)
  then show "(ucast v :: 8 word) < 0x80" using v by (simp add: word_less_nat_alt)
  have "v = take_bit 7 v" using v by (simp add: word_unat_eq_iff unsigned_take_bit_eq take_bit_nat_eq_self)
  then have low: "n < 7" if "bit v n" for n using that by (metis bit_take_bit_iff)
  show "ucast ((ucast v :: 8 word) AND 0x7F) = v"
  proof (rule bit_word_eqI)
    fix n assume "n < LENGTH(64)"
    then show "bit (ucast ((ucast v :: 8 word) AND 0x7F) :: 64 word) n = bit v n"
      using low [of n] by (cases "bit v n") (simp_all add: bit_simps bit_127)
  qed
qed

lemma go_index_at: "go_index (pre @ x # post) (int (length pre)) = Inr x"
  by (simp add: go_index_def)

lemma read_varint_at:
  assumes "shift < 64" "unat v < 2 ^ (64 - shift)"
  shows "read_varint (pre @ varint v @ post) (int (length pre)) shift acc
    = Returns (Inr (acc OR push_bit shift v, int (length pre) + int (length (varint v))))"
  using assms
proof (induction v arbitrary: pre shift acc rule: varint.induct)
  case (1 v)
  show ?case
  proof (cases "128 \<le> v")
    case True
    then have v: "128 \<le> unat v" by (simp add: word_le_nat_alt)
    have "7 < 64 - shift"
    proof (rule ccontr)
      assume "\<not> 7 < 64 - shift"
      then have "(2 :: nat) ^ (64 - shift) \<le> 2 ^ 7" by (intro power_increasing) auto
      with 1(3) v show False by simp
    qed
    then have shift: "shift + 7 < 64" by simp
    have "(2 :: nat) ^ (64 - shift) = 2 ^ (64 - (shift + 7)) * 128"
    proof -
      have "64 - shift = (64 - (shift + 7)) + 7" using shift by simp
      then have "(2 :: nat) ^ (64 - shift) = 2 ^ (64 - (shift + 7)) * 2 ^ 7" by (metis power_add)
      then show ?thesis by simp
    qed
    then have bound: "unat (drop_bit 7 v) < 2 ^ (64 - (shift + 7))"
      using 1(3) by (simp add: unat_drop_7 less_mult_imp_div_less)
    let ?b = "ucast (v AND 127 OR 128) :: 8 word"
    have split: "varint v = ?b # varint (drop_bit 7 v)" using True by (subst varint.simps) simp
    have "read_varint (pre @ varint v @ post) (int (length pre)) shift acc
      = read_varint ((pre @ [?b]) @ varint (drop_bit 7 v) @ post) (int (length (pre @ [?b]))) (shift + 7)
          (acc OR push_bit shift (v AND 127))"
      using shift varint_high [of v] by (subst read_varint.simps) (simp add: split go_index_at varint_low Let_def add.commute)
    also have "\<dots> = Returns (Inr ((acc OR push_bit shift (v AND 127)) OR push_bit (shift + 7) (drop_bit 7 v),
        int (length (pre @ [?b])) + int (length (varint (drop_bit 7 v)))))"
      by (rule 1(1) [OF True shift bound])
    also have "(acc OR push_bit shift (v AND 127)) OR push_bit (shift + 7) (drop_bit 7 v) = acc OR push_bit shift v"
      by (simp only: or.assoc varint_join)
    finally show ?thesis by (simp add: split)
  next
    case False
    then have "varint v = [ucast v]" by (subst varint.simps) simp
    then show ?thesis
      using 1(2) varint_last [OF False] by (subst read_varint.simps) (simp add: go_index_at Let_def)
  qed
qed

interpretation number: embedded varint "\<lambda>dAtA i. read_varint dAtA i 0 0"
proof
  fix pre :: bytes and v post
  show "read_varint (pre @ varint v @ post) (int (length pre)) 0 0
    = Returns (Inr (v, int (length pre) + int (length (varint v))))"
    using read_varint_at [of 0 v pre post 0] unsigned_less [of v] by simp
qed

text \<open>The fields, each read back behind its tag.\<close>

lemma tag_varint: "b < 128 \<Longrightarrow> varint (ucast (b :: 8 word)) = [b]"
proof -
  assume b: "b < 128"
  then have "unat b < 128" by (simp add: word_less_nat_alt)
  then have "\<not> 128 \<le> (ucast b :: 64 word)"
    by (simp add: word_le_nat_alt unsigned_ucast_eq take_bit_nat_eq_self)
  moreover have "ucast (ucast b :: 64 word) = b" by (rule bit_word_eqI) (simp add: bit_simps)
  ultimately show ?thesis by (subst varint.simps) simp
qed

lemma read_tag:
  "read_varint (pre @ 0xa # s) (int (length pre)) 0 0 = Returns (Inr (10, int (length pre) + 1))"
  "read_varint (pre @ 0x10 # s) (int (length pre)) 0 0 = Returns (Inr (16, int (length pre) + 1))"
  "read_varint (pre @ 0x18 # s) (int (length pre)) 0 0 = Returns (Inr (24, int (length pre) + 1))"
  using number.parse_emit [where pre = pre and x = 10 and post = s] number.parse_emit [where pre = pre and x = 16 and post = s]
    number.parse_emit [where pre = pre and x = 24 and post = s]
    tag_varint [of "0xa"] tag_varint [of "0x10"] tag_varint [of "0x18"] by simp_all

lemma sint_word_of_int: "is_i64 n \<Longrightarrow> sint (word_of_int n :: 64 word) = n"
  by (simp add: signed_of_int signed_take_bit_int_eq_self is_i64_def)

lemma content_field_at:
  assumes "bs \<noteq> []" "int (length (pre @ bytes_field bs @ post)) < 2 ^ 63"
  shows "unmarshal_field m (pre @ bytes_field bs @ post) (int (length pre))
    = Returns (Inr (m\<lparr>Content := bs\<rparr>, int (length pre) + int (length (bytes_field bs))))"
proof -
  define k where "k = (word_of_int (int (length bs)) :: 64 word)"
  have field: "bytes_field bs = 0xa # varint k @ bs" using assms(1) unfolding bytes_field_def k_def by simp
  let ?buf = "pre @ bytes_field bs @ post"
  have buf: "?buf = (pre @ [0xa]) @ varint k @ (bs @ post)" by (simp add: field)
  let ?i = "int (length pre) + 1 + int (length (varint k))"
  have len: "length ?buf = length pre + 1 + length (varint k) + length bs + length post" unfolding buf by simp
  have number: "read_varint ?buf (int (length pre) + 1) 0 0 = Returns (Inr (k, ?i))"
    by (rule number.parse_at [OF buf]) simp
  have n: "sint k = int (length bs)"
    using assms(2) len unfolding k_def by (intro sint_word_of_int) (simp add: is_i64_def)
  have "i64 (?i + int (length bs)) = ?i + int (length bs)"
    using assms(2) len by (intro i64_id) (simp add: is_i64_def)
  moreover have "go_slice ?buf ?i (?i + int (length bs)) = Inr bs"
    unfolding buf by (simp add: go_slice_def nat_add_distrib)
  ultimately have "content_field m ?buf (int (length pre) + 1) = Returns (Inr (m\<lparr>Content := bs\<rparr>, ?i + int (length bs)))"
    using len by (simp add: content_field_def number n Let_def)
  moreover have "read_varint ?buf (int (length pre)) 0 0 = Returns (Inr (10, int (length pre) + 1))"
    using read_tag(1) [of pre "varint k @ bs @ post"] by (simp add: buf)
  ultimately show ?thesis
    by (simp add: unmarshal_field_def) (simp add: field)
qed

lemma int_field_at:
  assumes "n \<noteq> 0" "is_i64 n"
  shows "unmarshal_field m (pre @ int_field 0x10 n @ post) (int (length pre))
      = Returns (Inr (m\<lparr>CreatedAt := n\<rparr>, int (length pre) + int (length (int_field 0x10 n))))"
    "unmarshal_field m (pre @ int_field 0x18 n @ post) (int (length pre))
      = Returns (Inr (m\<lparr>ExpiresAt := n\<rparr>, int (length pre) + int (length (int_field 0x18 n))))"
proof -
  have buf: "pre @ int_field t n @ post = (pre @ [t]) @ varint (word_of_int n) @ post" for t
    using assms(1) by (simp add: int_field_def)
  have "sint (word_of_int n :: 64 word) = n"
    using assms(2) by (rule sint_word_of_int)
  then have field: "number_field f (pre @ int_field t n @ post) (int (length pre) + 1)
      = Returns (Inr (f n, int (length pre) + int (length (int_field t n))))" for f t
    using number.parse_at [OF buf [of t], of "int (length pre) + 1"] assms(1) by (simp add: number_field_def int_field_def)
  have tags: "read_varint (pre @ int_field 0x10 n @ post) (int (length pre)) 0 0 = Returns (Inr (16, int (length pre) + 1))"
    "read_varint (pre @ int_field 0x18 n @ post) (int (length pre)) 0 0 = Returns (Inr (24, int (length pre) + 1))"
    using read_tag(2,3) [of pre "varint (word_of_int n) @ post"] by (simp_all add: buf)
  show "unmarshal_field m (pre @ int_field 0x10 n @ post) (int (length pre))
      = Returns (Inr (m\<lparr>CreatedAt := n\<rparr>, int (length pre) + int (length (int_field 0x10 n))))"
    by (simp add: unmarshal_field_def tags field)
  show "unmarshal_field m (pre @ int_field 0x18 n @ post) (int (length pre))
      = Returns (Inr (m\<lparr>ExpiresAt := n\<rparr>, int (length pre) + int (length (int_field 0x18 n))))"
    by (simp add: unmarshal_field_def tags field)
qed

lemma loop_step:
  assumes "unmarshal_field m (pre @ f @ post) (int (length pre)) = Returns (Inr (m', int (length pre) + int (length f)))"
    and "f \<noteq> []"
  shows "unmarshal_loop m (pre @ f @ post) (int (length pre)) = unmarshal_loop m' (pre @ f @ post) (int (length (pre @ f)))"
proof -
  have "0 < int (length f) + int (length post)" using assms(2) by (simp add: add_pos_nonneg)
  then show ?thesis using assms by (subst unmarshal_loop.simps) simp
qed

lemma varint_short: "length (varint v) \<le> 10"
proof -
  have "unat v < 2 ^ 64" using unsigned_less [of v, where 'a = nat] by simp
  then have "unat v div 2 < 2 ^ 63" by simp
  then have "floorlog 2 (unat v div 2) \<le> 63" by (simp add: floorlog_le_iff)
  then have "sovCache v \<le> 10" by (simp add: sovCache_def Len64_or_1)
  then show ?thesis using length_varint [of v] by simp
qed

text \<open>A field that is left out is zero already.\<close>

lemma loop_content:
  assumes "int (length (pre @ bytes_field bs @ post)) < 2 ^ 63"
  shows "unmarshal_loop m (pre @ bytes_field bs @ post) (int (length pre))
    = unmarshal_loop (if bs = [] then m else m\<lparr>Content := bs\<rparr>) (pre @ bytes_field bs @ post) (int (length (pre @ bytes_field bs)))"
proof (cases "bs = []")
  case False
  then have "bytes_field bs \<noteq> []" by (simp add: bytes_field_def)
  from loop_step [OF content_field_at [OF False assms] this] False show ?thesis by simp
qed (simp add: bytes_field_def)

lemma loop_number:
  assumes "is_i64 n"
  shows "unmarshal_loop m (pre @ int_field 0x10 n @ post) (int (length pre))
      = unmarshal_loop (if n = 0 then m else m\<lparr>CreatedAt := n\<rparr>) (pre @ int_field 0x10 n @ post) (int (length (pre @ int_field 0x10 n)))"
    "unmarshal_loop m (pre @ int_field 0x18 n @ post) (int (length pre))
      = unmarshal_loop (if n = 0 then m else m\<lparr>ExpiresAt := n\<rparr>) (pre @ int_field 0x18 n @ post) (int (length (pre @ int_field 0x18 n)))"
proof -
  have ne: "n \<noteq> 0 \<Longrightarrow> int_field t n \<noteq> []" for t by (simp add: int_field_def)
  show "unmarshal_loop m (pre @ int_field 0x10 n @ post) (int (length pre))
      = unmarshal_loop (if n = 0 then m else m\<lparr>CreatedAt := n\<rparr>) (pre @ int_field 0x10 n @ post) (int (length (pre @ int_field 0x10 n)))"
    using loop_step [OF int_field_at(1) [OF _ assms] ne] by (cases "n = 0") (simp_all add: int_field_def [where n = 0])
  show "unmarshal_loop m (pre @ int_field 0x18 n @ post) (int (length pre))
      = unmarshal_loop (if n = 0 then m else m\<lparr>ExpiresAt := n\<rparr>) (pre @ int_field 0x18 n @ post) (int (length (pre @ int_field 0x18 n)))"
    using loop_step [OF int_field_at(2) [OF _ assms] ne] by (cases "n = 0") (simp_all add: int_field_def [where n = 0])
qed

lemma unmarshal_marshal:
  assumes "Marshal c = Inr bs" "int (length bs) < 2 ^ 63" "is_i64 (CreatedAt c)" "is_i64 (ExpiresAt c)"
    and "XXX_unrecognized c = []"
  shows "Unmarshal empty_entry bs = Returns (Inr c)"
proof -
  let ?p = "bytes_field (Content c)" and ?q = "int_field 0x10 (CreatedAt c)" and ?r = "int_field 0x18 (ExpiresAt c)"
  have bs: "bs = [] @ ?p @ (?q @ ?r)" "bs = ?p @ ?q @ ?r" "bs = (?p @ ?q) @ ?r @ []"
    using assms(1,5) by (simp_all add: marshal_eq wire_format_def)
  let ?m1 = "if Content c = [] then empty_entry else empty_entry\<lparr>Content := Content c\<rparr>"
  let ?m2 = "if CreatedAt c = 0 then ?m1 else ?m1\<lparr>CreatedAt := CreatedAt c\<rparr>"
  let ?m3 = "if ExpiresAt c = 0 then ?m2 else ?m2\<lparr>ExpiresAt := ExpiresAt c\<rparr>"
  have "Unmarshal empty_entry bs = unmarshal_loop ?m1 bs (int (length ?p))"
    using loop_content [of "[]" "Content c" "?q @ ?r" empty_entry] assms(2) by (simp add: Unmarshal_def bs(2))
  also have "\<dots> = unmarshal_loop ?m2 bs (int (length (?p @ ?q)))"
    unfolding bs(2) by (rule loop_number(1) [OF assms(3)])
  also have "\<dots> = unmarshal_loop ?m3 bs (int (length ((?p @ ?q) @ ?r)))"
    unfolding bs(3) by (rule loop_number(2) [OF assms(4)])
  also have "\<dots> = Returns (Inr ?m3)"
    by (subst unmarshal_loop.simps) (simp add: bs(2))
  also have "?m3 = c"
    using assms(5) by (simp add: empty_entry_def)
  finally show ?thesis .
qed

text \<open>C20: What one replica writes, another reads: an entry of the exporter's making comes back field by field,
  whatever its content and its times, zeros and negative times included.\<close>

theorem Unmarshal_Marshal:
  assumes "Marshal c = Inr bs" "int (length bs) < 2 ^ 63" "is_i64 (CreatedAt c)" "is_i64 (ExpiresAt c)"
    and "XXX_unrecognized c = []"
  shows "Unmarshal empty_entry bs = Returns (Inr c)"
  by (rule unmarshal_marshal [OF assms])

theorem Unmarshal_Marshal_witness:
  "\<exists>bs. Marshal \<lparr>Content = [7, 200], CreatedAt = 300, ExpiresAt = -1, XXX_unrecognized = []\<rparr> = Inr bs
    \<and> Unmarshal empty_entry bs = Returns (Inr \<lparr>Content = [7, 200], CreatedAt = 300, ExpiresAt = -1, XXX_unrecognized = []\<rparr>)"
proof -
  let ?c = "\<lparr>Content = [7, 200], CreatedAt = 300, ExpiresAt = -1, XXX_unrecognized = []\<rparr>"
  have eq: "Marshal ?c = Inr (wire_format ?c)" by (rule marshal_eq)
  have "int (length (wire_format ?c)) < 2 ^ 63"
    using varint_short [of 2] varint_short [of 300] varint_short [of "-1"]
    by (simp add: wire_format_def bytes_field_def int_field_def)
  from Unmarshal_Marshal [OF eq this] eq show ?thesis by (simp add: is_i64_def)
qed

end
