(* ===== verification/Cluster.thy ===== *)
theory Cluster
  imports Collector CacheWire
begin

text \<open>
  The cluster as a whole (host_collector.go and hostfact_collector.go: \<open>updateKV\<close>; cache_codec.go):
  any number of replicas, each with its own copy of the store, whose scrapes send entries that the
  gossip delivers to anyone, in any order, late, repeatedly or never. A step relation over the
  replicas' stores and the messages sent so far; the history of what was scraped is kept beside
  them, to say where an entry comes from.
\<close>

section \<open>Messages\<close>

text \<open>The framing of dskit's codec around the bytes of an entry (snappy) is a parameter.\<close>

record framing =
  snappy_encode :: "bytes \<Rightarrow> bytes"
  snappy_decode :: "bytes \<Rightarrow> bytes option"

definition framing_ok :: "framing \<Rightarrow> bool" where
  "framing_ok fr \<longleftrightarrow> (\<forall>b. snappy_decode fr (snappy_encode fr b) = Some b)"

text \<open>The codec's id, and its two directions; \<open>None\<close> is an error.\<close>

definition cacheCodec :: string where
  "cacheCodec = ''cacheProtoCodec''"

definition Encode :: "framing \<Rightarrow> Cache \<Rightarrow> bytes option" where
  "Encode fr c = (case Marshal c of Inr bs \<Rightarrow> Some (snappy_encode fr bs) | Inl _ \<Rightarrow> None)"

definition Decode :: "framing \<Rightarrow> bytes \<Rightarrow> Cache option" where
  "Decode fr val =
     (case snappy_decode fr val of
        None \<Rightarrow> None
      | Some bs \<Rightarrow> (case Unmarshal empty_entry bs of Returns (Inr c) \<Rightarrow> Some c | _ \<Rightarrow> None))"

record KeyValuePair =
  kv_Key :: string
  kv_Value :: bytes
  kv_Codec :: string

text \<open>What \<open>updateKV\<close> sends for an entry, in each of the two collectors; nothing if it cannot be encoded.\<close>

definition host_updateKV :: "framing \<Rightarrow> Cache \<Rightarrow> KeyValuePair option" where
  "host_updateKV fr cache =
     (case Encode fr cache of
        None \<Rightarrow> None
      | Some val \<Rightarrow> Some \<lparr>kv_Key = hostsKey, kv_Value = val, kv_Codec = cacheCodec\<rparr>)"

definition fact_updateKV :: "framing \<Rightarrow> Cache \<Rightarrow> KeyValuePair option" where
  "fact_updateKV fr cache =
     (case Encode fr cache of
        None \<Rightarrow> None
      | Some val \<Rightarrow> Some \<lparr>kv_Key = hostsFactsKey, kv_Value = val, kv_Codec = cacheCodec\<rparr>)"

text \<open>A replica takes a message in: its own, by \<open>NotifyMsg\<close>, or one that the gossip delivers.\<close>

definition take_in :: "framing \<Rightarrow> KeyValuePair \<Rightarrow> (string \<rightharpoonup> Cache) \<Rightarrow> (string \<rightharpoonup> Cache)" where
  "take_in fr m store =
     (if kv_Codec m \<noteq> cacheCodec then store
      else case Decode fr (kv_Value m) of
             None \<Rightarrow> store
           | Some new \<Rightarrow> store(kv_Key m \<mapsto> (case store (kv_Key m) of None \<Rightarrow> new | Some old \<Rightarrow> receive new old)))"

section \<open>The steps\<close>

text \<open>What was scraped: the key, the data, the entry they were stored as, and whether anything was missing.\<close>

type_synonym scraped = "string \<times> labels list \<times> Cache \<times> bool"

record cluster =
  stores :: "(string \<rightharpoonup> Cache) list"
  sent :: "KeyValuePair set"
  got :: "KeyValuePair set list"
  history :: "scraped set"

definition init_cluster :: "nat \<Rightarrow> cluster" where
  "init_cluster n = \<lparr>stores = replicate n Map.empty, sent = {}, got = replicate n {}, history = {}\<rparr>"

definition put_in :: "framing \<Rightarrow> nat \<Rightarrow> KeyValuePair \<Rightarrow> cluster \<Rightarrow> cluster" where
  "put_in fr i m s =
     s\<lparr>stores := (stores s)[i := take_in fr m (stores s ! i)], got := (got s)[i := insert m (got s ! i)]\<rparr>"

definition send_all :: "KeyValuePair \<Rightarrow> scraped \<Rightarrow> cluster \<Rightarrow> cluster" where
  "send_all m h s = s\<lparr>sent := insert m (sent s), history := insert h (history s)\<rparr>"

text \<open>The times of an entry are \<open>int64\<close>, and its bytes fit the memory.\<close>

definition sendable :: "Cache \<Rightarrow> bool" where
  "sendable c \<longleftrightarrow> is_i64 (CreatedAt c) \<and> is_i64 (ExpiresAt c) \<and> int (length (wire_format c)) < 2 ^ 63"

text \<open>
  Any replica may scrape at any time, with any clock and any answer of foreman (which of them do is
  the ring's choice); if the scrape updates the cache, the replica takes its own message in and sends it.
\<close>

inductive cluster_step :: "framing \<Rightarrow> collector \<Rightarrow> collector \<Rightarrow> regex \<Rightarrow> regex \<Rightarrow> codec \<Rightarrow> cluster \<Rightarrow> cluster \<Rightarrow> bool"
  for fr hc fc inc exc cd where
  hosts: "i < length (stores s) \<Longrightarrow> host_scrape hc inc exc cd e answer = (data, bad, Some (KVNotify entry)) \<Longrightarrow>
    sendable entry \<Longrightarrow> host_updateKV fr entry = Some m \<Longrightarrow>
    cluster_step fr hc fc inc exc cd s (put_in fr i m (send_all m (hostsKey, data, entry, bad) s))"
| facts: "i < length (stores s) \<Longrightarrow> fact_scrape fc cd e answer' = (data, bad, Some (KVNotify entry)) \<Longrightarrow>
    sendable entry \<Longrightarrow> fact_updateKV fr entry = Some m \<Longrightarrow>
    cluster_step fr hc fc inc exc cd s (put_in fr i m (send_all m (hostsFactsKey, data, entry, bad) s))"
| deliver: "i < length (stores s) \<Longrightarrow> m \<in> sent s \<Longrightarrow> cluster_step fr hc fc inc exc cd s (put_in fr i m s)"

inductive cluster_reach :: "framing \<Rightarrow> collector \<Rightarrow> collector \<Rightarrow> regex \<Rightarrow> regex \<Rightarrow> codec \<Rightarrow> nat \<Rightarrow> cluster \<Rightarrow> bool"
  for fr hc fc inc exc cd n where
  start: "cluster_reach fr hc fc inc exc cd n (init_cluster n)"
| step: "cluster_reach fr hc fc inc exc cd n s \<Longrightarrow> cluster_step fr hc fc inc exc cd s t \<Longrightarrow>
    cluster_reach fr hc fc inc exc cd n t"

section \<open>What a replica knows\<close>

text \<open>The entries of a key among messages.\<close>

definition entries :: "framing \<Rightarrow> string \<Rightarrow> KeyValuePair set \<Rightarrow> Cache set" where
  "entries fr key ms = {c. \<exists>m \<in> ms. kv_Key m = key \<and> kv_Codec m = cacheCodec \<and> Decode fr (kv_Value m) = Some c}"

text \<open>The last writer wins: a replica holds a newest one of the entries it got, if it got any.\<close>

definition newest_of :: "Cache set \<Rightarrow> Cache option \<Rightarrow> bool" where
  "newest_of es held \<longleftrightarrow>
     (case held of None \<Rightarrow> es = {} | Some c \<Rightarrow> c \<in> es \<and> (\<forall>e \<in> es. CreatedAt e \<le> CreatedAt c))"

lemma entries_insert:
  "entries fr key (insert m ms) = entries fr key ms
     \<union> (if kv_Key m = key \<and> kv_Codec m = cacheCodec then set_option (Decode fr (kv_Value m)) else {})"
  by (auto simp: entries_def)

lemma newest_of_receive:
  assumes "newest_of es held"
  shows "newest_of (insert new es) (Some (case held of None \<Rightarrow> new | Some old \<Rightarrow> receive new old))"
  using assms by (cases held) (auto simp: newest_of_def receive_eq)

lemma take_in_newest:
  assumes "\<And>key. newest_of (entries fr key ms) (store key)"
  shows "newest_of (entries fr key (insert m ms)) (take_in fr m store key)"
proof (cases "kv_Codec m = cacheCodec \<and> kv_Key m = key")
  case False
  then have "take_in fr m store key = store key" by (auto simp: take_in_def split: option.split)
  with False assms [of key] show ?thesis by (auto simp: entries_insert)
next
  case True
  then show ?thesis
    using assms [of key] newest_of_receive [OF assms [of key]]
    by (cases "Decode fr (kv_Value m)") (auto simp: entries_insert take_in_def)
qed

lemma decode_encode:
  assumes "framing_ok fr" "sendable c" "XXX_unrecognized c = []"
  shows "\<exists>val. Encode fr c = Some val \<and> Decode fr val = Some c"
  using assms unmarshal_marshal [OF marshal_eq, of c]
  by (simp add: Encode_def Decode_def marshal_eq framing_ok_def sendable_def)

section \<open>The invariant\<close>

text \<open>A scrape of the history was one that the code made, and its entry holds its data.\<close>

definition scraped_ok :: "collector \<Rightarrow> collector \<Rightarrow> regex \<Rightarrow> regex \<Rightarrow> codec \<Rightarrow> scraped \<Rightarrow> bool" where
  "scraped_ok hc fc inc exc cd h \<longleftrightarrow>
     (case h of (key, data, entry, bad) \<Rightarrow>
        key = hostsKey \<and> (\<exists>e answer. host_scrape hc inc exc cd e answer = (data, bad, Some (KVNotify entry)))
        \<or> key = hostsFactsKey \<and> (\<exists>e answer'. fact_scrape fc cd e answer' = (data, bad, Some (KVNotify entry))))"

definition message_of :: "framing \<Rightarrow> KeyValuePair \<Rightarrow> scraped \<Rightarrow> bool" where
  "message_of fr m h \<longleftrightarrow>
     (case h of (key, data, entry, bad) \<Rightarrow>
        kv_Key m = key \<and> kv_Codec m = cacheCodec \<and> Decode fr (kv_Value m) = Some entry)"

definition cluster_inv :: "framing \<Rightarrow> collector \<Rightarrow> collector \<Rightarrow> regex \<Rightarrow> regex \<Rightarrow> codec \<Rightarrow> nat \<Rightarrow> cluster \<Rightarrow> bool" where
  "cluster_inv fr hc fc inc exc cd n s \<longleftrightarrow>
     length (stores s) = n \<and> length (got s) = n
     \<and> (\<forall>i < n. got s ! i \<subseteq> sent s \<and> (\<forall>key. newest_of (entries fr key (got s ! i)) ((stores s ! i) key)))
     \<and> (\<forall>m \<in> sent s. \<exists>h \<in> history s. message_of fr m h)
     \<and> (\<forall>h \<in> history s. (\<exists>m \<in> sent s. message_of fr m h) \<and> scraped_ok hc fc inc exc cd h)"

lemma cluster_inv_init: "cluster_inv fr hc fc inc exc cd n (init_cluster n)"
  by (simp add: cluster_inv_def init_cluster_def newest_of_def entries_def)

lemma put_in_inv:
  assumes "cluster_inv fr hc fc inc exc cd n s" "m \<in> sent s" "i < length (stores s)"
  shows "cluster_inv fr hc fc inc exc cd n (put_in fr i m s)"
proof -
  have i: "i < n" "length (stores s) = n" "length (got s) = n" using assms(1,3) by (simp_all add: cluster_inv_def)
  have "got (put_in fr i m s) ! j \<subseteq> sent s \<and> (\<forall>key. newest_of (entries fr key (got (put_in fr i m s) ! j)) ((stores (put_in fr i m s) ! j) key))"
    if "j < n" for j
  proof (cases "j = i")
    case True
    then show ?thesis
      using assms(1,2) i by (auto simp: put_in_def cluster_inv_def intro!: take_in_newest)
  next
    case False
    then show ?thesis using assms(1) that by (simp add: put_in_def cluster_inv_def)
  qed
  then show ?thesis using assms(1) i by (simp add: cluster_inv_def) (simp add: put_in_def)
qed

lemma send_all_inv:
  assumes "cluster_inv fr hc fc inc exc cd n s" "message_of fr m h" "scraped_ok hc fc inc exc cd h"
  shows "cluster_inv fr hc fc inc exc cd n (send_all m h s)"
  using assms unfolding cluster_inv_def send_all_def by (auto 0 3)

lemma host_scrape_entry:
  assumes "host_scrape hc inc exc cd e answer = (data, bad, Some (KVNotify entry))"
  shows "XXX_unrecognized entry = []" "CreatedAt entry = now e" "ExpiresAt entry = now e + ExpiresTTL (CacheConfig hc)"
    "Content entry = (if Compression (CacheConfig hc) then zstd_encode cd (json_marshal cd data) else json_marshal cd data)"
    "data = map (\<lambda>h. filter_host_labels inc exc (host_labels h)) (fst answer)" "snd answer = None" "\<not> bad"
  using assms by (auto simp: host_scrape_def update_cache_def updateKV_def Let_def split: if_splits)

lemma fact_scrape_entry:
  assumes "fact_scrape fc cd e answer = (data, bad, Some (KVNotify entry))"
  shows "XXX_unrecognized entry = []" "CreatedAt entry = now e" "ExpiresAt entry = now e + ExpiresTTL (CacheConfig fc)"
    "Content entry = (if Compression (CacheConfig fc) then zstd_encode cd (json_marshal cd data) else json_marshal cd data)"
    "data = map (\<lambda>(h, m). fact_labels h m) (fst answer)" "snd answer = None \<or> CacheOnPartial fc" "bad \<longleftrightarrow> snd answer \<noteq> None"
  using assms by (auto simp: fact_scrape_def update_cache_def updateKV_def Let_def split: if_splits)

lemma sent_message:
  assumes "framing_ok fr" "sendable entry" "XXX_unrecognized entry = []"
    and "host_updateKV fr entry = Some m \<and> key = hostsKey \<or> fact_updateKV fr entry = Some m \<and> key = hostsFactsKey"
  shows "message_of fr m (key, data, entry, bad)"
  using decode_encode [OF assms(1-3)] assms(4)
  by (auto simp: message_of_def host_updateKV_def fact_updateKV_def split: option.splits)

lemma cluster_step_inv:
  assumes "cluster_step fr hc fc inc exc cd s t" "framing_ok fr" "cluster_inv fr hc fc inc exc cd n s"
  shows "cluster_inv fr hc fc inc exc cd n t"
  using assms(1)
proof (cases rule: cluster_step.cases)
  case (hosts i e answer data bad entry m)
  have "message_of fr m (hostsKey, data, entry, bad)"
    by (rule sent_message [OF assms(2) hosts(4) host_scrape_entry(1) [OF hosts(3)]]) (use hosts(5) in blast)
  moreover have "scraped_ok hc fc inc exc cd (hostsKey, data, entry, bad)"
    unfolding scraped_ok_def prod.case using hosts(3) by blast
  ultimately have inv: "cluster_inv fr hc fc inc exc cd n (send_all m (hostsKey, data, entry, bad) s)"
    by (rule send_all_inv [OF assms(3)])
  then show ?thesis
    unfolding hosts(1) by (rule put_in_inv) (simp_all add: send_all_def hosts(2))
next
  case (facts i e answer data bad entry m)
  have "message_of fr m (hostsFactsKey, data, entry, bad)"
    by (rule sent_message [OF assms(2) facts(4) fact_scrape_entry(1) [OF facts(3)]]) (use facts(5) in blast)
  moreover have "scraped_ok hc fc inc exc cd (hostsFactsKey, data, entry, bad)"
    unfolding scraped_ok_def prod.case using facts(3) by blast
  ultimately have inv: "cluster_inv fr hc fc inc exc cd n (send_all m (hostsFactsKey, data, entry, bad) s)"
    by (rule send_all_inv [OF assms(3)])
  then show ?thesis
    unfolding facts(1) by (rule put_in_inv) (simp_all add: send_all_def facts(2))
next
  case (deliver i m)
  then show ?thesis using put_in_inv [OF assms(3)] by simp
qed

lemma cluster_reach_inv:
  "cluster_reach fr hc fc inc exc cd n s \<Longrightarrow> framing_ok fr \<Longrightarrow> cluster_inv fr hc fc inc exc cd n s"
  by (induction rule: cluster_reach.induct) (auto intro: cluster_inv_init cluster_step_inv)

lemma cluster_invD:
  assumes "cluster_inv fr hc fc inc exc cd n s"
  shows "length (stores s) = n" "i < n \<Longrightarrow> got s ! i \<subseteq> sent s"
    "i < n \<Longrightarrow> newest_of (entries fr key (got s ! i)) ((stores s ! i) key)"
    "m \<in> sent s \<Longrightarrow> \<exists>h \<in> history s. message_of fr m h"
    "h \<in> history s \<Longrightarrow> \<exists>m \<in> sent s. message_of fr m h"
    "h \<in> history s \<Longrightarrow> scraped_ok hc fc inc exc cd h"
  using assms by (simp_all add: cluster_inv_def)

lemma entries_sent:
  assumes "cluster_inv fr hc fc inc exc cd n s"
  shows "c \<in> entries fr key (sent s) \<longleftrightarrow> (\<exists>data bad. (key, data, c, bad) \<in> history s)"
proof
  assume "c \<in> entries fr key (sent s)"
  then obtain m where m: "m \<in> sent s" "kv_Key m = key" "Decode fr (kv_Value m) = Some c" by (auto simp: entries_def)
  from cluster_invD(4) [OF assms m(1)] obtain h where "h \<in> history s" "message_of fr m h" by blast
  then show "\<exists>data bad. (key, data, c, bad) \<in> history s" using m by (cases h) (auto simp: message_of_def)
next
  assume "\<exists>data bad. (key, data, c, bad) \<in> history s"
  then obtain data bad where "(key, data, c, bad) \<in> history s" by blast
  from cluster_invD(5) [OF assms this] obtain m where "m \<in> sent s" "message_of fr m (key, data, c, bad)" by blast
  then show "c \<in> entries fr key (sent s)" by (auto simp: entries_def message_of_def)
qed

lemma held_scraped:
  assumes "cluster_inv fr hc fc inc exc cd n s" "i < n" "(stores s ! i) key = Some entry"
  shows "\<exists>data bad. (key, data, entry, bad) \<in> history s"
proof -
  have "entry \<in> entries fr key (got s ! i)"
    using cluster_invD(3) [OF assms(1,2), of key] assms(3) by (simp add: newest_of_def)
  moreover have "entries fr key (got s ! i) \<subseteq> entries fr key (sent s)"
    using cluster_invD(2) [OF assms(1,2)] by (auto simp: entries_def)
  ultimately show ?thesis using entries_sent [OF assms(1)] by blast
qed

section \<open>Properties\<close>

text \<open>C3: What any replica reads from the cluster's cache is what some replica scraped, whole and unmixed: if a
  replica finds a list of hosts, it is the complete list of one scrape that foreman answered without an
  error, with the labels of that scrape, and it counts as found exactly until the time to live of that
  scrape is over; whatever the replicas did, and in whatever order the gossip delivered, repeated or
  lost what they sent. No fact ever ends up among the hosts.\<close>

theorem cluster_serves_whole_lists:
  assumes "cluster_reach fr hc fc inc exc cd n s" "framing_ok fr" "\<forall>h \<in> history s. codec_ok cd (fst (snd h))"
    and "i < n" "kv_entry env = (stores s ! i) hostsKey" "ring_enabled c" "UseCache c" "CacheConfig c = CacheConfig hc"
    and "read_cache hostsKey c cd env = Inr (found, expired, data)" "data \<noteq> []"
  shows "\<exists>e hosts entry. host_scrape hc inc exc cd e (hosts, None) = (data, False, Some (KVNotify entry))
    \<and> (hostsKey, data, entry, False) \<in> history s \<and> (stores s ! i) hostsKey = Some entry
    \<and> data = map (\<lambda>h. filter_host_labels inc exc (host_labels h)) hosts
    \<and> (found \<longleftrightarrow> now env \<le> now e + ExpiresTTL (CacheConfig hc)) \<and> (expired \<longleftrightarrow> \<not> found)"
proof -
  have inv: "cluster_inv fr hc fc inc exc cd n s" using assms(1,2) by (rule cluster_reach_inv)
  have read: "read_kv c cd env = Inr (found, expired, data)" "kv_entry env \<noteq> None"
    using assms(6,7,9,10) by (auto simp: read_cache_def read_kv_def split: sum.splits if_splits option.splits)
  then obtain entry where entry: "kv_entry env = Some entry" "(stores s ! i) hostsKey = Some entry" using assms(5) by auto
  obtain d bad where h: "(hostsKey, d, entry, bad) \<in> history s" using held_scraped [OF inv assms(4) entry(2)] by blast
  have "hostsKey \<noteq> hostsFactsKey" by (simp add: hostsKey_def hostsFactsKey_def)
  then obtain e answer where scrape: "host_scrape hc inc exc cd e answer = (d, bad, Some (KVNotify entry))"
    using cluster_invD(6) [OF inv h] by (auto simp: scraped_ok_def)
  note made = host_scrape_entry [OF scrape]
  have "codec_ok cd d" using bspec [OF assms(3) h] by simp
  then have "d = data" "found \<longleftrightarrow> now env \<le> now e + ExpiresTTL (CacheConfig hc)" "expired \<longleftrightarrow> \<not> found"
    using read(1) entry(1) made(3,4) assms(8) by (auto simp: read_kv_def codec_ok_def Let_def split: if_splits)
  then show ?thesis
    using scrape made(5-7) h entry(2) by (intro exI [of _ e] exI [of _ "fst answer"] exI [of _ entry]) (cases answer; simp)
qed

text \<open>C23: Replicas converge, whatever they scraped and however the gossip went: two replicas that got everything
  that was sent hold the same entry under a key, the newest that any of them scraped, as long as no two
  different entries of the key have the same time; and both hold one if anything was scraped.\<close>

theorem cluster_converges:
  assumes "cluster_reach fr hc fc inc exc cd n s" "framing_ok fr" "i < n" "j < n"
    and "sent s \<subseteq> got s ! i" "sent s \<subseteq> got s ! j"
    and "\<And>d b entry d' b' entry'. (key, d, entry, b) \<in> history s \<Longrightarrow> (key, d', entry', b') \<in> history s \<Longrightarrow>
           CreatedAt entry = CreatedAt entry' \<Longrightarrow> entry = entry'"
  shows "(stores s ! i) key = (stores s ! j) key
    \<and> (\<forall>d entry b. (key, d, entry, b) \<in> history s \<longrightarrow>
         (\<exists>newest. (stores s ! i) key = Some newest \<and> CreatedAt entry \<le> CreatedAt newest))
    \<and> (\<forall>newest. (stores s ! i) key = Some newest \<longrightarrow> (\<exists>d b. (key, d, newest, b) \<in> history s))"
proof -
  have inv: "cluster_inv fr hc fc inc exc cd n s" using assms(1,2) by (rule cluster_reach_inv)
  have "got s ! i = sent s" "got s ! j = sent s" using cluster_invD(2) [OF inv] assms(3-6) by blast+
  then have held: "newest_of (entries fr key (sent s)) ((stores s ! i) key)" "newest_of (entries fr key (sent s)) ((stores s ! j) key)"
    using cluster_invD(3) [OF inv assms(3), of key] cluster_invD(3) [OF inv assms(4), of key] by simp_all
  have "(stores s ! i) key = (stores s ! j) key"
  proof (cases "(stores s ! i) key")
    case None
    with held show ?thesis by (auto simp: newest_of_def split: option.splits)
  next
    case (Some a)
    then obtain b where b: "(stores s ! j) key = Some b"
      using held by (auto simp: newest_of_def split: option.splits)
    have ab: "a \<in> entries fr key (sent s)" "b \<in> entries fr key (sent s)" "CreatedAt a = CreatedAt b"
      using held Some b by (auto simp: newest_of_def intro: antisym)
    obtain d1 b1 where 1: "(key, d1, a, b1) \<in> history s" using ab(1) unfolding entries_sent [OF inv] by blast
    obtain d2 b2 where 2: "(key, d2, b, b2) \<in> history s" using ab(2) unfolding entries_sent [OF inv] by blast
    have "a = b" by (rule assms(7) [OF 1 2 ab(3)])
    then show ?thesis using Some b by simp
  qed
  moreover have "\<exists>newest. (stores s ! i) key = Some newest \<and> CreatedAt entry \<le> CreatedAt newest"
    if "(key, d, entry, b) \<in> history s" for d entry b
  proof -
    have "entry \<in> entries fr key (sent s)" using that entries_sent [OF inv] by blast
    then show ?thesis using held(1) by (auto simp: newest_of_def split: option.splits)
  qed
  ultimately show ?thesis using held_scraped [OF inv assms(3)] by blast
qed

lemma take_in_newer:
  assumes "store key = Some a"
  shows "\<exists>b. take_in fr m store key = Some b \<and> CreatedAt a \<le> CreatedAt b"
  using assms by (auto simp: take_in_def receive_eq split: option.split)

lemma put_in_newer:
  assumes "i < length (stores s)" "(stores s ! i) key = Some a"
  shows "\<exists>b. (stores (put_in fr j m s) ! i) key = Some b \<and> CreatedAt a \<le> CreatedAt b"
  using assms take_in_newer [of "stores s ! i" key a fr m] by (cases "i = j") (auto simp: put_in_def)

lemma cluster_step_newer:
  assumes "cluster_step fr hc fc inc exc cd s t" "i < length (stores s)" "(stores s ! i) key = Some a"
  shows "length (stores t) = length (stores s) \<and> (\<exists>b. (stores t ! i) key = Some b \<and> CreatedAt a \<le> CreatedAt b)"
  using assms(1)
proof (cases rule: cluster_step.cases)
  case (hosts k e answer data bad entry m)
  then show ?thesis
    using put_in_newer [of i "send_all m (hostsKey, data, entry, bad) s" key a fr k m] assms(2,3)
    by (simp add: send_all_def) (simp add: put_in_def)
next
  case (facts k e answer data bad entry m)
  then show ?thesis
    using put_in_newer [of i "send_all m (hostsFactsKey, data, entry, bad) s" key a fr k m] assms(2,3)
    by (simp add: send_all_def) (simp add: put_in_def)
next
  case (deliver k m)
  then show ?thesis
    using put_in_newer [of i s key a fr k m] assms(2,3) by simp (simp add: put_in_def)
qed

text \<open>No replica ever goes back in time: along every run, what it holds under a key is never replaced by
  something older, nor lost.\<close>

theorem reads_never_go_back:
  assumes "(cluster_step fr hc fc inc exc cd)\<^sup>*\<^sup>* s t" "i < length (stores s)" "(stores s ! i) key = Some a"
  shows "i < length (stores t) \<and> (\<exists>b. (stores t ! i) key = Some b \<and> CreatedAt a \<le> CreatedAt b)"
  using assms(1)
proof (induction rule: rtranclp_induct)
  case base
  then show ?case using assms(2,3) by blast
next
  case (step t u)
  then obtain b where "i < length (stores t)" "(stores t ! i) key = Some b" "CreatedAt a \<le> CreatedAt b" by blast
  with cluster_step_newer [OF step.hyps(2)] show ?case by (metis order_trans)
qed

section \<open>An example\<close>

text \<open>Two replicas: the first scrapes a host, the second gets the message.\<close>

definition ring_collector :: collector where
  "ring_collector = example_collector\<lparr>ring_enabled := True\<rparr>"

definition ring_codec :: codec where
  "ring_codec = example_codec\<lparr>json_unmarshal := \<lambda>_. Some [[(''name'', [])]]\<rparr>"

definition plain_framing :: framing where
  "plain_framing = \<lparr>snappy_encode = \<lambda>b. b, snappy_decode = Some\<rparr>"

definition one_entry :: Cache where
  "one_entry = \<lparr>Content = [1], CreatedAt = 1000, ExpiresAt = 1100, XXX_unrecognized = []\<rparr>"

definition one_message :: KeyValuePair where
  "one_message = \<lparr>kv_Key = hostsKey, kv_Value = wire_format one_entry, kv_Codec = cacheCodec\<rparr>"

definition one_scrape :: scraped where
  "one_scrape = (hostsKey, [[(''name'', [])]], one_entry, False)"

definition scraped_cluster :: cluster where
  "scraped_cluster = put_in plain_framing 0 one_message (send_all one_message one_scrape (init_cluster 2))"

definition told_cluster :: cluster where
  "told_cluster = put_in plain_framing 1 one_message scraped_cluster"

lemma plain_framing_ok: "framing_ok plain_framing"
  by (simp add: framing_ok_def plain_framing_def)

lemma one_entry_sendable: "sendable one_entry"
  using varint_short [of 1] varint_short [of 1000] varint_short [of 1100]
  by (simp add: sendable_def one_entry_def wire_format_def bytes_field_def int_field_def is_i64_def)

lemma one_host_scrape:
  "host_scrape ring_collector None None ring_codec example_env ([zero_Host], None)
    = ([[(''name'', [])]], False, Some (KVNotify one_entry))"
proof -
  have "filter_host_labels None None (host_labels zero_Host) = [(''name'', [])]"
    by (simp add: host_labels_def optional_labels_def filter_host_labels_def drop_label_def zero_Host_def)
  then show ?thesis
    by (simp add: host_scrape_def update_cache_def updateKV_def Let_def)
      (simp add: ring_collector_def example_collector_def ring_codec_def example_codec_def example_env_def one_entry_def)
qed

lemma one_host_message: "host_updateKV plain_framing one_entry = Some one_message"
  by (simp add: host_updateKV_def Encode_def marshal_eq plain_framing_def one_message_def)

lemma example_reach:
  "cluster_reach plain_framing ring_collector ring_collector None None ring_codec 2 told_cluster"
  "cluster_step plain_framing ring_collector ring_collector None None ring_codec scraped_cluster told_cluster"
proof -
  have "cluster_step plain_framing ring_collector ring_collector None None ring_codec (init_cluster 2) scraped_cluster"
    unfolding scraped_cluster_def one_scrape_def
    by (rule cluster_step.hosts [OF _ one_host_scrape one_entry_sendable one_host_message]) (simp add: init_cluster_def)
  with cluster_reach.start have s: "cluster_reach plain_framing ring_collector ring_collector None None ring_codec 2 scraped_cluster"
    by (rule cluster_reach.step)
  show t: "cluster_step plain_framing ring_collector ring_collector None None ring_codec scraped_cluster told_cluster"
    unfolding told_cluster_def
    by (rule cluster_step.deliver) (simp_all add: scraped_cluster_def put_in_def send_all_def init_cluster_def)
  from s t show "cluster_reach plain_framing ring_collector ring_collector None None ring_codec 2 told_cluster"
    by (rule cluster_reach.step)
qed

lemma example_stores:
  "(stores scraped_cluster ! 0) hostsKey = Some one_entry" "(stores told_cluster ! 0) hostsKey = Some one_entry"
  "(stores told_cluster ! 1) hostsKey = Some one_entry"
  "length (stores scraped_cluster) = 2" "history told_cluster = {one_scrape}" "sent told_cluster = {one_message}"
  "got told_cluster = [{one_message}, {one_message}]"
proof -
  have "Decode plain_framing (wire_format one_entry) = Some one_entry"
    using decode_encode [OF plain_framing_ok one_entry_sendable]
    by (simp add: one_entry_def Encode_def marshal_eq plain_framing_def)
  then have "take_in plain_framing one_message Map.empty = [hostsKey \<mapsto> one_entry]"
    by (simp add: take_in_def one_message_def)
  then show "(stores scraped_cluster ! 0) hostsKey = Some one_entry" "(stores told_cluster ! 0) hostsKey = Some one_entry"
    "(stores told_cluster ! 1) hostsKey = Some one_entry"
    "length (stores scraped_cluster) = 2" "history told_cluster = {one_scrape}" "sent told_cluster = {one_message}"
    "got told_cluster = [{one_message}, {one_message}]"
    by (simp_all add: told_cluster_def scraped_cluster_def put_in_def send_all_def init_cluster_def numeral_2_eq_2)
qed

theorem cluster_serves_whole_lists_witness:
  "\<exists>e hosts entry. host_scrape ring_collector None None ring_codec e (hosts, None) = ([[(''name'', [])]], False, Some (KVNotify entry))
    \<and> (hostsKey, [[(''name'', [])]], entry, False) \<in> history told_cluster"
proof -
  let ?env = "example_env\<lparr>leader := Inr True, kv_entry := Some one_entry\<rparr>"
  have read: "read_cache hostsKey ring_collector ring_codec ?env = Inr (True, False, [[(''name'', [])]])"
    by (simp add: read_cache_def read_kv_def Let_def)
      (simp add: ring_collector_def example_collector_def ring_codec_def example_codec_def example_env_def one_entry_def)
  have codec: "\<forall>h \<in> history told_cluster. codec_ok ring_codec (fst (snd h))"
    by (simp add: example_stores one_scrape_def codec_ok_def ring_codec_def) (simp add: example_codec_def)
  have kv: "kv_entry ?env = (stores told_cluster ! 1) hostsKey" by (simp add: example_stores [simplified])
  have on: "ring_enabled ring_collector" "UseCache ring_collector"
    by (simp_all add: ring_collector_def example_collector_def)
  from cluster_serves_whole_lists [OF example_reach(1) plain_framing_ok codec _ kv on refl read] show ?thesis by simp blast
qed

theorem cluster_converges_witness:
  "\<exists>newest. (stores told_cluster ! 0) hostsKey = Some newest \<and> (stores told_cluster ! 1) hostsKey = Some newest \<and> 1000 \<le> CreatedAt newest"
  using cluster_converges [OF example_reach(1) plain_framing_ok, of 0 1 hostsKey]
  by (auto simp: example_stores [simplified] one_scrape_def) (simp add: one_entry_def)

theorem reads_never_go_back_witness:
  "\<exists>b. (stores told_cluster ! 0) hostsKey = Some b \<and> CreatedAt one_entry \<le> CreatedAt b"
  using reads_never_go_back [OF r_into_rtranclp [where r = "cluster_step plain_framing ring_collector ring_collector None None ring_codec",
      OF example_reach(2)], of 0 hostsKey one_entry]
  by (simp add: example_stores [simplified])

end
