(* ===== verification/SlogGoKit.thy ===== *)
theory SlogGoKit
  imports Prelude
begin

text \<open>
  The adapter from go-kit's key/value logging to slog (slog_gokit.go). A logged value is a string,
  one of go-kit's level values (with its name), or something else. go-kit's level key is the
  parameter \<open>level_key\<close>.
\<close>

datatype logged = VString string | VLevel string | VOther nat

datatype slog_level = LevelDebug | LevelInfo | LevelWarn | LevelError

definition gokitLevel :: "logged \<Rightarrow> slog_level" where
  "gokitLevel val =
     (case val of
        VLevel v \<Rightarrow>
          (if v = ''debug'' then LevelDebug
           else if v = ''warn'' then LevelWarn
           else if v = ''error'' then LevelError
           else LevelInfo)
      | _ \<Rightarrow> LevelInfo)"

text \<open>The loop over the pairs, with the level, the message and the attributes so far; a last key without a value is not visited.\<close>

fun log_pairs :: "logged \<Rightarrow> logged list \<Rightarrow> slog_level \<times> string \<times> logged list \<Rightarrow> slog_level \<times> string \<times> logged list" where
  "log_pairs level_key (key # val # rest) (lvl, msg, attrs) =
     log_pairs level_key rest
       (if key = level_key then (gokitLevel val, msg, attrs)
        else if key = VString ''msg''
        then (case val of VString m \<Rightarrow> (lvl, m, attrs) | _ \<Rightarrow> (lvl, msg, attrs @ [key, val]))
        else (lvl, msg, attrs @ [key, val]))"
| "log_pairs level_key _ acc = acc"

definition Log :: "logged \<Rightarrow> logged list \<Rightarrow> slog_level \<times> string \<times> logged list" where
  "Log level_key keyvals = log_pairs level_key keyvals (LevelInfo, [], [])"

section \<open>What is forwarded\<close>

fun pairs :: "'a list \<Rightarrow> ('a \<times> 'a) list" where
  "pairs (k # v # rest) = (k, v) # pairs rest"
| "pairs _ = []"

definition is_level :: "logged \<Rightarrow> logged \<times> logged \<Rightarrow> bool" where
  "is_level level_key kv \<longleftrightarrow> fst kv = level_key"

definition is_msg :: "logged \<Rightarrow> logged \<times> logged \<Rightarrow> bool" where
  "is_msg level_key kv \<longleftrightarrow> fst kv \<noteq> level_key \<and> fst kv = VString ''msg'' \<and> (\<exists>m. snd kv = VString m)"

definition text_of :: "logged \<Rightarrow> string" where
  "text_of v = (case v of VString m \<Rightarrow> m | _ \<Rightarrow> [])"

fun flatten :: "('a \<times> 'a) list \<Rightarrow> 'a list" where
  "flatten [] = []"
| "flatten ((k, v) # kvs) = k # v # flatten kvs"

lemma flatten_append [simp]: "flatten (xs @ ys) = flatten xs @ flatten ys"
  by (induction xs) auto

lemma pairs_flatten [simp]: "pairs (flatten kvs) = kvs"
  by (induction kvs) auto

lemma log_pairs_eq:
  "log_pairs level_key keyvals (lvl, msg, attrs) =
     (last (lvl # map (gokitLevel \<circ> snd) (filter (is_level level_key) (pairs keyvals))),
      last (msg # map (text_of \<circ> snd) (filter (is_msg level_key) (pairs keyvals))),
      attrs @ flatten (filter (\<lambda>kv. \<not> is_level level_key kv \<and> \<not> is_msg level_key kv) (pairs keyvals)))"
proof (induction keyvals arbitrary: lvl msg attrs rule: pairs.induct)
  case (1 k v rest)
  then show ?case
    by (cases v) (auto simp: is_level_def is_msg_def text_of_def)
qed simp_all

text \<open>A go-kit log line reaches slog whole: its level is that of the last level pair, or info; its message
  the last "msg" that is a string, or empty; and every other pair is an attribute, in its order,
  a "msg" that is no string among them. Only a last key without a value is lost.\<close>

theorem Log_forwards:
  "Log level_key keyvals =
     (last (LevelInfo # map (gokitLevel \<circ> snd) (filter (is_level level_key) (pairs keyvals))),
      last ([] # map (text_of \<circ> snd) (filter (is_msg level_key) (pairs keyvals))),
      flatten (filter (\<lambda>kv. \<not> is_level level_key kv \<and> \<not> is_msg level_key kv) (pairs keyvals)))"
  by (simp add: Log_def log_pairs_eq)

theorem Log_forwards_witness:
  "Log (VString ''level'') [VString ''level'', VLevel ''warn'', VString ''msg'', VString ''m'', VString ''k'', VOther 3, VString ''odd'']
    = (LevelWarn, ''m'', [VString ''k'', VOther 3])"
  unfolding Log_forwards by (simp add: is_level_def is_msg_def text_of_def gokitLevel_def)

section \<open>The logger of the HTTP client\<close>

text \<open>
  \<open>LeveledLogrus\<close> (foreman/foreman.go) turns the keys and values of retryablehttp's log calls into
  logrus' fields: a later value of a key replaces an earlier one, a last key without a value is left
  out, and a key that is not a string makes the type assertion panic.
\<close>

fun fields_from :: "logged list \<Rightarrow> (string, logged) gomap \<Rightarrow> (string, logged) gomap outcome" where
  "fields_from (key # val # rest) m =
     (case key of VString k \<Rightarrow> fields_from rest (AList.update k val m) | _ \<Rightarrow> Panics BadTypeAssertion)"
| "fields_from _ m = Returns m"

definition fields :: "logged list \<Rightarrow> (string, logged) gomap outcome" where
  "fields keysAndValues = fields_from keysAndValues []"

datatype logrus_level = LogrusError | LogrusInfo | LogrusDebug | LogrusWarn

text \<open>A log call: its level, its message and its fields.\<close>

definition leveled :: "logrus_level \<Rightarrow> string \<Rightarrow> logged list \<Rightarrow> (logrus_level \<times> string \<times> (string, logged) gomap) outcome" where
  "leveled lvl msg keysAndValues = bind_outcome (fields keysAndValues) (\<lambda>fs. Returns (lvl, msg, fs))"

definition string_key :: "logged \<times> logged \<Rightarrow> bool" where
  "string_key kv \<longleftrightarrow> (\<exists>k. fst kv = VString k)"

definition keyed :: "logged \<times> logged \<Rightarrow> string \<times> logged" where
  "keyed kv = (text_of (fst kv), snd kv)"

lemma fields_from_eq:
  "fields_from kvs m = (if list_all string_key (pairs kvs) then Returns (map_store_all m (map keyed (pairs kvs)))
     else Panics BadTypeAssertion)"
proof (induction kvs m rule: fields_from.induct)
  case (1 key val rest m)
  have "keyed (VString k, val) = (k, val)" for k by (simp add: keyed_def text_of_def)
  with 1 show ?case by (cases key) (simp_all add: string_key_def)
qed simp_all

text \<open>A log call of the HTTP client never panics if its keys are strings, and panics otherwise; its fields are then
  the pairs, the last value of each key, and a last key without a value is dropped.\<close>

theorem fields_of_pairs:
  "fields kvs = (if list_all string_key (pairs kvs) then Returns (map_store_all [] (map keyed (pairs kvs))) else Panics BadTypeAssertion)
    \<and> (\<forall>fs. fields kvs = Returns fs \<longrightarrow> map_of fs k = map_of (rev (map keyed (pairs kvs))) k)"
proof -
  have last_wins: "map_of (map_store_all m kvs) = map_of m ++ map_of (rev kvs)" for m and kvs :: "(string, logged) gomap"
    by (induction m kvs rule: map_store_all.induct) (auto simp: fun_eq_iff map_add_def update_conv' split: option.split)
  show ?thesis by (simp add: fields_def fields_from_eq last_wins)
qed

theorem fields_of_pairs_witness:
  "\<exists>fs. fields [VString ''url'', VOther 1, VString ''url'', VOther 2, VString ''retry''] = Returns fs
    \<and> map_of fs ''url'' = Some (VOther 2)"
  using fields_of_pairs [of "[VString ''url'', VOther 1, VString ''url'', VOther 2, VString ''retry'']" "''url''"]
  by (simp add: string_key_def keyed_def text_of_def)

end
