(* ===== verification/Spec2Isabelle.thy ===== *)
theory Spec2Isabelle
  imports ScrapeSystem HostList FactExport MainConfig Cluster SlogGoKit
begin

text \<open>
  A verification library for foreman_exporter, a Prometheus exporter that lists the hosts of a
  Foreman server and their facts and exports them as metrics.

  The program. The flags (src/main.go) set up a Foreman client, up to two collectors and, if
  asked for, a ring of replicas. A request (src/handlers.go) makes a collector scrape: the host
  collector and the fact collector (src/host_collector.go, src/hostfact_collector.go) ask the
  ring whether they lead, read their cache, and otherwise call the client of package
  \<open>foreman\<close> in a goroutine that races with the deadline. The client lists the hosts in pages,
  several pages at once, and collects facts either in bulk (batches of host ids, each one search
  whose answer is paged) or by one request per host. What it returns is a value together with an
  error that says what is missing; the collector exports the value and caches it if it is whole,
  in the process (src/memcache) or in the ring's replicated store (src/cache_codec.go).

  The model. Each theory models a part of the code, with the names of the code:

  \<^item> Prelude: panics and outcomes, 64-bit wrap-around, slices, maps; the contracts (locales)
    for folds whose order the scheduler picks, for filters of map entries and for keyed stores.
  \<^item> GoStrings: decimal integers, \<open>strings.Join\<close>, \<open>Split\<close> and \<open>TrimSpace\<close>, query escaping, with
    the round trip of \<open>FormatInt\<close> and \<open>Atoi\<close>, and \<open>Duration.String\<close>. GoFloat: the rounding of \<open>float64\<close> quotients.
  \<^item> ForemanTypes: the types of src/foreman/foreman.go; each error string is a constructor
    with its arguments.
  \<^item> ForemanHttp: the JSON decoding of the envelopes, \<open>DoWithContext\<close>, \<open>GetHosts\<close>,
    \<open>GetHostFacts\<close>, \<open>GetFactValues\<close>. The network, with the retries below the client, is the
    parameter \<open>tr\<close>, a function from requests to answers.
  \<^item> FactSearch (src/foreman/factvalues.go): the search of a batch and the split of the
    host list into batches.
  \<^item> FactBatch (factvalues.go): the page loop of a batch and the filter of fact names.
  \<^item> FanOut (foreman.go): the goroutines that a semaphore bounds, as a step relation, and
    the two operations built on them.
  \<^item> FactBulk (factvalues.go): the bulk collection, a fold over the batches in the order
    they complete.
  \<^item> HostList (foreman.go): page counts, the host list of each collector, and
    \<open>GetHostsFactsFiltered\<close>, which puts everything together.
  \<^item> ClientSetup (foreman.go, src/foreman/ratelimit.go): \<open>Retry-After\<close> and its cap, the rate
    limiter, the connection pool with its TLS setting, \<open>NewHTTPClient\<close>.
  \<^item> Metrics (the variables of every file of src/ that declare metrics): their kinds and labels, the
    registries they are put into, and what a call on one does; a call that does not fit panics.
  \<^item> Labels (both collectors): the labels of a host's status and of its facts.
  \<^item> MemCache (src/memcache/memcache.go) and ClusterCache (cache_codec.go, the type of
    cache.pb.go): the two caches; an entry that replicas gossip is merged by its time.
    CacheWire (cache.pb.go): how an entry is written to bytes and read from them. Cluster: replicas
    that scrape, store, gossip and read the entries (\<open>updateKV\<close> of both collectors and
    cache_codec.go), as a step relation.
  \<^item> Collector (both collectors): \<open>Collect\<close>, given what the request and its goroutine see of
    each other (\<open>race\<close>). ScrapeLock: the goroutines of concurrent requests, the lock they
    share and the deadlines, as a step relation, which says what \<open>race\<close> can be. FactExport: from
    what the client collected to the samples of a request. ScrapeSystem: the statements of any number
    of requests and their goroutines over one lock, one in-process cache and one clock, with the
    variable and the channels each pair shares; it is proved to refine ScrapeLock and Collector.
  \<^item> Ring (src/ring.go): joining the ring, its leader, the role an instance reports.
  \<^item> Handlers (handlers.go): the parameters of a scrape request, the ring's status with links
    to its members, the groups of the index page. StatusPages (handlers.go): what the index page
    is given and the JSON of the status page.
  \<^item> MainConfig (main.go): from the flags to the client, the collectors, the caches and the
    index page; the start, with the metrics it registers, the paths it serves and what \<open>ServeMux\<close>
    makes of them, for telemetry paths that are literal (without a method, a host or a wildcard) or
    have no slash. SlogGoKit
    (src/slog_gokit.go, and \<open>LeveledLogrus\<close> of foreman.go): the logging adapters.

  What the lemmas show. A batch against a server that pages as documented collects exactly the
  server's rows; two different selections never give the same search; the batches partition the hosts
  and fit the URL budget; no interleaving of the
  goroutines loses a result or changes what is returned; an error says exactly what was lost,
  and a host is exported with all its facts or not at all; together, an honest server's database
  is exported exactly, from the flags to the samples, and a partial export is always flagged. A collector caches only what is whole, serves it until its time to live is
  over and an expired value only on request (with the exceptions that are proved as such); at
  most one scrape queries foreman at a time under the lock, and concurrent scrapes answer every request
  even when the client never returns, unless a send to a closed channel ends the process. In every interleaving of requests the in-process cache holds all of one error-free answer of foreman,
  and so does the replicated cache in every reachable state of a cluster. What a replica writes to the wire is read back by the others, and no bytes make the reading
  panic. Replicas that gossip entries in any order agree on the newest, which a new leader goes on to serve; one replica of a ring leads and
  exports, and no other one does unless a request bypasses the cache. The process starts, with every
  metric registered once and every path served, unless the ring cannot be joined or the telemetry path is
  one of its own or none; it never
  uses a cache that its flags did not allocate, no call on a metric panics, and the status page can be
  read back in full.

  Order and time. What a scheduler or a map iteration chooses is an argument of the model (the
  order in which items complete, the steps of the goroutines, the result of \<open>sort.Slice\<close> on
  equal elements), and the theorems hold for every choice. Elapsed times are recorded in the
  list of metrics without a value; the clock is an argument.

  Bounds. There is no fuel: every loop is a function with a termination proof (the page loop's
  measure is the number of pages left; the split's is the number of hosts left; a run of the
  fan-out's goroutines has at most three steps per item, one of concurrent scrapes at most six
  per request).

  Parameters, for code outside the repository: the network below the client, retryablehttp's
  backoff, the token bucket, cleanhttp's pool defaults, dskit's ring and services, zstd and the snappy
  framing of a stored entry, the JSON encoding of the cached labels, the HTML template of the index page, the
  names of the metrics and the patterns that libraries register, which labels the Prometheus client accepts, \<open>ParseFloat\<close> and
  the HTTP date parser.

  Not modelled: what scoped_search makes of a search, telemetry paths with a method, a host, a wildcard or
  an escape in them, the log messages and the logger's set-up, the TLS handshake, the help texts of metrics
  and the values of their observations, the parsing of flags, the HTTP server, \<open>promhttp\<close>, the HTML
  templates with the static assets and the memberlist page, which only hand on to them, the protobuf
  registration of cache entries, and memory exhaustion.
\<close>

section \<open>The fact collection from end to end\<close>

lemma splitHosts_total:
  assumes "batch_size c + int (length hosts) < 2 ^ 63"
  obtains bs where "splitHosts c hosts = Inr bs" "concat bs = hosts"
  using split_from_correct [of 0 hosts c] assms by (auto simp: splitHosts_def)

text \<open>An honest foreman's database is collected.\<close>

lemma collection_honest:
  assumes "BulkFacts c" "1 \<le> Concurrency c" "Limit c = 0"
    and "serves_list c tr first hs" "mset arr1 = mset [0..<rest_pages c first hs]"
    and "batch_size c + int (length hs) < 2 ^ 63" "splitHosts c hs = Inr batches" "distinct (map Name hs)"
    and "\<forall>b \<in> set batches. serves_batch c tr db (e b) b" "mset arr2 = mset [0..<length batches]"
  shows "\<exists>F ms. GetHostsFactsFiltered c tr arr1 arr2 = Returns ((F, None), ms) \<and> wf_hosts_facts F
    \<and> (\<forall>h. map_of F h = None \<longleftrightarrow> h \<notin> Name ` set hs \<or> h \<notin> fst ` fst ` set db)
    \<and> (\<forall>h k. fact_at F (h, k) =
         (case map_of db (h, k) of None \<Rightarrow> None
          | Some v \<Rightarrow> if h \<in> Name ` set hs \<and> fact_kept c k v then Some v else None))"
proof -
  obtain ms1 where list: "list_hosts c tr arr1 = Returns (Inr hs, ms1)"
    using list_hosts_honest [OF assms(2-5)] by blast
  have "concat batches = hs"
    using splitHosts_total [OF assms(6)] assms(7) by fastforce
  from bulk_honest [OF assms(7) this assms(8-10)] obtain F ms where
    bulk: "getHostsFactsBulk c tr hs arr2 = Returns ((F, None), ms)" and facts:
    "\<forall>h. map_of F h = None \<longleftrightarrow> h \<notin> Name ` set hs \<or> h \<notin> fst ` fst ` set db"
    "\<forall>h k. fact_at F (h, k) =
         (case map_of db (h, k) of None \<Rightarrow> None
          | Some v \<Rightarrow> if h \<in> Name ` set hs \<and> fact_kept c k v then Some v else None)" by blast
  have "GetHostsFactsFiltered c tr arr1 arr2
      = Returns ((F, None), ms1 @ [SetElapsed ''hostListDurationMetric''] @ ms)"
    using list bulk assms(1) by (simp add: GetHostsFactsFiltered_def)
  with facts getHostsFactsBulk_wf [OF bulk] show ?thesis by blast
qed

text \<open>C2: The fact collection is complete. If the foreman lists the hosts \<open>hs\<close> in pages and answers every
  batch's search with the batch's rows of its database, as it documents, and no two hosts have the
  same name, then, whatever page sizes it applies, in whatever order the pages and the batches
  complete and however the hosts were split into batches, the collector exports exactly the
  database's facts of these hosts that the filter keeps, and reports no error.\<close>

theorem fact_collection_complete:
  assumes "BulkFacts c" "1 \<le> Concurrency c" "Limit c = 0"
    and "serves_list c tr first hs" "mset arr1 = mset [0..<rest_pages c first hs]"
    and "batch_size c + int (length hs) < 2 ^ 63" "splitHosts c hs = Inr batches" "distinct (map Name hs)"
    and "\<forall>b \<in> set batches. serves_batch c tr db (e b) b" "mset arr2 = mset [0..<length batches]"
  shows "\<exists>F ms. GetHostsFactsFiltered c tr arr1 arr2 = Returns ((F, None), ms)
    \<and> (\<forall>h. map_of F h = None \<longleftrightarrow> h \<notin> Name ` set hs \<or> h \<notin> fst ` fst ` set db)
    \<and> (\<forall>h k. fact_at F (h, k) =
         (case map_of db (h, k) of None \<Rightarrow> None
          | Some v \<Rightarrow> if h \<in> Name ` set hs \<and> fact_kept c k v then Some v else None))"
  using collection_honest [OF assms] by blast

text \<open>A foreman of two hosts, listed one to a page whatever is asked for, and of three facts, for the example.\<close>

definition small_page :: "Host list \<Rightarrow> string + http_response" where
  "small_page hs = Inr \<lparr>StatusCode = 200, Body = Inr \<lparr>body_text = [], body_json = Some (JObj
     [(''subtotal'', JInt 2), (''page'', JInt 1), (''per_page'', JInt 1),
      (''results'', JArr (map (\<lambda>h. JObj [(''id'', JInt (ID h)), (''name'', JStr (Name h))]) hs))])\<rparr>\<rparr>"

definition small_foreman :: transport where
  "small_foreman r =
     (if req_path r = ''api/v2/hosts''
      then small_page (if take 6 (req_query r) = ''page=1'' then take 1 two_hosts else drop 1 two_hosts)
      else two_page_server r)"

definition small_answer :: "int \<Rightarrow> HostResponse" where
  "small_answer k = \<lparr>Total = 0, Subtotal = Some 2, Page = 1, PerPage = 1,
     Results = (if k = 1 then [example_host 7 ''a''] else [example_host 9 ''b''])\<rparr>"

lemma small_client: "Search two_page_client = []" "Limit two_page_client = 0" "HostListPerPage two_page_client = 5000"
  "BulkFacts two_page_client" "Concurrency two_page_client = 4" "batch_size two_page_client = 20"
  by (simp_all add: two_page_client_def default_client_def batch_size_def i64_def)

lemma small_answers:
  "fst (GetHosts two_page_client small_foreman ''true'' 1 p) = Inr (small_answer 1)"
  "fst (GetHosts two_page_client small_foreman ''true'' 2 p) = Inr (small_answer 2)"
  by (simp_all add: eval_host_page small_client small_foreman_def small_page_def small_answer_def Values_Encode_thin
      FormatInt_def decimal.simps QueryEscape_def escape_byte_def unreserved_def example_host_def zero_Host_def)

lemma small_facts: "GetFactValues c small_foreman search page perPage = GetFactValues c two_page_server search page perPage"
  by (simp add: GetFactValues_def DoWithContext_def newJSONRequest_def small_foreman_def)

lemma small_list:
  "serves_list two_page_client small_foreman (small_answer 1) two_hosts"
  "rest_pages two_page_client (small_answer 1) two_hosts = 1"
proof -
  have applied: "applied_per_page two_page_client (small_answer 1) = 1"
    by (simp add: applied_per_page_def small_answer_def)
  have pages: "[1..ceil_div 2 1] = [1, 2]" "ceil_div 2 1 = 2" "max 1 (ceil_div 2 1) = ceil_div 2 1"
    by (simp_all add: ceil_div_def upto.simps)
  show "serves_list two_page_client small_foreman (small_answer 1) two_hosts"
    by (simp add: serves_list_def applied pages two_pages serves_pages_def small_answers host_page_def)
      (simp add: small_answer_def expectedHosts_def)
  show "rest_pages two_page_client (small_answer 1) two_hosts = 1"
    by (simp add: rest_pages_def applied pages)
qed

lemma small_served: "\<forall>b \<in> set [two_hosts]. serves_batch two_page_client small_foreman two_page_rows 2 b"
proof -
  have rows: "rows_of two_page_rows two_hosts = two_page_rows"
    by (simp add: rows_of_def two_page_rows_def)
  show ?thesis
    using two_page_serves by (simp add: serves_batch_def rows small_facts) (simp add: two_page_rows_def two_page_limits)
qed

theorem fact_collection_complete_witness:
  "\<exists>F ms. GetHostsFactsFiltered two_page_client small_foreman [0] [0] = Returns ((F, None), ms)
    \<and> fact_at F (''b'', ''k'') = Some ''3'' \<and> fact_at F (''a'', ''x'') = None"
proof -
  have "\<exists>F ms. GetHostsFactsFiltered two_page_client small_foreman [0] [0] = Returns ((F, None), ms)
    \<and> (\<forall>h. map_of F h = None \<longleftrightarrow> h \<notin> Name ` set two_hosts \<or> h \<notin> fst ` fst ` set two_page_rows)
    \<and> (\<forall>h k. fact_at F (h, k) = (case map_of two_page_rows (h, k) of None \<Rightarrow> None
         | Some v \<Rightarrow> if h \<in> Name ` set two_hosts \<and> fact_kept two_page_client k v then Some v else None))"
    by (rule fact_collection_complete [OF _ _ _ small_list(1) _ _ two_hosts_split _ small_served])
      (simp_all add: small_client small_list(2))
  then obtain F ms where "GetHostsFactsFiltered two_page_client small_foreman [0] [0] = Returns ((F, None), ms)"
    and facts: "\<And>h k. fact_at F (h, k) = (case map_of two_page_rows (h, k) of None \<Rightarrow> None
         | Some v \<Rightarrow> if h \<in> Name ` set two_hosts \<and> fact_kept two_page_client k v then Some v else None)"
    by blast
  moreover have "fact_kept two_page_client ''k'' ''3''"
    by (simp add: fact_kept_def two_page_client_def default_client_def)
  ultimately show ?thesis
    by (auto simp: two_page_rows_def)
qed

section \<open>From the flags to the exported facts\<close>

lemma hostFactHandler_Scrape:
  "hostFactHandler ParseFloat req c = Scrape c' \<Longrightarrow> CacheConfig c' = CacheConfig c \<and> ring_enabled c' = ring_enabled c"
  by (auto simp: hostFactHandler_def cache_parameter_def Let_def split: if_splits option.splits response.splits)

lemma uncached_facts_read:
  assumes "main_setup sv kvc url user password fl = Inr ex" "ex_fact ex = Some c"
    and "\<not> ringEnabled fl" "\<not> cacheEnabled fl" "\<not> collectorHostFactCacheEnabled fl"
    and "hostFactHandler ParseFloat req c = Scrape c'"
  shows "read_cache hostsFactsKey c' cd e = Inr (False, False, [])"
proof -
  have "c = fact_collector fl False"
    using assms(2,3) unfolding main_setup_Inr(4) [OF assms(1)] by (simp split: if_splits)
  then have "\<not> ring_enabled c'" "\<not> Enabled (CacheConfig c')"
    using hostFactHandler_Scrape [OF assms(6)] assms(4,5) by (simp_all add: fact_collector_def fact_cache_config_def)
  then show ?thesis by (simp add: read_cache_def)
qed

lemma configured_client:
  assumes "main_setup sv kvc url user password fl = Inr ex"
  shows "BulkFacts (fst (NewHTTPClient pool (ex_client ex))) = collectorHostFactBulk fl"
    "Concurrency (fst (NewHTTPClient pool (ex_client ex))) = concurrency fl"
    "Limit (fst (NewHTTPClient pool (ex_client ex))) = host_limit fl"
  unfolding main_setup_Inr(3) [OF assms] by (simp_all add: NewHTTPClient_def client_config_def)

lemma collected_clean:
  assumes "wf_hosts_facts F" "(h, m) \<in> set F" "labels_clean (snd ` fst ` set db)"
    and "\<And>h k. fact_at F (h, k) =
         (case map_of db (h, k) of None \<Rightarrow> None
          | Some v \<Rightarrow> if h \<in> H \<and> fact_kept c k v then Some v else None)"
  shows "wf_map m" "labels_clean (fst ` set m)"
    "map_of m k = Some v \<longleftrightarrow> map_of db (h, k) = Some v \<and> h \<in> H \<and> fact_kept c k v"
    "snd ` set m \<subseteq> snd ` set db"
proof -
  have m: "map_of F h = Some m"
    using assms(1,2) by (simp add: wf_hosts_facts_def in_set_map_of)
  then show wf: "wf_map m" using assms(1) by (rule wf_hosts_facts_lookup [rotated])
  have "map_of m k = fact_at F (h, k)" for k by (simp add: fact_at_def m)
  then show look: "map_of m k = Some v \<longleftrightarrow> map_of db (h, k) = Some v \<and> h \<in> H \<and> fact_kept c k v" for k v
    unfolding assms(4) by (auto split: option.splits if_splits)
  show "snd ` set m \<subseteq> snd ` set db"
  proof
    fix v
    assume "v \<in> snd ` set m"
    then obtain k where "(k, v) \<in> set m" by force
    then have "map_of m k = Some v" using wf by (simp add: in_set_map_of)
    then have "((h, k), v) \<in> set db" using look by (auto dest: map_of_SomeD)
    then show "v \<in> snd ` set db" by force
  qed
  have "fst ` set m \<subseteq> snd ` fst ` set db"
  proof
    fix k
    assume "k \<in> fst ` set m"
    then obtain v where "map_of m k = Some v" by (metis map_of_eq_None_iff not_Some_eq)
    then have "((h, k), v) \<in> set db" using look by (auto dest: map_of_SomeD)
    then show "k \<in> snd ` fst ` set db" by force
  qed
  then show "labels_clean (fst ` set m)"
    using assms(3) unfolding labels_clean_def by (meson inj_on_subset subset_iff)
qed

text \<open>C1: From the flags to the metrics: an exporter that was set up to collect facts in bulk, without a cache, and a
  foreman that answers as documented. A request to the fact collector that finishes in time exports, for
  every host that has facts in foreman's database, exactly one kind of series, with the host's name and
  exactly its facts that the filter keeps and that have a label name, with their values; no other host;
  and no error. (Provided no two facts give the same label, and none a reserved one or that of the host's name; and that the Prometheus client accepts valid label names
  with values that foreman sent, which \<open>encoding/json\<close> has made valid UTF-8.)\<close>

theorem facts_from_flags_to_metrics:
  assumes "main_setup sv kvc url user password fl = Inr ex" "ex_fact ex = Some c"
    and "\<not> ringEnabled fl" "\<not> cacheEnabled fl" "\<not> collectorHostFactCacheEnabled fl"
    and "collectorHostFactBulk fl" "1 \<le> concurrency fl" "host_limit fl = 0"
    and "hostFactHandler ParseFloat req c = Scrape c'" "client = fst (NewHTTPClient pool (ex_client ex))"
    and "serves_list client tr first hs" "mset arr1 = mset [0..<rest_pages client first hs]"
    and "batch_size client + int (length hs) < 2 ^ 63" "splitHosts client hs = Inr batches" "distinct (map Name hs)"
    and "\<forall>b \<in> set batches. serves_batch client tr db (e b) b" "mset arr2 = mset [0..<length batches]"
    and "labels_clean (snd ` fst ` set db)"
    and "\<forall>l. names_accepted l \<and> snd ` set l \<subseteq> Name ` set hs \<union> snd ` set db \<longrightarrow> desc_ok l"
  shows "\<exists>answer ms samples. GetHostsFactsFiltered client tr arr1 arr2 = Returns (answer, ms)
    \<and> HostFactCollector_Collect desc_ok lk c' cd env answer race.Finished = Returns samples
    \<and> ScrapeError False \<in> set samples
    \<and> (\<forall>l. Info l \<in> set samples \<longrightarrow> (\<exists>h \<in> Name ` set hs. map_of l ''name'' = Some h
          \<and> (\<forall>x v. x \<noteq> ''name'' \<longrightarrow> (map_of l x = Some v
               \<longleftrightarrow> (\<exists>k. map_of db (h, k) = Some v \<and> fact_kept client k v \<and> sanitize k = x \<and> label_name_ok x)))))
    \<and> {h. \<exists>l. Info l \<in> set samples \<and> map_of l ''name'' = Some h} = Name ` set hs \<inter> fst ` fst ` set db"
proof -
  have client: "BulkFacts client" "1 \<le> Concurrency client" "Limit client = 0"
    using configured_client [OF assms(1), of pool] assms(6-8) unfolding assms(10) by simp_all
  from collection_honest [OF client assms(11-17)] obtain F ms where
    run: "GetHostsFactsFiltered client tr arr1 arr2 = Returns ((F, None), ms)" "wf_hosts_facts F"
    and hosts: "\<And>h. map_of F h = None \<longleftrightarrow> h \<notin> Name ` set hs \<or> h \<notin> fst ` fst ` set db"
    and facts: "\<And>h k. fact_at F (h, k) = (case map_of db (h, k) of None \<Rightarrow> None
          | Some v \<Rightarrow> if h \<in> Name ` set hs \<and> fact_kept client k v then Some v else None)" by blast
  note clean = collected_clean [OF run(2) _ assms(18) facts]
  have wf: "wf_map F" using run(2) by (simp add: wf_hosts_facts_def)
  have inF: "h \<in> Name ` set hs \<inter> fst ` fst ` set db \<longleftrightarrow> (\<exists>m. (h, m) \<in> set F)" for h
  proof -
    have "(\<exists>m. (h, m) \<in> set F) \<longleftrightarrow> map_of F h \<noteq> None" using wf by (auto simp: in_set_map_of dest: map_of_SomeD)
    then show ?thesis unfolding hosts by blast
  qed
  have "desc_ok (fact_labels h m)" if "(h, m) \<in> set F" for h m
  proof (intro assms(19) [rule_format] conjI names_accepted_clean)
    show "wf_map m" "labels_clean (fst ` set m)" using clean(1,2) [OF that] .
    have "h \<in> Name ` set hs" using inF that by blast
    then show "snd ` set (fact_labels h m) \<subseteq> Name ` set hs \<union> snd ` set db"
      using fact_labels_values [of h m] clean(4) [OF that] by blast
  qed
  from finished_facts [OF uncached_facts_read [OF assms(1-5,9)], of F desc_ok lk cd env, OF this] obtain samples where
    samples: "HostFactCollector_Collect desc_ok lk c' cd env (F, None) race.Finished = Returns samples"
      "\<And>l. Info l \<in> set samples \<longleftrightarrow> (\<exists>(h, m) \<in> set F. l = fact_labels h m)" "ScrapeError False \<in> set samples"
    by blast
  have "\<exists>h \<in> Name ` set hs. map_of l ''name'' = Some h
          \<and> (\<forall>x v. x \<noteq> ''name'' \<longrightarrow> (map_of l x = Some v
               \<longleftrightarrow> (\<exists>k. map_of db (h, k) = Some v \<and> fact_kept client k v \<and> sanitize k = x \<and> label_name_ok x)))"
    if l: "Info l \<in> set samples" for l
  proof -
    obtain h m where hm: "(h, m) \<in> set F" "l = fact_labels h m" using l samples(2) by auto
    then have h: "h \<in> Name ` set hs" using inF by blast
    note look = fact_labels_lookup [OF clean(1,2) [OF hm(1)], where host = h]
    have "map_of l x = Some v \<longleftrightarrow> (\<exists>k. map_of db (h, k) = Some v \<and> fact_kept client k v \<and> sanitize k = x \<and> label_name_ok x)"
      if "x \<noteq> ''name''" for x v
      unfolding hm(2) look(2) [OF that] clean(3) [OF hm(1)] using h by blast
    with h look(1) show ?thesis unfolding hm(2) by (intro bexI [of _ h]) simp_all
  qed
  moreover have "{h. \<exists>l. Info l \<in> set samples \<and> map_of l ''name'' = Some h} = Name ` set hs \<inter> fst ` fst ` set db"
  proof (rule set_eqI)
    fix h
    have "(\<exists>l. Info l \<in> set samples \<and> map_of l ''name'' = Some h) \<longleftrightarrow> (\<exists>(h', m) \<in> set F. map_of (fact_labels h' m) ''name'' = Some h)"
      unfolding samples(2) by auto
    also have "\<dots> \<longleftrightarrow> (\<exists>m. (h, m) \<in> set F)"
      using fact_labels_lookup(1) [OF clean(1,2)] by fastforce
    finally show "h \<in> {h. \<exists>l. Info l \<in> set samples \<and> map_of l ''name'' = Some h} \<longleftrightarrow> h \<in> Name ` set hs \<inter> fst ` fst ` set db"
      unfolding inF by simp
  qed
  ultimately show ?thesis using run(1) samples(1,3) by blast
qed

text \<open>The example: the two hosts of the small foreman, with flags that differ from the defaults in the page limits.\<close>

definition small_flags :: flags where
  "small_flags = default_flags\<lparr>collectorsEnabled := [''hostfact''], collectorHostFactPerPage := 2, collectorHostFactMaxPages := 2\<rparr>"

lemma small_flags_client:
  "fst (NewHTTPClient pool (client_config ''https://foreman'' ''u'' ''p'' small_flags)) = two_page_client"
  by (simp add: NewHTTPClient_def client_config_def small_flags_def default_flags_def splitCommaList_def
      SortedFactNames_def two_page_client_def default_client_def)

lemma small_flags_simps:
  "\<not> ringEnabled small_flags" "\<not> cacheEnabled small_flags" "\<not> collectorHostFactCacheEnabled small_flags"
  "collectorHostFactBulk small_flags" "1 \<le> concurrency small_flags" "host_limit small_flags = 0"
  "List.member (collectorsEnabled small_flags) ''hostfact''"
  by (simp_all add: small_flags_def default_flags_def)

lemma small_clean: "labels_clean (snd ` fst ` set two_page_rows)"
  by (auto simp: labels_clean_def two_page_rows_def sanitize_char_def reserved_def inj_on_def)

theorem facts_from_flags_to_metrics_witness:
  "\<exists>answer ms samples. GetHostsFactsFiltered two_page_client small_foreman [0] [0] = Returns (answer, ms)
    \<and> HostFactCollector_Collect names_accepted False (fact_collector small_flags False\<lparr>PrometheusTimeout := 0\<rparr>)
        example_codec example_env answer race.Finished = Returns samples
    \<and> ScrapeError False \<in> set samples
    \<and> {h. \<exists>l. Info l \<in> set samples \<and> map_of l ''name'' = Some h} = {''a'', ''b''}"
proof -
  obtain ex where ex: "main_setup example_services example_gossip ''https://foreman'' ''u'' ''p'' small_flags = Inr ex"
    using small_flags_simps(1) by (auto simp: main_setup_def Let_def)
  then have c: "ex_fact ex = Some (fact_collector small_flags False)"
    and client: "fst (NewHTTPClient pool (ex_client ex)) = two_page_client" for pool
    using small_flags_simps(1,7) by (simp_all only: main_setup_Inr(3,4) [OF ex] small_flags_client if_True)
  have req: "hostFactHandler (\<lambda>_. 0) no_parameters (fact_collector small_flags False)
      = Scrape (fact_collector small_flags False\<lparr>PrometheusTimeout := 0\<rparr>)"
    by (simp add: hostFactHandler_def cache_parameter_def no_parameters_def query_Get_def)
  have hosts: "Name ` set two_hosts \<inter> fst ` fst ` set two_page_rows = {''a'', ''b''}"
    by (simp add: two_page_rows_def)
  have arr: "mset [0] = mset [0..<rest_pages two_page_client (small_answer 1) two_hosts]"
    "mset [0 :: nat] = mset [0..<length [two_hosts]]" "batch_size two_page_client + int (length two_hosts) < 2 ^ 63"
    "distinct (map Name two_hosts)"
    by (simp_all add: small_list(2) small_client)
  have accepted: "\<forall>l. names_accepted l \<and> snd ` set l \<subseteq> Name ` set two_hosts \<union> snd ` set two_page_rows \<longrightarrow> names_accepted l" by simp
  show ?thesis
    using facts_from_flags_to_metrics [OF ex c small_flags_simps(1-6) req client [symmetric] small_list(1) arr(1,3) two_hosts_split
        arr(4) small_served arr(2) small_clean accepted, of False example_codec example_env]
    unfolding hosts by (elim exE conjE) (intro exI conjI; assumption)
qed


section \<open>What the collectors put in the cache\<close>

text \<open>C7: The host collector never caches a partial list: when the client's list leads to a cache update, every page
  of the list was answered, and the cached value is the filtered labels of all their hosts, at least
  as many as foreman announced, or as the limit asks for.\<close>

theorem host_cache_is_complete:
  assumes "1 \<le> Concurrency client" "fst (GetHosts client tr ''true'' 1 1) = Inr first"
    and "pageCount client (expectedHosts first) (limited client 100) = pages" "0 < pages"
    and "mset arr = mset [0..<nat pages]"
    and "GetHostsFiltered client tr 100 arr = Returns (answer, ms)"
    and "host_scrape c inc exc cd e answer = (hostsData, bad, Some u)"
  shows "u = update_cache hostsKey c cd e hostsData
    \<and> hostsData = map (\<lambda>h. filter_host_labels inc exc (host_labels h))
        (page_hosts (page_results client tr ''false'' (limited client 100) [1..pages]))
    \<and> limited client (expectedHosts first) \<le> int (length hostsData)"
proof -
  have scrape: "snd answer = None" "u = update_cache hostsKey c cd e hostsData"
    "hostsData = map (\<lambda>h. filter_host_labels inc exc (host_labels h)) (fst answer)"
    using assms(7) by (auto simp: host_scrape_def Let_def split: if_splits)
  have "GetHostsFiltered client tr 100 arr = Returns ((fst answer, None), ms)"
    using assms(6) scrape(1) by (metis prod.collapse)
  note list = complete_without_error [OF assms(1-5) this]
  then have hosts: "page_hosts (page_results client tr ''false'' (limited client 100) [1..pages]) = fst answer"
    by simp
  have "length hostsData = length (fst answer)" unfolding scrape(3) by simp
  then show ?thesis using list scrape(2,3) unfolding hosts by simp
qed

definition one_page_server :: transport where
  "one_page_server r = fleet_page fleet"

definition one_page_answer :: HostResponse where
  "one_page_answer = \<lparr>Total = 0, Subtotal = Some 4, Page = 1, PerPage = 2, Results = fleet\<rparr>"

lemma one_page_answers: "fst (GetHosts c one_page_server thin k p) = Inr one_page_answer"
  by (simp add: eval_host_page one_page_server_def fleet_page_def one_page_answer_def fleet_def example_host_def zero_Host_def)

theorem host_cache_is_complete_witness:
  "\<exists>u ms hostsData. GetHostsFiltered fleet_client one_page_server 100 [0] = Returns ((fleet, None), ms)
    \<and> host_scrape example_collector None None example_codec example_env (fleet, None) = (hostsData, False, Some u)
    \<and> u = update_cache hostsKey example_collector example_codec example_env hostsData
    \<and> 4 \<le> int (length hostsData)"
proof -
  have lim: "limited fleet_client n = n" for n by (simp add: limited_def)
  have one: "ceil_div 4 100 = 1" by (simp add: ceil_div_def)
  have count: "expectedHosts one_page_answer = 4" by (simp add: expectedHosts_def one_page_answer_def)
  have pages: "pageCount fleet_client (expectedHosts one_page_answer) (limited fleet_client 100) = 1"
    by (simp add: lim count pageCount_ceil one)
  have "serves_pages fleet_client one_page_server ''false'' 100 100 fleet [1]"
    by (simp add: serves_pages_def one_page_answers one_page_answer_def host_page_def)
  then obtain ms where run: "GetHostsFiltered fleet_client one_page_server 100 [0] = Returns ((fleet, None), ms)"
    using GetHostsFiltered_honest [of fleet_client 100 one_page_server one_page_answer fleet "[0]"]
    by (auto simp: one one_page_answers count lim)
  obtain d u where scrape: "host_scrape example_collector None None example_codec example_env (fleet, None) = (d, False, Some u)"
    by (auto simp: host_scrape_def Let_def example_collector_def)
  show ?thesis
    using host_cache_is_complete [OF _ one_page_answers pages _ _ run scrape] run scrape
    by (simp only: lim count fleet_fields) auto
qed

text \<open>C14: Unless it was told otherwise, the fact collector never caches an incomplete collection: when the
  bulk collection leads to a cache update, every batch was collected whole.\<close>

theorem fact_cache_is_whole:
  assumes "\<not> CacheOnPartial c" "splitHosts client hosts = Inr batches" "mset order = mset [0..<length batches]"
    and "getHostsFactsBulk client tr hosts order = Returns (answer, ms)"
    and "fact_scrape c cd e answer = (hostsData, bad, Some u)"
  shows "(\<forall>b \<in> set batches. whole client tr b) \<and> \<not> bad \<and> u = update_cache hostsFactsKey c cd e hostsData"
proof -
  obtain F where F: "answer = (F, None)" and upd: "u = update_cache hostsFactsKey c cd e hostsData" "\<not> bad"
    using assms(1,5) by (cases answer) (auto simp: fact_scrape_def Let_def split: if_splits)
  obtain ms' where "getHostsFactsBulk client tr hosts order = Returns ((hostsFacts (bulk_final client tr batches order),
      bulk_error (int (length batches)) (bulk_final client tr batches order)), ms')"
    using getHostsFactsBulk_eq [OF assms(2)] by blast
  with assms(4) F have "bulk_error (int (length batches)) (bulk_final client tr batches order) = None" by simp
  then have "failed_batches client tr batches = 0 \<and> cut_batches client tr batches = 0"
    unfolding bulk_error_def bulk_final_counters [OF assms(3)] by (auto split: if_splits)
  then show ?thesis using upd no_lost_batches by blast
qed

theorem fact_cache_is_whole_witness:
  "whole two_page_client two_page_server two_hosts"
proof -
  obtain ms where run: "getHostsFactsBulk two_page_client two_page_server two_hosts [0]
     = Returns (([(''a'', [(''k'', ''1''), (''l'', ''2'')]), (''b'', [(''k'', ''3'')])], None), ms)"
    using two_hosts_bulk by blast
  obtain d u where scrape: "fact_scrape example_collector example_codec example_env
      ([(''a'', [(''k'', ''1''), (''l'', ''2'')]), (''b'', [(''k'', ''3'')])], None) = (d, False, Some u)"
    by (auto simp: fact_scrape_def Let_def example_collector_def)
  have "\<not> CacheOnPartial example_collector" by (simp add: example_collector_def)
  from fact_cache_is_whole [OF this two_hosts_split _ run scrape] show ?thesis by simp
qed

section \<open>A change of leader\<close>

text \<open>C6: The cache survives a change of leader: an entry that the leader stored, sent over the wire and
  merged by a replica that holds nothing newer, is what that replica serves when it leads in turn,
  until the time to live, counted from the old leader's scrape, is over.\<close>

theorem failover_serves_cached:
  assumes "ring_enabled c" "UseCache c" "Enabled (CacheConfig c)" "codec_ok cd d"
    and "update_cache key c cd e d = KVNotify new" "Marshal new = Inr bs" "int (length bs) < 2 ^ 63"
    and "is_i64 (now e)" "is_i64 (now e + ExpiresTTL (CacheConfig c))"
    and "leader e' = Inr True" "\<And>old. kv_entry e' = Some old \<Longrightarrow> CreatedAt old < now e"
  shows "\<exists>got. Unmarshal empty_entry bs = Returns (Inr got)
    \<and> read_cache key c cd (apply_update (KVNotify got) e')
        = Inr (now e' \<le> now e + ExpiresTTL (CacheConfig c), now e' > now e + ExpiresTTL (CacheConfig c), d)"
proof -
  let ?content = "if Compression (CacheConfig c) then zstd_encode cd (json_marshal cd d) else json_marshal cd d"
  have new: "new = \<lparr>Content = ?content, CreatedAt = now e, ExpiresAt = now e + ExpiresTTL (CacheConfig c), XXX_unrecognized = []\<rparr>"
    using assms(1,5) by (simp add: update_cache_def updateKV_def Let_def)
  then have "Unmarshal empty_entry bs = Returns (Inr new)"
    using assms(6-9) by (intro unmarshal_marshal) simp_all
  moreover have "kv_entry (apply_update (KVNotify new) e') = Some new" "leader (apply_update (KVNotify new) e') = Inr True"
      "now (apply_update (KVNotify new) e') = now e'"
    using assms(10,11) by (auto simp: apply_update_def receive_eq new split: option.splits)
  then have "read_cache key c cd (apply_update (KVNotify new) e')
      = Inr (now e' \<le> ExpiresAt new, now e' > ExpiresAt new, d)"
    using assms(1-4) by (auto simp: read_cache_def read_kv_def codec_ok_def Let_def new)
  ultimately show ?thesis by (simp add: new)
qed

theorem failover_serves_cached_witness:
  "\<exists>bs got. Marshal \<lparr>Content = [1], CreatedAt = 1000, ExpiresAt = 1100, XXX_unrecognized = []\<rparr> = Inr bs
    \<and> Unmarshal empty_entry bs = Returns (Inr got)
    \<and> read_cache hostsKey (example_collector\<lparr>ring_enabled := True\<rparr>)
        (example_codec\<lparr>json_unmarshal := \<lambda>b. Some [[(''name'', ''a'')]]\<rparr>)
        (apply_update (KVNotify got) (example_env\<lparr>leader := Inr True, now := 1050\<rparr>))
      = Inr (True, False, [[(''name'', ''a'')]])"
proof -
  let ?c = "example_collector\<lparr>ring_enabled := True\<rparr>"
  let ?cd = "example_codec\<lparr>json_unmarshal := \<lambda>b. Some [[(''name'', ''a'')]]\<rparr>"
  let ?e = "example_env\<lparr>leader := Inr True, now := 1050\<rparr>"
  let ?new = "\<lparr>Content = [1], CreatedAt = 1000, ExpiresAt = 1100, XXX_unrecognized = []\<rparr> :: Cache"
  have c: "ring_enabled ?c" "UseCache ?c" "Enabled (CacheConfig ?c)" "ExpiresTTL (CacheConfig ?c) = 100"
    by (simp_all add: example_collector_def)
  have codec: "codec_ok ?cd [[(''name'', ''a'')]]" by (simp add: codec_ok_def example_codec_def)
  have now: "now example_env = 1000" "leader ?e = Inr True" "kv_entry ?e = None" by (simp_all add: example_env_def)
  have upd: "update_cache hostsKey ?c ?cd example_env [[(''name'', ''a'')]] = KVNotify ?new"
    by (simp add: update_cache_def updateKV_def example_collector_def example_codec_def example_env_def)
  have "int (length (wire_format ?new)) < 2 ^ 63"
    using varint_short [of 1] varint_short [of 1000] varint_short [of 1100]
    by (simp add: wire_format_def bytes_field_def int_field_def)
  from failover_serves_cached [OF c(1-3) codec upd marshal_eq this _ _ now(2)] now c(4)
  obtain got where "Unmarshal empty_entry (wire_format ?new) = Returns (Inr got)"
      "read_cache hostsKey ?c ?cd (apply_update (KVNotify got) ?e) = Inr (True, False, [[(''name'', ''a'')]])"
    by (auto simp: is_i64_def)
  then show ?thesis using marshal_eq [of ?new] by blast
qed

end
